(* ===== verification/Vibe_Prelude.thy ===== *)
theory Vibe_Prelude
  imports Main "HOL-Library.Word" "HOL-Library.Monad_Syntax"
begin

unbundle bit_operations_syntax

section \<open>Prelude: machine types, Go slices, Go time\<close>

text \<open>
  The types and the shared lemmas of the development.
  Bytes and unsigned integers of the Go code keep their width (\<open>byte\<close>, \<open>u16\<close>, \<open>u32\<close>), so
  that every addition and subtraction wraps as it does in Go. A \<^theory_text>\<open>[]byte\<close> is a
  \<open>byte list\<close> (\<open>nil\<close> and the empty slice are not distinguished by the code). An array
  \<^theory_text>\<open>[4]byte\<close> is a tuple, so its length is part of its type. An index or a slice
  expression that is out of range is a run-time panic in Go: \<open>goIdx\<close> and \<open>goSlice\<close> give
  \<open>None\<close> there, and the parsers that read untrusted bytes thread that \<open>None\<close> through the
  option monad.

  A \<^theory_text>\<open>time.Time\<close> is the number of nanoseconds since the Unix epoch, an unbounded
  integer; the zero \<^theory_text>\<open>time.Time\<close> is the first of January of the year 1. A
  \<^theory_text>\<open>time.Duration\<close> is a signed 64-bit number of nanoseconds: \<open>wrap64\<close> is written out
  where its arithmetic can overflow, and \<open>timeSub\<close> saturates as \<^theory_text>\<open>Time.Sub\<close> does.
\<close>

type_synonym byte = "8 word"
type_synonym u8 = "8 word"
type_synonym u16 = "16 word"
type_synonym u32 = "32 word"
type_synonym ip4 = "byte \<times> byte \<times> byte \<times> byte"
type_synonym time = int
type_synonym duration = int

named_theorems frame
  \<open>what an operation of a connection leaves unchanged\<close>
named_theorems effect
  \<open>what an operation of a connection writes\<close>
named_theorems codec
  \<open>lengths and reads of encoded bytes\<close>

subsection \<open>Slices\<close>

definition goIdx :: "'a list \<Rightarrow> nat \<Rightarrow> 'a option" where
  "goIdx b i = (if i < length b then Some (b ! i) else None)"

definition goSlice :: "'a list \<Rightarrow> nat \<Rightarrow> nat \<Rightarrow> 'a list option" where
  "goSlice b i j = (if i \<le> j \<and> j \<le> length b then Some (take (j - i) (drop i b)) else None)"

text \<open>\<^theory_text>\<open>copy(b[off:], xs)\<close>: as many elements as both sides have room for.\<close>

definition copyInto :: "'a list \<Rightarrow> nat \<Rightarrow> 'a list \<Rightarrow> 'a list" where
  "copyInto b off xs =
     take off b @ take (length b - off) xs @ drop (off + length xs) b"

definition ip4_list :: "ip4 \<Rightarrow> byte list" where
  "ip4_list a = (case a of (p, q, r, s) \<Rightarrow> [p, q, r, s])"

text \<open>\<^theory_text>\<open>copy(a[:], b[off:off+4])\<close> into a zeroed \<^theory_text>\<open>[4]byte\<close>.\<close>

definition ip4_at :: "byte list \<Rightarrow> nat \<Rightarrow> ip4 option" where
  "ip4_at b off = do {
     p \<leftarrow> goIdx b off; q \<leftarrow> goIdx b (off + 1);
     r \<leftarrow> goIdx b (off + 2); s \<leftarrow> goIdx b (off + 3);
     Some (p, q, r, s) }"

lemma goIdx_in [simp]: "i < length b \<Longrightarrow> goIdx b i = Some (b ! i)"
  by (simp add: goIdx_def)

lemma goSlice_in [simp]:
  "i \<le> j \<Longrightarrow> j \<le> length b \<Longrightarrow> goSlice b i j = Some (take (j - i) (drop i b))"
  by (simp add: goSlice_def)

lemma length_ip4_list [simp, codec]: "length (ip4_list a) = 4"
  by (simp add: ip4_list_def split: prod.splits)

lemma length_copyInto [simp, codec]:
  "off + length xs \<le> length b \<Longrightarrow> length (copyInto b off xs) = length b"
  by (simp add: copyInto_def)

lemma ip4_at_in:
  "off + 3 < length b \<Longrightarrow>
     ip4_at b off = Some (b ! off, b ! (off + 1), b ! (off + 2), b ! (off + 3))"
  by (simp add: ip4_at_def)

lemma nth_copyInto:
  "off + length xs \<le> length b \<Longrightarrow> i < length b \<Longrightarrow>
     copyInto b off xs ! i =
       (if i < off then b ! i else if i < off + length xs then xs ! (i - off) else b ! i)"
  by (auto simp: copyInto_def nth_append min_def)

lemma nat_less_4: "(n::nat) < 4 \<longleftrightarrow> n = 0 \<or> n = 1 \<or> n = 2 \<or> n = 3"
  by auto

lemma list4_eq: "length xs = 4 \<Longrightarrow> xs = [xs ! 0, xs ! 1, xs ! 2, xs ! 3]"
  by (rule nth_equalityI) (auto simp: nat_less_4)

subsection \<open>Words\<close>

lemma unat_u8_less: "unat (a :: byte) < 256"
  using unsigned_less [of a] by simp

lemma unat_u16_less: "unat (a :: u16) < 65536"
  using unsigned_less [of a] by simp

lemma unat_u32_less: "unat (a :: u32) < 4294967296"
  using unsigned_less [of a] by simp

lemma unat_u32_diff: "unat (a - b :: u32) =
    (if unat b \<le> unat a then unat a - unat b else 4294967296 + unat a - unat b)"
  by (simp add: unat_sub_if_size word_size) linarith

lemma unat_u32_add: "unat (a + b :: u32) = (unat a + unat b) mod 4294967296"
  by (simp add: unat_word_ariths)

lemma unat_u32_of_nat: "n < 4294967296 \<Longrightarrow> unat (of_nat n :: u32) = n"
  by (simp add: unat_of_nat)

lemma u32_eq_iff: "(a :: u32) = b \<longleftrightarrow> unat a = unat b"
  by (rule word_unat_eq_iff)

text \<open>The wrap-around distance from \<open>a\<close> up to \<open>b\<close>.\<close>

definition dist :: "u32 \<Rightarrow> u32 \<Rightarrow> nat" where
  "dist a b = unat (b - a)"

lemma dist_self [simp]: "dist a a = 0"
  by (simp add: dist_def)

lemma dist_less: "dist a b < 4294967296"
  unfolding dist_def by (rule unat_u32_less)

lemma dist_0_iff: "dist a b = 0 \<longleftrightarrow> a = b"
  by (auto simp: dist_def unat_eq_0)

lemma dist_gt_0_iff: "0 < dist a b \<longleftrightarrow> a \<noteq> b"
  using dist_0_iff [of a b] by auto

lemma dist_add_of_nat [simp]: "n < 4294967296 \<Longrightarrow> dist a (a + of_nat n) = n"
  by (simp add: dist_def unat_of_nat)

lemma add_dist: "a + of_nat (dist a b) = b"
  by (simp add: dist_def)

subsection \<open>Time\<close>

definition second :: duration where
  "second = 1000000000"

definition millisecond :: duration where
  "millisecond = 1000000"

definition zeroTime :: time where
  "zeroTime = - 62135596800 * second"

definition maxDuration :: duration where
  "maxDuration = 2 ^ 63 - 1"

definition minDuration :: duration where
  "minDuration = - (2 ^ 63)"

definition wrap64 :: "int \<Rightarrow> int" where
  "wrap64 n = (n + 2 ^ 63) mod 2 ^ 64 - 2 ^ 63"

definition timeSub :: "time \<Rightarrow> time \<Rightarrow> duration" where
  "timeSub t u = max minDuration (min maxDuration (t - u))"

text \<open>\<^theory_text>\<open>Duration.Milliseconds\<close> truncates towards zero.\<close>

definition milliseconds :: "duration \<Rightarrow> int" where
  "milliseconds d = sgn d * (\<bar>d\<bar> div 1000000)"

text \<open>\<^theory_text>\<open>Time.UnixMilli\<close> rounds down.\<close>

definition unixMilli :: "time \<Rightarrow> int" where
  "unixMilli t = t div 1000000"

lemmas time_defs = second_def millisecond_def zeroTime_def maxDuration_def minDuration_def

lemma wrap64_id: "- (2 ^ 63) \<le> n \<Longrightarrow> n < 2 ^ 63 \<Longrightarrow> wrap64 n = n"
  by (simp add: wrap64_def)

lemma wrap64_bounds: "- (2 ^ 63) \<le> wrap64 n" "wrap64 n < 2 ^ 63"
  by (simp_all add: wrap64_def)

lemma milliseconds_of: "0 \<le> n \<Longrightarrow> milliseconds (n * millisecond) = n"
  by (simp add: milliseconds_def millisecond_def sgn_if)

lemma timeSub_id: "minDuration \<le> t - u \<Longrightarrow> t - u \<le> maxDuration \<Longrightarrow> timeSub t u = t - u"
  by (simp add: timeSub_def)

end
