(* ===== verification/Link_Pipe.thy ===== *)
theory Link_Pipe
  imports Vibe_Prelude
begin

section \<open>The link interface and the in-memory link (link.go)\<close>

text \<open>
  \<^theory_text>\<open>Link\<close> is the interface between the TCP stack and what carries its packets. The
  in-memory implementation is a pair of ends, each with an inbox; \<open>pipes\<close> maps each side to
  its end. \<^theory_text>\<open>ReadPacket\<close> blocks on an empty inbox: the model answers \<open>None\<close> there. The
  locale states what the stack relies on in a link (packets come out in the order they went in,
  none is lost, duplicated or altered before the link is closed), for one direction.
\<close>

subsection \<open>The code\<close>

datatype linkError = ErrLinkClosed

record pipeLink =
  inbox :: "byte list list"
  pclosed :: bool

datatype side = Near | Far

fun peerOf :: "side \<Rightarrow> side" where
  "peerOf Near = Far"
| "peerOf Far = Near"

type_synonym pipes = "side \<Rightarrow> pipeLink"

definition NewPipeLink :: pipes where
  "NewPipeLink = (\<lambda>_. \<lparr>inbox = [], pclosed = False\<rparr>)"

definition pipeWritePacket :: "side \<Rightarrow> pipes \<Rightarrow> byte list \<Rightarrow> linkError option \<times> pipes" where
  "pipeWritePacket x l pkt =
     (if pclosed (l x) then (Some ErrLinkClosed, l)
      else
        (let p = l (peerOf x) in
         if pclosed p then (Some ErrLinkClosed, l)
         else (None, l(peerOf x := p\<lparr>inbox := inbox p @ [pkt]\<rparr>))))"

definition pipeReadPacket :: "side \<Rightarrow> pipes \<Rightarrow> ((linkError + byte list) \<times> pipes) option" where
  "pipeReadPacket x l =
     (case inbox (l x) of
        [] \<Rightarrow> if pclosed (l x) then Some (Inl ErrLinkClosed, l) else None
      | pkt # q \<Rightarrow> Some (Inr pkt, l(x := (l x)\<lparr>inbox := q\<rparr>)))"

definition TryReadPacket :: "side \<Rightarrow> pipes \<Rightarrow> byte list option \<times> pipes" where
  "TryReadPacket x l =
     (case inbox (l x) of
        [] \<Rightarrow> (None, l)
      | pkt # q \<Rightarrow> (Some pkt, l(x := (l x)\<lparr>inbox := q\<rparr>)))"

definition pipeClose :: "side \<Rightarrow> pipes \<Rightarrow> pipes" where
  "pipeClose x l =
     (let l = l(x := (l x)\<lparr>pclosed := True\<rparr>)
      in l(peerOf x := (l (peerOf x))\<lparr>pclosed := True\<rparr>))"

subsection \<open>What a link promises\<close>

datatype linkOp = Put "byte list" | Get | Shut | Other nat

locale packet_link =
  fixes ok :: "'l \<Rightarrow> bool" and pending :: "'l \<Rightarrow> byte list list" and shut :: "'l \<Rightarrow> bool"
    and put :: "'l \<Rightarrow> byte list \<Rightarrow> linkError option \<times> 'l"
    and get :: "'l \<Rightarrow> ((linkError + byte list) \<times> 'l) option"
    and close :: "'l \<Rightarrow> 'l" and noise :: "nat \<Rightarrow> 'l \<Rightarrow> 'l"
  assumes put_open: "ok l \<Longrightarrow> \<not> shut l \<Longrightarrow> put l p = (r, l') \<Longrightarrow>
      r = None \<and> ok l' \<and> pending l' = pending l @ [p] \<and> \<not> shut l'"
    and put_shut: "ok l \<Longrightarrow> shut l \<Longrightarrow> put l p = (Some ErrLinkClosed, l)"
    and get_next: "ok l \<Longrightarrow> pending l = p # q \<Longrightarrow>
      \<exists>l'. get l = Some (Inr p, l') \<and> ok l' \<and> pending l' = q \<and> shut l' = shut l"
    and get_empty: "ok l \<Longrightarrow> pending l = [] \<Longrightarrow>
      get l = (if shut l then Some (Inl ErrLinkClosed, l) else None)"
    and close_shut: "ok l \<Longrightarrow> ok (close l) \<and> pending (close l) = pending l \<and> shut (close l)"
    and noise_ok: "ok l \<Longrightarrow> ok (noise n l) \<and> pending (noise n l) = pending l \<and>
      (shut l \<longrightarrow> shut (noise n l))"
begin

text \<open>One operation, with the packets accepted so far and the packets read so far.\<close>

fun act :: "'l \<times> byte list list \<times> byte list list \<Rightarrow> linkOp \<Rightarrow>
    'l \<times> byte list list \<times> byte list list" where
  "act (l, ins, outs) (Put p) =
     (case put l p of (None, l') \<Rightarrow> (l', ins @ [p], outs) | (Some e, l') \<Rightarrow> (l', ins, outs))"
| "act (l, ins, outs) Get =
     (case get l of Some (Inr p, l') \<Rightarrow> (l', ins, outs @ [p]) | Some (Inl e, l') \<Rightarrow> (l', ins, outs)
      | None \<Rightarrow> (l, ins, outs))"
| "act (l, ins, outs) Shut = (close l, ins, outs)"
| "act (l, ins, outs) (Other n) = (noise n l, ins, outs)"

definition conserving :: "'l \<times> byte list list \<times> byte list list \<Rightarrow> bool" where
  "conserving s \<longleftrightarrow> (case s of (l, ins, outs) \<Rightarrow> ok l \<and> ins = outs @ pending l)"

lemma act_conserving: "conserving s \<Longrightarrow> conserving (act s x)"
proof -
  assume s: "conserving s"
  obtain l ins outs where e: "s = (l, ins, outs)" by (cases s) auto
  have l: "ok l" "ins = outs @ pending l" using s by (simp_all add: conserving_def e)
  show ?thesis
  proof (cases x)
    case (Put p)
    obtain r l' where r: "put l p = (r, l')" by (cases "put l p") auto
    show ?thesis
    proof (cases "shut l")
      case True
      then show ?thesis using put_shut [OF l(1)] l by (simp add: e Put conserving_def)
    next
      case False
      from put_open [OF l(1) False r] show ?thesis using l r by (simp add: e Put conserving_def)
    qed
  next
    case Get
    show ?thesis
    proof (cases "pending l")
      case Nil
      then show ?thesis using get_empty [OF l(1)] l by (simp add: e Get conserving_def)
    next
      case (Cons p q)
      from get_next [OF l(1) this] show ?thesis using l Cons by (auto simp: e Get conserving_def)
    qed
  next
    case Shut
    then show ?thesis using close_shut [OF l(1)] l by (simp add: e conserving_def)
  next
    case (Other n)
    then show ?thesis using noise_ok [OF l(1)] l by (simp add: e conserving_def)
  qed
qed

lemma run_conserving: "conserving s \<Longrightarrow> conserving (foldl act s xs)"
  by (induction xs arbitrary: s) (simp_all add: act_conserving)

text \<open>After the link is closed, what is still pending can be read, then every read fails.\<close>

lemma drains:
  "ok l \<Longrightarrow> shut l \<Longrightarrow> length (pending l) = n \<Longrightarrow>
     \<exists>l'. foldl act (l, ins, outs) (replicate n Get) = (l', ins, outs @ pending l) \<and>
       get l' = Some (Inl ErrLinkClosed, l')"
proof (induction n arbitrary: l outs)
  case 0
  then show ?case using get_empty by simp
next
  case (Suc n)
  then obtain p q where q: "pending l = p # q" by (cases "pending l") auto
  obtain l' where l': "get l = Some (Inr p, l')" "ok l'" "pending l' = q" "shut l' = shut l"
    using get_next [OF Suc.prems(1) q] by blast
  from Suc.IH [of l' "outs @ [p]"] l' Suc.prems q show ?case by simp
qed

end

subsection \<open>The in-memory link keeps the promise, in each direction\<close>

definition pipeOK :: "pipes \<Rightarrow> bool" where
  "pipeOK l \<longleftrightarrow> pclosed (l Near) = pclosed (l Far)"

lemma pipeOK_side: "pipeOK l \<Longrightarrow> pclosed (l x) = pclosed (l (peerOf x))"
  by (cases x) (simp_all add: pipeOK_def)

text \<open>What the other direction of the same pair may do meanwhile.\<close>

definition pipeNoise :: "side \<Rightarrow> (nat \<Rightarrow> byte list) \<Rightarrow> nat \<Rightarrow> pipes \<Rightarrow> pipes" where
  "pipeNoise x msg n l =
     (if n mod 3 = 0 then snd (pipeWritePacket (peerOf x) l (msg n))
      else if n mod 3 = 1 then snd (TryReadPacket x l)
      else (case pipeReadPacket x l of None \<Rightarrow> l | Some (r, l') \<Rightarrow> l'))"

lemma peerOf_simps [simp]: "peerOf (peerOf x) = x" "peerOf x \<noteq> x" "x \<noteq> peerOf x"
  by (cases x; simp)+

lemma pipeOK_upd:
  "pipeOK l \<Longrightarrow> pclosed a = pclosed (l x) \<Longrightarrow> pipeOK (l(x := a))"
  by (cases x) (simp_all add: pipeOK_def)

lemma pipeOK_closed: "pipeOK (pipeClose x l)"
  by (cases x) (simp_all add: pipeOK_def pipeClose_def Let_def)

interpretation pipe: packet_link pipeOK "\<lambda>l. inbox (l (peerOf x))" "\<lambda>l. pclosed (l x)"
    "pipeWritePacket x" "pipeReadPacket (peerOf x)" "pipeClose x" "pipeNoise x msg" for x msg
proof
  fix l :: pipes
  assume l: "pipeOK l"
  note c = pipeOK_side [OF l, of x]
  show "r = None \<and> pipeOK l' \<and> inbox (l' (peerOf x)) = inbox (l (peerOf x)) @ [p] \<and> \<not> pclosed (l' x)"
    if "\<not> pclosed (l x)" "pipeWritePacket x l p = (r, l')" for p r l'
    using that l c by (auto simp: pipeWritePacket_def Let_def intro!: pipeOK_upd)
  show "pipeWritePacket x l p = (Some ErrLinkClosed, l)" if "pclosed (l x)" for p
    using that by (simp add: pipeWritePacket_def)
  show "\<exists>l'. pipeReadPacket (peerOf x) l = Some (Inr p, l') \<and> pipeOK l' \<and>
      inbox (l' (peerOf x)) = q \<and> pclosed (l' x) = pclosed (l x)"
    if "inbox (l (peerOf x)) = p # q" for p q
    using that l by (auto simp: pipeReadPacket_def intro!: pipeOK_upd)
  show "pipeReadPacket (peerOf x) l = (if pclosed (l x) then Some (Inl ErrLinkClosed, l) else None)"
    if "inbox (l (peerOf x)) = []"
    using that c by (simp add: pipeReadPacket_def)
  show "pipeOK (pipeClose x l) \<and> inbox (pipeClose x l (peerOf x)) = inbox (l (peerOf x)) \<and>
      pclosed (pipeClose x l x)"
    using pipeOK_closed [of x l] by (simp add: pipeClose_def Let_def)
  show "pipeOK (pipeNoise x msg n l) \<and>
      inbox (pipeNoise x msg n l (peerOf x)) = inbox (l (peerOf x)) \<and>
      (pclosed (l x) \<longrightarrow> pclosed (pipeNoise x msg n l x))" for n
    using l by (auto simp: pipeNoise_def pipeWritePacket_def TryReadPacket_def pipeReadPacket_def
        Let_def intro!: pipeOK_upd split: list.splits)
qed

lemma pipeOK_new: "pipeOK NewPipeLink"
  by (simp add: pipeOK_def NewPipeLink_def)

text \<open>The runs of one direction, over the functions of the code.\<close>

fun pipeAct :: "side \<Rightarrow> (nat \<Rightarrow> byte list) \<Rightarrow> pipes \<times> byte list list \<times> byte list list \<Rightarrow> linkOp \<Rightarrow>
    pipes \<times> byte list list \<times> byte list list" where
  "pipeAct x msg (l, ins, outs) (Put p) =
     (case pipeWritePacket x l p of (None, l') \<Rightarrow> (l', ins @ [p], outs) | (Some e, l') \<Rightarrow> (l', ins, outs))"
| "pipeAct x msg (l, ins, outs) Get =
     (case pipeReadPacket (peerOf x) l of
        Some (Inr p, l') \<Rightarrow> (l', ins, outs @ [p])
      | Some (Inl e, l') \<Rightarrow> (l', ins, outs)
      | None \<Rightarrow> (l, ins, outs))"
| "pipeAct x msg (l, ins, outs) Shut = (pipeClose x l, ins, outs)"
| "pipeAct x msg (l, ins, outs) (Other n) = (pipeNoise x msg n l, ins, outs)"

lemma pipeAct_eq: "pipeAct x msg = pipe.act x msg"
proof (intro ext)
  fix s :: "pipes \<times> byte list list \<times> byte list list" and y
  obtain l ins outs where "s = (l, ins, outs)" by (cases s) auto
  then show "pipeAct x msg s y = pipe.act x msg s y"
    by (cases y) (simp_all split: option.splits sum.splits)
qed

lemma pipe_run:
  assumes "foldl (pipeAct x msg) (NewPipeLink, [], []) xs = (l, ins, outs)"
  shows "ins = outs @ inbox (l (peerOf x))"
proof -
  have "pipe.conserving x (NewPipeLink, [], [])"
    using pipeOK_new by (simp add: pipe.conserving_def NewPipeLink_def)
  from pipe.run_conserving [OF this, of msg xs] show ?thesis
    using assms by (simp add: pipeAct_eq pipe.conserving_def)
qed

section \<open>Properties\<close>

text \<open>
  The in-memory link is a FIFO channel. In every interleaving of writes, reads, tries and
  closes on both sides, the packets one side has read followed by its inbox are exactly the
  packets the other side wrote without an error, in that order.
\<close>

theorem pipe_is_fifo:
  "case foldl (pipeAct x other) (NewPipeLink, [], []) ops of
     (l, written, got) \<Rightarrow> written = got @ inbox (l (peerOf x))"
proof -
  obtain l written got where r: "foldl (pipeAct x other) (NewPipeLink, [], []) ops = (l, written, got)"
    by (metis prod_cases3)
  from pipe_run [OF this] show ?thesis by (simp add: r)
qed

end
