(* ===== verification/Net_Bytes.thy ===== *)
theory Net_Bytes
  imports Vibe_Prelude
begin

unbundle bit_operations_syntax

section \<open>Big-endian reads and writes (tcp/network/bytes.go)\<close>

text \<open>
  \<open>Be16\<close> and \<open>Be32\<close> read, \<open>PutBe16\<close> and \<open>PutBe32\<close> write. A read out of range is
  \<open>None\<close> (the panic of Go). The writes are used on buffers the code has just made, at
  offsets below their length.
\<close>

definition Be16 :: "byte list \<Rightarrow> nat \<Rightarrow> u16 option" where
  "Be16 b off = do {
     p \<leftarrow> goIdx b off; q \<leftarrow> goIdx b (off + 1);
     Some (push_bit 8 (ucast p) OR ucast q) }"

definition Be32 :: "byte list \<Rightarrow> nat \<Rightarrow> u32 option" where
  "Be32 b off = do {
     p \<leftarrow> goIdx b off; q \<leftarrow> goIdx b (off + 1);
     r \<leftarrow> goIdx b (off + 2); s \<leftarrow> goIdx b (off + 3);
     Some (push_bit 24 (ucast p) OR push_bit 16 (ucast q) OR push_bit 8 (ucast r) OR ucast s) }"

definition PutBe16 :: "byte list \<Rightarrow> nat \<Rightarrow> u16 \<Rightarrow> byte list" where
  "PutBe16 b off v = b[off := ucast (drop_bit 8 v), off + 1 := ucast v]"

definition PutBe32 :: "byte list \<Rightarrow> nat \<Rightarrow> u32 \<Rightarrow> byte list" where
  "PutBe32 b off v =
     b[off := ucast (drop_bit 24 v), off + 1 := ucast (drop_bit 16 v),
       off + 2 := ucast (drop_bit 8 v), off + 3 := ucast v]"

lemma length_PutBe16 [simp, codec]: "length (PutBe16 b off v) = length b"
  by (simp add: PutBe16_def)

lemma length_PutBe32 [simp, codec]: "length (PutBe32 b off v) = length b"
  by (simp add: PutBe32_def)

lemma be16_split: "push_bit 8 (ucast (ucast (drop_bit 8 v) :: byte)) OR ucast (ucast v :: byte) = (v :: u16)"
  by (rule bit_word_eqI) (auto simp: bit_simps)

lemma be32_split:
  "push_bit 24 (ucast (ucast (drop_bit 24 v) :: byte)) OR
   push_bit 16 (ucast (ucast (drop_bit 16 v) :: byte)) OR
   push_bit 8 (ucast (ucast (drop_bit 8 v) :: byte)) OR ucast (ucast v :: byte) = (v :: u32)" (is "?l = v")
proof (rule bit_word_eqI)
  fix n assume "n < LENGTH(32)"
  then consider "n < 8" | "8 \<le> n" "n < 16" | "16 \<le> n" "n < 24" | "24 \<le> n" "n < 32"
    by fastforce
  then show "bit ?l n \<longleftrightarrow> bit v n"
    by cases (auto simp: bit_simps)
qed

lemma Be16_in: "off + 1 < length b \<Longrightarrow>
    Be16 b off = Some (push_bit 8 (ucast (b ! off)) OR ucast (b ! (off + 1)))"
  by (simp add: Be16_def)

lemma Be32_in: "off + 3 < length b \<Longrightarrow>
    Be32 b off = Some (push_bit 24 (ucast (b ! off)) OR push_bit 16 (ucast (b ! (off + 1))) OR
      push_bit 8 (ucast (b ! (off + 2))) OR ucast (b ! (off + 3)))"
  by (simp add: Be32_def)

lemma Be16_PutBe16 [simp]: "off + 1 < length b \<Longrightarrow> Be16 (PutBe16 b off v) off = Some v"
  by (simp add: Be16_in PutBe16_def be16_split)

lemma Be32_PutBe32 [simp]: "off + 3 < length b \<Longrightarrow> Be32 (PutBe32 b off v) off = Some v"
  by (simp add: Be32_in PutBe32_def be32_split)

lemma nth_PutBe16_other [simp]:
  "i \<noteq> off \<Longrightarrow> i \<noteq> off + 1 \<Longrightarrow> PutBe16 b off v ! i = b ! i"
  by (simp add: PutBe16_def)

lemma Be16_None_iff: "Be16 b off = None \<longleftrightarrow> length b \<le> off + 1"
  by (auto simp: Be16_def goIdx_def)

lemma Be32_None_iff: "Be32 b off = None \<longleftrightarrow> length b \<le> off + 3"
  by (auto simp: Be32_def goIdx_def)

lemma unat_be16: "unat (push_bit 8 (ucast p) OR ucast (q :: byte) :: u16) = 256 * unat (p :: byte) + unat q"
proof -
  have "(push_bit 8 (ucast p) OR ucast q :: u16) = push_bit 8 (ucast p) + ucast q"
    by (rule disjunctive_add_eq_or [symmetric], rule bit_word_eqI) (auto simp: bit_simps dest: bit_imp_le_length)
  also have "\<dots> = of_nat (256 * unat p + unat q)"
    by (simp add: push_bit_eq_mult unsigned_ucast_eq)
  finally have "unat (push_bit 8 (ucast p) OR ucast q :: u16) = unat (of_nat (256 * unat p + unat q) :: u16)"
    by (rule arg_cong)
  also have "\<dots> = 256 * unat p + unat q"
    unfolding unat_of_nat using unat_u8_less [of p] unat_u8_less [of q] by simp
  finally show ?thesis .
qed

lemma unat_be16_32: "unat (push_bit 8 (ucast p) OR ucast (q :: byte) :: u32) = 256 * unat (p :: byte) + unat q"
proof -
  have "(push_bit 8 (ucast p) OR ucast q :: u32) = push_bit 8 (ucast p) + ucast q"
    by (rule disjunctive_add_eq_or [symmetric], rule bit_word_eqI) (auto simp: bit_simps dest: bit_imp_le_length)
  also have "\<dots> = of_nat (256 * unat p + unat q)"
    by (simp add: push_bit_eq_mult unsigned_ucast_eq)
  finally have "unat (push_bit 8 (ucast p) OR ucast q :: u32) = unat (of_nat (256 * unat p + unat q) :: u32)"
    by (rule arg_cong)
  also have "\<dots> = 256 * unat p + unat q"
    unfolding unat_of_nat using unat_u8_less [of p] unat_u8_less [of q] by simp
  finally show ?thesis .
qed

lemma be16_bytes: "256 * unat (ucast (drop_bit 8 v) :: byte) + unat (ucast v :: byte) = unat (v :: u16)"
  by (simp flip: unat_be16 add: be16_split)

end
