(* ===== verification/Net_Checksum.thy ===== *)
theory Net_Checksum
  imports Net_Bytes
begin

unbundle bit_operations_syntax

section \<open>The Internet checksum (tcp/network/checksum.go)\<close>

text \<open>
  \<open>Checksum\<close> is the code: a 32-bit sum of the 16-bit words (\<open>sumWords\<close>, an odd last byte
  padded below), the end-around-carry loop (\<open>foldCarry\<close>) and the complement. \<open>wsum\<close> is the
  reference: the same sum over the natural numbers. For buffers of at most 131072 bytes the
  32-bit sum does not overflow (a TCP segment with its pseudo header has at most 65547), and
  the checksum is characterised modulo 65535.
\<close>

fun sumWords :: "u32 \<Rightarrow> byte list \<Rightarrow> u32" where
  "sumWords s [] = s"
| "sumWords s [a] = s + push_bit 8 (ucast a)"
| "sumWords s (a # b # r) = sumWords (s + (push_bit 8 (ucast a) OR ucast b)) r"

lemma drop_bit_16_unat: "unat (drop_bit 16 (s :: u32)) = unat s div 65536"
  by (simp add: unat_drop_bit_eq drop_bit_eq_div unat_div_distrib)

lemma and_ffff_unat: "unat (s AND 0xFFFF :: u32) = unat s mod 65536"
proof -
  have "s AND 0xFFFF = take_bit 16 s"
    by (simp add: take_bit_eq_mask mask_eq_exp_minus_1)
  then show ?thesis
    by (simp add: take_bit_eq_mod unat_mod_distrib)
qed

lemma foldCarry_step_unat:
  "unat ((s AND 0xFFFF) + drop_bit 16 s :: u32) = unat s mod 65536 + unat s div 65536"
proof -
  have "unat s div 65536 < 65536"
    using unat_u32_less [of s] by (simp add: div_less_iff_less_mult)
  moreover have "unat s mod 65536 < 65536"
    by simp
  ultimately show ?thesis
    unfolding unat_u32_add drop_bit_16_unat and_ffff_unat by (intro mod_less) linarith
qed

lemma foldCarry_decreases:
  assumes "drop_bit 16 s \<noteq> (0 :: u32)"
  shows "unat ((s AND 0xFFFF) + drop_bit 16 s) < unat s"
proof -
  from assms have "0 < unat s div 65536"
    by (metis drop_bit_16_unat unat_gt_0)
  then show ?thesis
    unfolding foldCarry_step_unat
    using div_mult_mod_eq [of "unat s" 65536] by linarith
qed

function foldCarry :: "u32 \<Rightarrow> u32" where
  "foldCarry s = (if drop_bit 16 s \<noteq> 0 then foldCarry ((s AND 0xFFFF) + drop_bit 16 s) else s)"
  by pat_completeness auto
termination
  by (relation "measure unat") (auto intro: foldCarry_decreases)

declare foldCarry.simps [simp del]

definition Checksum :: "byte list \<Rightarrow> u16" where
  "Checksum data = NOT (ucast (foldCarry (sumWords 0 data)))"

definition pseudoHeader :: "ip4 \<Rightarrow> ip4 \<Rightarrow> nat \<Rightarrow> byte list" where
  "pseudoHeader srcIP dstIP n =
     ip4_list srcIP @ ip4_list dstIP @ [0, 6] @
     [ucast (drop_bit 8 (of_nat n :: u16)), ucast (of_nat n :: u16)]"

definition TCPChecksum :: "ip4 \<Rightarrow> ip4 \<Rightarrow> byte list \<Rightarrow> u16" where
  "TCPChecksum srcIP dstIP tcpSegment =
     Checksum (pseudoHeader srcIP dstIP (length tcpSegment) @ tcpSegment)"

subsection \<open>The reference sum\<close>

fun wsum :: "byte list \<Rightarrow> nat" where
  "wsum [] = 0"
| "wsum [a] = 256 * unat a"
| "wsum (a # b # r) = 256 * unat a + unat b + wsum r"

lemma wsum_bound: "wsum data \<le> 65535 * ((length data + 1) div 2)"
proof (induction data rule: wsum.induct)
  case (2 a)
  then show ?case using unat_u8_less [of a] by simp
next
  case (3 a b r)
  then show ?case using unat_u8_less [of a] unat_u8_less [of b] by simp
qed simp

lemma unat_push8: "unat (push_bit 8 (ucast (a :: byte)) :: u32) = 256 * unat a"
  using unat_be16_32 [of a 0] by simp

lemma unat_sumWords:
  "unat s + wsum data < 4294967296 \<Longrightarrow> unat (sumWords s data) = unat s + wsum data"
proof (induction s data rule: sumWords.induct)
  case (2 s a)
  then show ?case by (simp add: unat_u32_add unat_push8)
next
  case (3 s a b r)
  from "3.prems" have "unat (s + (push_bit 8 (ucast a) OR ucast b)) = unat s + (256 * unat a + unat b)"
    unfolding unat_u32_add unat_be16_32 by (intro mod_less) simp
  with 3 show ?case by simp
qed simp

lemma foldCarry_bound: "unat (foldCarry s) < 65536"
proof (induction s rule: foldCarry.induct)
  case (1 s)
  show ?case
  proof (cases "drop_bit 16 s = 0")
    case True
    then have "unat s div 65536 = 0" by (metis drop_bit_16_unat unat_0)
    with True show ?thesis by (simp add: foldCarry.simps div_eq_0_iff)
  next
    case False
    with 1 show ?thesis by (simp add: foldCarry.simps [of s])
  qed
qed

lemma foldCarry_mod: "unat (foldCarry s) mod 65535 = unat s mod 65535"
proof (induction s rule: foldCarry.induct)
  case (1 s)
  show ?case
  proof (cases "drop_bit 16 s = 0")
    case True
    then show ?thesis by (simp add: foldCarry.simps)
  next
    case False
    have "unat s = 65535 * (unat s div 65536) + (unat s mod 65536 + unat s div 65536)"
      using div_mult_mod_eq [of "unat s" 65536] by linarith
    then have "unat s mod 65535 = (unat s mod 65536 + unat s div 65536) mod 65535"
      by (metis mod_mult_self4)
    with 1 False show ?thesis
      by (simp add: foldCarry.simps [of s] foldCarry_step_unat)
  qed
qed

lemma foldCarry_0_iff: "foldCarry s = 0 \<longleftrightarrow> s = 0"
proof (induction s rule: foldCarry.induct)
  case (1 s)
  show ?case
  proof (cases "drop_bit 16 s = 0")
    case True
    then show ?thesis by (simp add: foldCarry.simps)
  next
    case False
    have "unat s mod 65536 + unat s div 65536 \<noteq> 0"
      using False by (metis add_is_0 drop_bit_16_unat unat_eq_0)
    then have "(s AND 0xFFFF) + drop_bit 16 s \<noteq> 0"
      by (metis foldCarry_step_unat unat_0)
    moreover have "s \<noteq> 0" using False by auto
    ultimately show ?thesis using 1 False by (simp add: foldCarry.simps [of s])
  qed
qed

lemma unat_not_u16: "unat (NOT x :: u16) = 65535 - unat x"
proof -
  have "NOT x = - 1 - x" by (simp add: not_eq_complement)
  moreover have "unat (- 1 - x) = unat (- 1 :: u16) - unat x"
    by (rule unat_sub) simp
  moreover have "unat (- 1 :: u16) = 65535"
    by (simp add: unsigned_minus_1_eq_mask mask_eq_exp_minus_1)
  ultimately show ?thesis by simp
qed

text \<open>The folded sum \<open>f\<close> of a buffer, and the checksum as its complement.\<close>

definition csum :: "byte list \<Rightarrow> nat" where
  "csum data = unat (foldCarry (sumWords 0 data))"

lemma unat_Checksum: "unat (Checksum data) = 65535 - csum data"
proof -
  have "unat (ucast (foldCarry (sumWords 0 data)) :: u16) = csum data"
    using foldCarry_bound [of "sumWords 0 data"]
    by (simp add: unsigned_ucast_eq csum_def take_bit_nat_eq_self)
  then show ?thesis by (simp add: Checksum_def unat_not_u16)
qed

lemma wsum_small: "length data \<le> 131072 \<Longrightarrow> wsum data < 4294967296"
proof -
  assume "length data \<le> 131072"
  then have "(length data + 1) div 2 \<le> 65536" by simp
  then have "65535 * ((length data + 1) div 2) \<le> 65535 * 65536"
    by (rule mult_le_mono2)
  then show ?thesis using wsum_bound [of data] by linarith
qed

lemma csum_facts:
  assumes "length data \<le> 131072"
  shows "csum data \<le> 65535" "csum data mod 65535 = wsum data mod 65535"
    "csum data = 0 \<longleftrightarrow> wsum data = 0"
proof -
  have u: "unat (sumWords 0 data) = wsum data"
    using unat_sumWords [of 0 data] wsum_small [OF assms] by simp
  show "csum data \<le> 65535"
    using foldCarry_bound [of "sumWords 0 data"] by (simp add: csum_def)
  show "csum data mod 65535 = wsum data mod 65535"
    by (simp add: csum_def foldCarry_mod u)
  show "csum data = 0 \<longleftrightarrow> wsum data = 0"
    by (metis csum_def foldCarry_0_iff u unat_eq_0)
qed

lemma Checksum_0_iff:
  assumes "length data \<le> 131072"
  shows "Checksum data = 0 \<longleftrightarrow> 0 < wsum data \<and> wsum data mod 65535 = 0"
proof -
  note f = csum_facts [OF assms]
  have "Checksum data = 0 \<longleftrightarrow> csum data = 65535"
    using unat_Checksum [of data] f(1)
    by (metis diff_diff_cancel diff_is_0_eq' unat_eq_0 order_refl)
  also have "\<dots> \<longleftrightarrow> 0 < wsum data \<and> wsum data mod 65535 = 0"
  proof
    assume "csum data = 65535"
    then show "0 < wsum data \<and> wsum data mod 65535 = 0" using f by auto
  next
    assume "0 < wsum data \<and> wsum data mod 65535 = 0"
    then have "csum data mod 65535 = 0" "csum data \<noteq> 0" using f by auto
    then show "csum data = 65535" using f(1)
      by (metis le_neq_implies_less mod_less)
  qed
  finally show ?thesis .
qed

subsection \<open>Replacing one aligned word\<close>

lemma wsum_append: "even (length xs) \<Longrightarrow> wsum (xs @ ys) = wsum xs + wsum ys"
  by (induction xs rule: wsum.induct) auto

definition wordAt :: "byte list \<Rightarrow> nat \<Rightarrow> nat" where
  "wordAt b k = 256 * unat (b ! k) + unat (b ! (k + 1))"

lemma wsum_split:
  assumes "even k" "k + 1 < length b"
  shows "wsum b = wsum (take k b) + wordAt b k + wsum (drop (k + 2) b)"
proof -
  have "b = take k b @ (b ! k # b ! (k + 1) # drop (k + 2) b)"
    using assms(2) by (simp add: Cons_nth_drop_Suc)
  then have "wsum b = wsum (take k b @ (b ! k # b ! (k + 1) # drop (k + 2) b))"
    by simp
  also have "\<dots> = wsum (take k b) + wsum (b ! k # b ! (k + 1) # drop (k + 2) b)"
    using assms by (intro wsum_append) simp
  finally show ?thesis by (simp add: wordAt_def)
qed

lemma wordAt_PutBe16: "k + 1 < length b \<Longrightarrow> wordAt (PutBe16 b k v) k = unat v"
  by (simp add: wordAt_def PutBe16_def be16_bytes)

lemma wsum_PutBe16:
  assumes "even k" "k + 1 < length b"
  shows "wsum (PutBe16 b k v) + wordAt b k = wsum b + unat v"
proof -
  have "take k (PutBe16 b k v) = take k b" "drop (k + 2) (PutBe16 b k v) = drop (k + 2) b"
    by (simp_all add: PutBe16_def)
  then show ?thesis
    using assms wsum_split [of k "PutBe16 b k v"] wsum_split [of k b] wordAt_PutBe16 [of k b v]
    by simp
qed

text \<open>Filling a zeroed checksum field makes the whole buffer verify.\<close>

lemma Checksum_filled:
  assumes "even k" "k + 1 < length b" "length b \<le> 131072" "wordAt b k = 0"
  shows "Checksum (PutBe16 b k (Checksum b)) = 0"
proof -
  note f = csum_facts [OF assms(3)]
  let ?b = "PutBe16 b k (Checksum b)"
  have w: "wsum ?b = wsum b + (65535 - csum b)"
    using wsum_PutBe16 [OF assms(1,2), of "Checksum b"] assms(4) by (simp add: unat_Checksum)
  have "0 < wsum ?b"
    using w f(1,3) by (cases "csum b = 65535") auto
  moreover have "wsum ?b mod 65535 = 0"
  proof -
    have "wsum ?b mod 65535 = (csum b mod 65535 + (65535 - csum b)) mod 65535"
      unfolding w f(2) by (simp add: mod_add_left_eq)
    also have "\<dots> = (csum b + (65535 - csum b)) mod 65535"
      by (simp add: mod_add_left_eq)
    finally show ?thesis using f(1) by simp
  qed
  ultimately show ?thesis using assms(3) by (simp add: Checksum_0_iff)
qed

text \<open>
  A verifying buffer with one aligned word replaced verifies again only when the two words
  are equal modulo 65535, that is equal or the two zeros of ones' complement.
\<close>

lemma Checksum_detects:
  assumes "even k" "k + 1 < length b" "length b \<le> 131072"
    and "Checksum b = 0" "Checksum (PutBe16 b k v) = 0"
  shows "unat v = wordAt b k \<or> {unat v, wordAt b k} = {0, 65535}"
proof -
  let ?m = "65535 :: int"
  have "wsum b mod 65535 = 0" "wsum (PutBe16 b k v) mod 65535 = 0"
    using assms by (simp_all add: Checksum_0_iff)
  then have "?m dvd int (wsum b)" "?m dvd int (wsum (PutBe16 b k v))"
    by (metis int_dvd_int_iff mod_0_imp_dvd of_nat_numeral)+
  moreover have "int (unat v) - int (wordAt b k) = int (wsum (PutBe16 b k v)) - int (wsum b)"
    using wsum_PutBe16 [OF assms(1,2), of v] by linarith
  ultimately have d: "?m dvd int (unat v) - int (wordAt b k)"
    by simp
  from d obtain t where t: "int (unat v) - int (wordAt b k) = ?m * t"
    by (auto simp: dvd_def)
  have le: "wordAt b k \<le> 65535"
    using unat_u8_less [of "b ! k"] unat_u8_less [of "b ! (k + 1)"] by (simp add: wordAt_def)
  have lv: "unat v \<le> 65535" using unat_u16_less [of v] by simp
  have "t = - 1 \<or> t = 0 \<or> t = 1" using t le lv by linarith
  then have "unat v = wordAt b k \<or> unat v = 0 \<and> wordAt b k = 65535 \<or>
      unat v = 65535 \<and> wordAt b k = 0"
    using t le lv by (elim disjE) linarith+
  then show ?thesis by auto
qed

lemma length_pseudoHeader [simp, codec]: "length (pseudoHeader s d n) = 12"
  by (simp add: pseudoHeader_def)

text \<open>The same for the TCP checksum over the pseudo header.\<close>

lemma TCPChecksum_filled:
  assumes "even k" "k + 1 < length seg" "length seg \<le> 65535" "wordAt seg k = 0"
  shows "TCPChecksum s d (PutBe16 seg k (TCPChecksum s d seg)) = 0"
proof -
  let ?p = "pseudoHeader s d (length seg)"
  have eq: "PutBe16 (?p @ seg) (12 + k) v = ?p @ PutBe16 seg k v" for v
    by (simp add: PutBe16_def list_update_append)
  have w: "wordAt (?p @ seg) (12 + k) = 0"
    using assms(4) by (simp add: wordAt_def nth_append)
  have "Checksum (PutBe16 (?p @ seg) (12 + k) (Checksum (?p @ seg))) = 0"
    using assms w by (intro Checksum_filled) auto
  then show ?thesis by (simp add: TCPChecksum_def eq)
qed

section \<open>Properties\<close>

text \<open>
  A segment whose checksum field was filled with \<open>TCPChecksum\<close> verifies: the
  receiver's sum over the pseudo header and the segment is zero.
\<close>

theorem filled_checksum_verifies:
  assumes "17 < length seg" "length seg \<le> 65535" "seg ! 16 = 0" "seg ! 17 = 0"
  shows "TCPChecksum s d (PutBe16 seg 16 (TCPChecksum s d seg)) = 0"
  using assms by (intro TCPChecksum_filled) (simp_all add: wordAt_def)

theorem filled_checksum_verifies_witness:
  "TCPChecksum (1, 2, 3, 4) (5, 6, 7, 8)
     (PutBe16 (replicate 20 0) 16 (TCPChecksum (1, 2, 3, 4) (5, 6, 7, 8) (replicate 20 0))) = 0"
  by (rule filled_checksum_verifies) simp_all

text \<open>
  A corrupted word is detected. If data verifies, overwriting one aligned 16-bit word with a
  different value makes the checksum nonzero, except for the one ambiguity of the ones'
  complement sum, an exchange of 0 and 0xFFFF.
\<close>

theorem corrupted_word_detected:
  assumes "even k" "k + 1 < length b" "length b \<le> 131072" "Checksum b = 0"
    and "unat v \<noteq> 256 * unat (b ! k) + unat (b ! (k + 1))"
    and "{unat v, 256 * unat (b ! k) + unat (b ! (k + 1))} \<noteq> {0, 65535}"
  shows "Checksum (PutBe16 b k v) \<noteq> 0"
  using Checksum_detects [OF assms(1-4), of v] assms(5,6) by (auto simp: wordAt_def)

theorem corrupted_word_detected_witness:
  "Checksum (PutBe16 [0xFF, 0xFF, 0, 0] 0 7) \<noteq> 0"
  by (rule corrupted_word_detected)
    (simp_all add: Checksum_def foldCarry.simps doubleton_eq_iff)

end
