(* ===== verification/Net_Ipv4.thy ===== *)
theory Net_Ipv4
  imports Net_Checksum
begin

unbundle bit_operations_syntax

section \<open>IPv4 headers (tcp/network/ipv4.go)\<close>

text \<open>
  \<open>MarshalIPv4\<close> and \<open>ParseIPv4Header\<close> translate the two functions of the file. The parser
  answers \<open>Some (Inl e)\<close> for the Go error \<open>e\<close>, \<open>Some (Inr h)\<close> for a header, and \<open>None\<close>
  when an index would panic; \<open>ParseIPv4Header_no_panic\<close> shows the last never happens.
\<close>

record IPv4Header =
  Version :: u8
  IHL :: u8
  TotalLength :: u16
  ID :: u16
  TTL :: u8
  Protocol :: u8
  SrcAddr :: ip4
  DstAddr :: ip4

datatype ipv4Error = errIPv4Short | errIPv4IHL | errIPv4Checksum

definition MarshalIPv4 :: "IPv4Header \<Rightarrow> byte list" where
  "MarshalIPv4 h =
     (let b = replicate 20 0;
          b = b[0 := push_bit 4 4 OR 5];
          b = PutBe16 b 2 (TotalLength h);
          b = PutBe16 b 4 (ID h);
          b = b[8 := TTL h];
          b = b[9 := Protocol h];
          b = copyInto b 12 (ip4_list (SrcAddr h));
          b = copyInto b 16 (ip4_list (DstAddr h))
      in PutBe16 b 10 (Checksum b))"

definition ParseIPv4Header :: "byte list \<Rightarrow> (ipv4Error + IPv4Header) option" where
  "ParseIPv4Header b =
     (if length b < 20 then Some (Inl errIPv4Short)
      else do {
        b0 \<leftarrow> goIdx b 0;
        let ihl = b0 AND 0x0F;
        if ihl < 5 then Some (Inl errIPv4IHL)
        else do {
          let hdrLen = unat ihl * 4;
          if length b < hdrLen then Some (Inl errIPv4Short)
          else do {
            hdr \<leftarrow> goSlice b 0 hdrLen;
            if Checksum hdr \<noteq> 0 then Some (Inl errIPv4Checksum)
            else do {
              total \<leftarrow> Be16 b 2;
              ident \<leftarrow> Be16 b 4;
              ttl \<leftarrow> goIdx b 8;
              proto \<leftarrow> goIdx b 9;
              src \<leftarrow> ip4_at b 12;
              dst \<leftarrow> ip4_at b 16;
              Some (Inr \<lparr>Version = drop_bit 4 b0, IHL = ihl, TotalLength = total, ID = ident,
                TTL = ttl, Protocol = proto, SrcAddr = src, DstAddr = dst\<rparr>)
            } } } })"

text \<open>
  \<open>TCPSegment\<close>: the inner \<open>None\<close> is the result \<open>ok = false\<close>, the outer one a panic.
\<close>

definition TCPSegment :: "IPv4Header \<Rightarrow> byte list \<Rightarrow> byte list option option" where
  "TCPSegment h pkt =
     (let hdrLen = unat (IHL h) * 4; total = unat (TotalLength h) in
      if total < hdrLen \<or> total > length pkt then Some None
      else map_option Some (goSlice pkt hdrLen total))"

subsection \<open>Marshal\<close>

definition ipv4Bytes :: "IPv4Header \<Rightarrow> u16 \<Rightarrow> byte list" where
  "ipv4Bytes h ck =
     [0x45, 0, ucast (drop_bit 8 (TotalLength h)), ucast (TotalLength h),
      ucast (drop_bit 8 (ID h)), ucast (ID h), 0, 0, TTL h, Protocol h,
      ucast (drop_bit 8 ck), ucast ck] @ ip4_list (SrcAddr h) @ ip4_list (DstAddr h)"

lemma length_ipv4Bytes [simp, codec]: "length (ipv4Bytes h ck) = 20"
  by (simp add: ipv4Bytes_def)

lemma ipv4Bytes_put: "PutBe16 (ipv4Bytes h ck) 10 ck' = ipv4Bytes h ck'"
  by (simp add: ipv4Bytes_def PutBe16_def numeral_eq_Suc)

lemma MarshalIPv4_bytes: "MarshalIPv4 h = ipv4Bytes h (Checksum (ipv4Bytes h 0))"
proof -
  obtain p q r s where src: "SrcAddr h = (p, q, r, s)" by (cases "SrcAddr h") auto
  obtain p' q' r' s' where dst: "DstAddr h = (p', q', r', s')" by (cases "DstAddr h") auto
  have "MarshalIPv4 h = PutBe16 (ipv4Bytes h 0) 10 (Checksum (ipv4Bytes h 0))"
    by (simp add: MarshalIPv4_def ipv4Bytes_def PutBe16_def copyInto_def Let_def
        src dst ip4_list_def numeral_eq_Suc)
  then show ?thesis by (simp add: ipv4Bytes_put)
qed

lemma length_MarshalIPv4 [simp, codec]: "length (MarshalIPv4 h) = 20"
  by (simp add: MarshalIPv4_bytes)

lemma Checksum_MarshalIPv4: "Checksum (MarshalIPv4 h) = 0"
proof -
  have "wordAt (ipv4Bytes h 0) 10 = 0"
    by (simp add: ipv4Bytes_def wordAt_def)
  then have "Checksum (PutBe16 (ipv4Bytes h 0) 10 (Checksum (ipv4Bytes h 0))) = 0"
    by (intro Checksum_filled) simp_all
  then show ?thesis by (simp add: MarshalIPv4_bytes ipv4Bytes_put)
qed

lemma ipv4Bytes_reads:
  "ipv4Bytes h ck ! 0 = 0x45" "ipv4Bytes h ck ! 8 = TTL h" "ipv4Bytes h ck ! 9 = Protocol h"
  "Be16 (ipv4Bytes h ck @ rest) 2 = Some (TotalLength h)"
  "Be16 (ipv4Bytes h ck @ rest) 4 = Some (ID h)"
  "ip4_at (ipv4Bytes h ck @ rest) 12 = Some (SrcAddr h)"
  "ip4_at (ipv4Bytes h ck @ rest) 16 = Some (DstAddr h)"
  by (simp_all add: ipv4Bytes_def Be16_in ip4_at_in be16_split ip4_list_def nth_append
      split: prod.splits)

subsection \<open>Parse\<close>

lemma ParseIPv4Header_Marshal:
  "ParseIPv4Header (MarshalIPv4 h @ rest) = Some (Inr (h\<lparr>Version := 4, IHL := 5\<rparr>))"
proof -
  let ?b = "MarshalIPv4 h"
  have b0: "(?b @ rest) ! 0 = 0x45"
    by (simp add: MarshalIPv4_bytes nth_append ipv4Bytes_reads)
  have "goSlice (?b @ rest) 0 20 = Some ?b" by simp
  moreover have "goIdx (?b @ rest) 8 = Some (TTL h)" "goIdx (?b @ rest) 9 = Some (Protocol h)"
    by (simp_all add: nth_append MarshalIPv4_bytes ipv4Bytes_reads)
  moreover have "goIdx (?b @ rest) 0 = Some 0x45"
    using b0 by simp
  ultimately show ?thesis
    by (simp add: ParseIPv4Header_def Checksum_MarshalIPv4 MarshalIPv4_bytes [of h, symmetric]
        ipv4Bytes_reads [of h "Checksum (ipv4Bytes h 0)", folded MarshalIPv4_bytes])
qed

lemma ihl_range: "unat (x AND 0x0F :: byte) < 16"
proof -
  have "x AND 0x0F = take_bit 4 x" by (simp add: take_bit_eq_mask mask_eq_exp_minus_1)
  then show ?thesis by (simp add: take_bit_eq_mod unat_mod_distrib)
qed

text \<open>What a successful parse has checked, and that no input makes the parser panic.\<close>

lemma ParseIPv4Header_Inr:
  assumes "ParseIPv4Header b = Some (Inr h)"
  shows "5 \<le> unat (IHL h)" "unat (IHL h) < 16" "unat (IHL h) * 4 \<le> length b"
    "Checksum (take (unat (IHL h) * 4) b) = 0"
  using assms
  by (auto simp: ihl_range ParseIPv4Header_def Let_def word_less_nat_alt split: if_splits bind_splits)

lemma ParseIPv4Header_no_panic: "ParseIPv4Header b \<noteq> None"
proof (cases "length b < 20")
  case True
  then show ?thesis by (simp add: ParseIPv4Header_def)
next
  case False
  then have "goIdx b 0 = Some (b ! 0)" by (intro goIdx_in) linarith
  with False show ?thesis by (simp add: ParseIPv4Header_def Let_def Be16_in ip4_at_in)
qed

lemma TCPSegment_no_panic: "TCPSegment h pkt \<noteq> None"
  by (simp add: TCPSegment_def Let_def)

lemma TCPSegment_Some:
  "TCPSegment h pkt = Some (Some seg) \<Longrightarrow>
     length seg = unat (TotalLength h) - unat (IHL h) * 4 \<and>
     seg = take (unat (TotalLength h) - unat (IHL h) * 4) (drop (unat (IHL h) * 4) pkt)"
  by (auto simp: TCPSegment_def Let_def split: if_splits)

lemma TCPSegment_Marshal:
  assumes "unat (TotalLength h) = 20 + length seg" "IHL h = 5"
  shows "TCPSegment h (MarshalIPv4 h' @ seg @ pad) = Some (Some seg)"
  using assms by (simp add: TCPSegment_def)

section \<open>Properties\<close>

text \<open>
  An IPv4 header is read back as it was written, whatever bytes follow it; version and
  header length are those of a header without options.
\<close>

theorem ipv4_roundtrip:
  "ParseIPv4Header (MarshalIPv4 h @ rest) = Some (Inr (h\<lparr>Version := 4, IHL := 5\<rparr>))"
  by (rule ParseIPv4Header_Marshal)

end
