(* ===== verification/Link_Socket.thy ===== *)
theory Link_Socket
  imports Vibe_Prelude
begin

section \<open>Sockets as the links see them\<close>

text \<open>
  What the links rely on of the kernel. An address is an IPv4 address with a port; a receive call
  answers a datagram with its source (\<open>None\<close> when the socket address is not an IPv4 one) or
  an error. The kernel is outside: what a call answers is an argument of the operations, and what
  the receive calls of a loop answer is a list, one entry for each iteration. A loop that has used
  up the list is still blocked and yields \<open>None\<close>. \<^theory_text>\<open>Close\<close> runs
  concurrently, so an entry also tells what the loop reads of \<^theory_text>\<open>closed\<close>. The
  number \<open>fds\<close> counts the open descriptors.
\<close>

type_synonym addr = "ip4 \<times> nat"

datatype sockError = EINTR | EBADF | EINVAL | EAGAIN | ENOENT | ECONNREFUSED | Errno nat

datatype recvResult = Datagram "byte list" "addr option" | RecvError sockError

text \<open>
  \<^theory_text>\<open>Socket\<close> and then \<^theory_text>\<open>Bind\<close>, which closes the socket when it
  fails; the arguments are their errors.
\<close>

definition openBound :: "sockError option \<Rightarrow> sockError option \<Rightarrow> 'l \<Rightarrow> nat \<Rightarrow> (sockError + 'l) \<times> nat" where
  "openBound sockErr bindErr l fds =
     (case sockErr of
        Some e \<Rightarrow> (Inl e, fds)
      | None \<Rightarrow>
          (let fds = fds + 1 in
           case bindErr of
             Some e \<Rightarrow> (Inl e, fds - 1)
           | None \<Rightarrow> (Inr l, fds)))"

datatype portError = PortErr sockError | NotIPv4

text \<open>\<open>name\<close> is the answer of \<^theory_text>\<open>Getsockname\<close>.\<close>

definition LocalPort :: "sockError + addr option \<Rightarrow> portError + nat" where
  "LocalPort name =
     (case name of
        Inl e \<Rightarrow> Inl (PortErr e)
      | Inr None \<Rightarrow> Inl NotIPv4
      | Inr (Some a) \<Rightarrow> Inr (snd a))"

text \<open>A constructor leaves a descriptor open exactly when it succeeds.\<close>

lemma openBound_fds:
  "openBound s b l fds = (r, fds') \<Longrightarrow> fds' = fds + (if isl r then 0 else 1) \<and> (\<not> isl r \<longrightarrow> r = Inr l)"
  by (auto simp: openBound_def Let_def split: option.splits)

end
