(* ===== verification/Link_Arp.thy ===== *)
theory Link_Arp
  imports Net_Ipv4 Link_Socket
begin

unbundle bit_operations_syntax

section \<open>ARP and Ethernet framing (arp.go, afpacket\_linux.go)\<close>

text \<open>
  The ARP codec, the resolution cache, and the part of the AF\_PACKET link that does not touch
  the socket: building and classifying Ethernet frames, and the decision of
  \<^theory_text>\<open>WritePacket\<close> to send or to ask. The frames that go to the socket are returned as a
  list with their destination; what \<^theory_text>\<open>sendto\<close> answers is the parameter \<open>os\<close>. A slice
  expression on untrusted bytes that could panic yields \<open>None\<close>.
\<close>

type_synonym mac = "byte \<times> byte \<times> byte \<times> byte \<times> byte \<times> byte"

definition ethTypeARP :: u16 where "ethTypeARP = 0x0806"
definition ethTypeIPv4 :: u16 where "ethTypeIPv4 = 0x0800"
definition arpHWTypeEthernet :: u16 where "arpHWTypeEthernet = 1"
definition arpPacketSize :: nat where "arpPacketSize = 28"
definition arpOpRequest :: u16 where "arpOpRequest = 1"
definition arpOpReply :: u16 where "arpOpReply = 2"
definition ethHeaderSize :: nat where "ethHeaderSize = 14"
definition broadcastMAC :: mac where "broadcastMAC = (0xff, 0xff, 0xff, 0xff, 0xff, 0xff)"

lemmas arp_consts = ethTypeARP_def ethTypeIPv4_def arpHWTypeEthernet_def arpPacketSize_def
  arpOpRequest_def arpOpReply_def ethHeaderSize_def

record ARPPacket =
  Op :: u16
  SenderMAC :: mac
  SenderIP :: ip4
  TargetMAC :: mac
  TargetIP :: ip4

datatype arpError = errARPShort | errARPHWType | errARPPType | errARPAddrLen

definition mac_list :: "mac \<Rightarrow> byte list" where
  "mac_list m = (case m of (p, q, r, s, t, u) \<Rightarrow> [p, q, r, s, t, u])"

definition mac_at :: "byte list \<Rightarrow> nat \<Rightarrow> mac option" where
  "mac_at b off = do {
     p \<leftarrow> goIdx b off; q \<leftarrow> goIdx b (off + 1); r \<leftarrow> goIdx b (off + 2);
     s \<leftarrow> goIdx b (off + 3); t \<leftarrow> goIdx b (off + 4); u \<leftarrow> goIdx b (off + 5);
     Some (p, q, r, s, t, u) }"

definition MarshalARP :: "ARPPacket \<Rightarrow> byte list" where
  "MarshalARP a =
     (let b = replicate arpPacketSize 0;
          b = PutBe16 b 0 arpHWTypeEthernet;
          b = PutBe16 b 2 ethTypeIPv4;
          b = b[4 := 6];
          b = b[5 := 4];
          b = PutBe16 b 6 (Op a);
          b = copyInto b 8 (mac_list (SenderMAC a));
          b = copyInto b 14 (ip4_list (SenderIP a));
          b = copyInto b 18 (mac_list (TargetMAC a));
          b = copyInto b 24 (ip4_list (TargetIP a))
      in b)"

definition ParseARP :: "byte list \<Rightarrow> (arpError + ARPPacket) option" where
  "ParseARP b =
     (if length b < arpPacketSize then Some (Inl errARPShort)
      else do {
        hw \<leftarrow> Be16 b 0;
        if hw \<noteq> arpHWTypeEthernet then Some (Inl errARPHWType)
        else do {
          pt \<leftarrow> Be16 b 2;
          if pt \<noteq> ethTypeIPv4 then Some (Inl errARPPType)
          else do {
            hl \<leftarrow> goIdx b 4;
            pl \<leftarrow> goIdx b 5;
            if hl \<noteq> 6 \<or> pl \<noteq> 4 then Some (Inl errARPAddrLen)
            else do {
              opc \<leftarrow> Be16 b 6;
              sm \<leftarrow> mac_at b 8;
              si \<leftarrow> ip4_at b 14;
              tm \<leftarrow> mac_at b 18;
              ti \<leftarrow> ip4_at b 24;
              Some (Inr \<lparr>Op = opc, SenderMAC = sm, SenderIP = si, TargetMAC = tm, TargetIP = ti\<rparr>)
            } } } })"

definition newARPRequest :: "mac \<Rightarrow> ip4 \<Rightarrow> ip4 \<Rightarrow> ARPPacket" where
  "newARPRequest senderMAC senderIP targetIP =
     \<lparr>Op = arpOpRequest, SenderMAC = senderMAC, SenderIP = senderIP,
      TargetMAC = (0, 0, 0, 0, 0, 0), TargetIP = targetIP\<rparr>"

definition newARPReply :: "mac \<Rightarrow> ip4 \<Rightarrow> ARPPacket \<Rightarrow> ARPPacket" where
  "newARPReply selfM selfI req =
     \<lparr>Op = arpOpReply, SenderMAC = selfM, SenderIP = selfI,
      TargetMAC = SenderMAC req, TargetIP = SenderIP req\<rparr>"

type_synonym arpTable = "ip4 \<rightharpoonup> mac"

definition newARPTable :: arpTable where
  "newARPTable = Map.empty"

definition arpTable_lookup :: "arpTable \<Rightarrow> ip4 \<Rightarrow> mac option" where
  "arpTable_lookup t ip = t ip"

definition arpTable_update :: "arpTable \<Rightarrow> ip4 \<Rightarrow> mac \<Rightarrow> arpTable" where
  "arpTable_update t ip m = t(ip \<mapsto> m)"

subsection \<open>The link\<close>

record afPacketLink =
  selfMAC :: mac
  selfIP :: ip4
  arp :: arpTable
  afclosed :: bool

definition freshAFLink :: "mac \<Rightarrow> ip4 \<Rightarrow> afPacketLink" where
  "freshAFLink m ip = \<lparr>selfMAC = m, selfIP = ip, arp = newARPTable, afclosed = False\<rparr>"

definition NewAFPacketLink ::
  "sockError option \<Rightarrow> sockError option \<Rightarrow> mac \<Rightarrow> ip4 \<Rightarrow> nat \<Rightarrow> (sockError + afPacketLink) \<times> nat" where
  "NewAFPacketLink sockErr bindErr m ip fds = openBound sockErr bindErr (freshAFLink m ip) fds"

definition buildEthFrame :: "mac \<Rightarrow> mac \<Rightarrow> u16 \<Rightarrow> byte list \<Rightarrow> byte list" where
  "buildEthFrame dst src ethType payload =
     (let frame = replicate (ethHeaderSize + length payload) 0;
          frame = copyInto frame 0 (mac_list dst);
          frame = copyInto frame 6 (mac_list src);
          frame = PutBe16 frame 12 ethType
      in copyInto frame ethHeaderSize payload)"

text \<open>
  \<open>handleInboundFrame\<close> answers the IP packet for the stack (\<^theory_text>\<open>nil\<close> is \<open>None\<close>) and
  the frame to send back.
\<close>

definition handleInboundFrame ::
  "afPacketLink \<Rightarrow> byte list \<Rightarrow> (byte list option \<times> byte list option \<times> afPacketLink) option" where
  "handleInboundFrame l frame =
     (if length frame < ethHeaderSize then Some (None, None, l)
      else do {
        ethType \<leftarrow> Be16 frame 12;
        payload \<leftarrow> goSlice frame ethHeaderSize (length frame);
        if ethType = ethTypeIPv4 then Some (Some payload, None, l)
        else if ethType = ethTypeARP then do {
          r \<leftarrow> ParseARP payload;
          case r of
            Inl e \<Rightarrow> Some (None, None, l)
          | Inr a \<Rightarrow>
              if Op a = arpOpReply
              then Some (None, None, l\<lparr>arp := arpTable_update (arp l) (SenderIP a) (SenderMAC a)\<rparr>)
              else if Op a = arpOpRequest \<and> TargetIP a = selfIP l
              then Some (None,
                     Some (buildEthFrame (SenderMAC a) (selfMAC l) ethTypeARP
                             (MarshalARP (newARPReply (selfMAC l) (selfIP l) a))), l)
              else Some (None, None, l) }
        else Some (None, None, l) })"

datatype afError = AfClosed | AfHeader ipv4Error | errARPUnresolved | AfSend sockError | AfRecv sockError

text \<open>
  \<open>afWritePacket\<close> answers the error (\<open>None\<close> is \<^theory_text>\<open>nil\<close>) and the frame handed to the
  socket with its destination; the socket's own answer is \<open>os\<close>.
\<close>

definition afWritePacket ::
  "(byte list \<Rightarrow> mac \<Rightarrow> sockError option) \<Rightarrow> afPacketLink \<Rightarrow> byte list \<Rightarrow>
     (afError option \<times> (byte list \<times> mac) option) option" where
  "afWritePacket os l pkt =
     (if afclosed l then Some (Some AfClosed, None)
      else do {
        r \<leftarrow> ParseIPv4Header pkt;
        case r of
          Inl e \<Rightarrow> Some (Some (AfHeader e), None)
        | Inr h \<Rightarrow>
            (case arpTable_lookup (arp l) (DstAddr h) of
               None \<Rightarrow>
                 (let frame = buildEthFrame broadcastMAC (selfMAC l) ethTypeARP
                        (MarshalARP (newARPRequest (selfMAC l) (selfIP l) (DstAddr h)))
                  in Some (case os frame broadcastMAC of
                         Some e \<Rightarrow> Some (AfSend e) | None \<Rightarrow> Some errARPUnresolved,
                       Some (frame, broadcastMAC)))
             | Some m \<Rightarrow>
                 (let frame = buildEthFrame m (selfMAC l) ethTypeIPv4 pkt
                  in Some (map_option AfSend (os frame m), Some (frame, m)))) })"

text \<open>
  \<open>afReadPacket\<close> loops over what it reads of \<^theory_text>\<open>closed\<close> and what
  \<^theory_text>\<open>recvfrom\<close> answers, one entry for each iteration. It answers the outcome
  (\<open>None\<close> while it still blocks), the ARP replies it sent and the link.
\<close>

fun afReadPacket :: "afPacketLink \<Rightarrow> (bool \<times> (sockError + byte list)) list \<Rightarrow>
    ((afError + byte list) option \<times> (byte list \<times> mac) list \<times> afPacketLink) option" where
  "afReadPacket l [] = Some (None, [], l)"
| "afReadPacket l ((closed, x) # obs) =
     (if closed then Some (Some (Inl AfClosed), [], l)
      else case x of
          Inl e \<Rightarrow>
            if e = EINTR then afReadPacket l obs else Some (Some (Inl (AfRecv e)), [], l)
        | Inr f \<Rightarrow> do {
            (ip, reply, l) \<leftarrow> handleInboundFrame l f;
            sent \<leftarrow> (case reply of
                       None \<Rightarrow> Some []
                     | Some rep \<Rightarrow> do { dst \<leftarrow> mac_at rep 0; Some [(rep, dst)] });
            case ip of
              Some pkt \<Rightarrow> Some (Some (Inr pkt), sent, l)
            | None \<Rightarrow> do {
                (r, sent', l) \<leftarrow> afReadPacket l obs;
                Some (r, sent @ sent', l) } })"

definition afClose :: "afPacketLink \<Rightarrow> nat \<Rightarrow> afPacketLink \<times> nat" where
  "afClose l fds = (if afclosed l then (l, fds) else (l\<lparr>afclosed := True\<rparr>, fds - 1))"

subsection \<open>The codec\<close>

lemma length_mac_list [simp, codec]: "length (mac_list m) = 6"
  by (simp add: mac_list_def split: prod.splits)

definition arpBytes :: "ARPPacket \<Rightarrow> byte list" where
  "arpBytes a = [0, 1, 8, 0, 6, 4, ucast (drop_bit 8 (Op a)), ucast (Op a)] @
     mac_list (SenderMAC a) @ ip4_list (SenderIP a) @ mac_list (TargetMAC a) @ ip4_list (TargetIP a)"

lemma length_arpBytes [simp, codec]: "length (arpBytes a) = 28"
  by (simp add: arpBytes_def)

lemma copyInto_middle:
  "off = length a \<Longrightarrow> length m = length xs \<Longrightarrow> copyInto (a @ m @ c) off xs = a @ xs @ c"
  by (simp add: copyInto_def)

lemma arp_zeros: "replicate arpPacketSize (0 :: byte) =
    [0, 0, 0, 0, 0, 0, 0, 0] @ replicate 6 0 @ replicate 4 0 @ replicate 6 0 @ replicate 4 0"
  by (simp add: arpPacketSize_def eval_nat_numeral)

lemma MarshalARP_bytes: "MarshalARP a = arpBytes a"
proof -
  let ?h = "[0, 1, 8, 0, 6, 4, ucast (drop_bit 8 (Op a)), ucast (Op a)] :: byte list"
  let ?z = "\<lambda>n. replicate n (0 :: byte)"
  have h: "PutBe16 ((PutBe16 (PutBe16 (replicate arpPacketSize 0) 0 arpHWTypeEthernet) 2 ethTypeIPv4)
      [4 := 6, 5 := 4]) 6 (Op a) = ?h @ ?z 6 @ ?z 4 @ ?z 6 @ ?z 4"
    unfolding arp_zeros by (simp add: PutBe16_def arpHWTypeEthernet_def ethTypeIPv4_def)
  have "MarshalARP a = copyInto (copyInto (copyInto (copyInto (?h @ ?z 6 @ ?z 4 @ ?z 6 @ ?z 4) 8
      (mac_list (SenderMAC a))) 14 (ip4_list (SenderIP a))) 18 (mac_list (TargetMAC a))) 24
      (ip4_list (TargetIP a))"
    by (simp only: MarshalARP_def Let_def h [symmetric])
  also have "copyInto (?h @ ?z 6 @ ?z 4 @ ?z 6 @ ?z 4) 8 (mac_list (SenderMAC a)) =
      (?h @ mac_list (SenderMAC a)) @ ?z 4 @ ?z 6 @ ?z 4"
    by (subst copyInto_middle) simp_all
  also have "copyInto \<dots> 14 (ip4_list (SenderIP a)) =
      (?h @ mac_list (SenderMAC a) @ ip4_list (SenderIP a)) @ ?z 6 @ ?z 4"
    by (subst copyInto_middle) simp_all
  also have "copyInto \<dots> 18 (mac_list (TargetMAC a)) =
      (?h @ mac_list (SenderMAC a) @ ip4_list (SenderIP a) @ mac_list (TargetMAC a)) @ ?z 4 @ []"
    by (subst copyInto_middle) simp_all
  also have "copyInto \<dots> 24 (ip4_list (TargetIP a)) = arpBytes a"
    by (subst copyInto_middle) (simp_all add: arpBytes_def)
  finally show ?thesis .
qed

lemma arpBytes_reads:
  "Be16 (arpBytes a @ pad) 0 = Some arpHWTypeEthernet" "Be16 (arpBytes a @ pad) 2 = Some ethTypeIPv4"
  "goIdx (arpBytes a @ pad) 4 = Some 6" "goIdx (arpBytes a @ pad) 5 = Some 4"
  "Be16 (arpBytes a @ pad) 6 = Some (Op a)"
  by (simp_all add: arpBytes_def Be16_in be16_split arpHWTypeEthernet_def ethTypeIPv4_def nth_append)

lemma mac_at_append: "length b = off \<Longrightarrow> mac_at (b @ mac_list m @ c) off = Some m"
  by (cases m) (simp add: mac_at_def mac_list_def nth_append)

lemma ip4_at_append: "length b = off \<Longrightarrow> ip4_at (b @ ip4_list m @ c) off = Some m"
  by (cases m) (simp add: ip4_at_def ip4_list_def nth_append)

lemma arpBytes_addresses:
  "mac_at (arpBytes a @ pad) 8 = Some (SenderMAC a)" "ip4_at (arpBytes a @ pad) 14 = Some (SenderIP a)"
  "mac_at (arpBytes a @ pad) 18 = Some (TargetMAC a)" "ip4_at (arpBytes a @ pad) 24 = Some (TargetIP a)"
proof -
  let ?h = "[0, 1, 8, 0, 6, 4, ucast (drop_bit 8 (Op a)), ucast (Op a)] :: byte list"
  show "mac_at (arpBytes a @ pad) 8 = Some (SenderMAC a)"
    using mac_at_append [of ?h 8 "SenderMAC a" "ip4_list (SenderIP a) @ mac_list (TargetMAC a) @
      ip4_list (TargetIP a) @ pad"] by (simp add: arpBytes_def)
  show "ip4_at (arpBytes a @ pad) 14 = Some (SenderIP a)"
    using ip4_at_append [of "?h @ mac_list (SenderMAC a)" 14 "SenderIP a" "mac_list (TargetMAC a) @
      ip4_list (TargetIP a) @ pad"] by (simp add: arpBytes_def)
  show "mac_at (arpBytes a @ pad) 18 = Some (TargetMAC a)"
    using mac_at_append [of "?h @ mac_list (SenderMAC a) @ ip4_list (SenderIP a)" 18 "TargetMAC a"
      "ip4_list (TargetIP a) @ pad"] by (simp add: arpBytes_def)
  show "ip4_at (arpBytes a @ pad) 24 = Some (TargetIP a)"
    using ip4_at_append [of "?h @ mac_list (SenderMAC a) @ ip4_list (SenderIP a) @
      mac_list (TargetMAC a)" 24 "TargetIP a" pad] by (simp add: arpBytes_def)
qed

lemma ParseARP_Marshal: "ParseARP (MarshalARP a @ pad) = Some (Inr a)"
  unfolding MarshalARP_bytes
  by (simp add: ParseARP_def arpBytes_reads arpBytes_addresses arpPacketSize_def del: goIdx_in)

lemma mac_at_in: "off + 5 < length b \<Longrightarrow> mac_at b off \<noteq> None"
  by (simp add: mac_at_def)

lemma ParseARP_no_panic: "ParseARP b \<noteq> None"
  using mac_at_in [of 8 b] mac_at_in [of 18 b]
  by (auto simp: ParseARP_def arpPacketSize_def Be16_in ip4_at_in)

subsection \<open>Frames\<close>

definition ethBytes :: "mac \<Rightarrow> mac \<Rightarrow> u16 \<Rightarrow> byte list \<Rightarrow> byte list" where
  "ethBytes dst src t payload =
     mac_list dst @ mac_list src @ [ucast (drop_bit 8 t), ucast t] @ payload"

lemma buildEthFrame_bytes: "buildEthFrame dst src t payload = ethBytes dst src t payload"
proof -
  obtain d0 d1 d2 d3 d4 d5 where d: "dst = (d0, d1, d2, d3, d4, d5)" by (metis prod_cases6)
  obtain s0 s1 s2 s3 s4 s5 where s: "src = (s0, s1, s2, s3, s4, s5)" by (metis prod_cases6)
  have r: "replicate (14 + n) x = [x, x, x, x, x, x, x, x, x, x, x, x, x, x] @ replicate n x"
    for n and x :: byte
    by (simp add: eval_nat_numeral)
  show ?thesis
    by (simp add: buildEthFrame_def ethBytes_def ethHeaderSize_def r d s mac_list_def copyInto_def
        PutBe16_def Let_def)
qed

lemma frame_reads:
  "Be16 (buildEthFrame dst src t payload) 12 = Some t"
  "goSlice (buildEthFrame dst src t payload) ethHeaderSize (length (buildEthFrame dst src t payload)) =
     Some payload"
  "\<not> length (buildEthFrame dst src t payload) < ethHeaderSize"
  "mac_at (buildEthFrame dst src t payload) 0 = Some dst"
proof -
  obtain d0 d1 d2 d3 d4 d5 where d: "dst = (d0, d1, d2, d3, d4, d5)" by (metis prod_cases6)
  obtain s0 s1 s2 s3 s4 s5 where s: "src = (s0, s1, s2, s3, s4, s5)" by (metis prod_cases6)
  note b = buildEthFrame_bytes ethBytes_def d s mac_list_def ethHeaderSize_def
  show "Be16 (buildEthFrame dst src t payload) 12 = Some t" by (simp add: b Be16_def be16_split)
  show "goSlice (buildEthFrame dst src t payload) ethHeaderSize (length (buildEthFrame dst src t payload)) =
     Some payload" by (simp add: b)
  show "\<not> length (buildEthFrame dst src t payload) < ethHeaderSize" by (simp add: b)
  show "mac_at (buildEthFrame dst src t payload) 0 = Some dst" by (simp add: b mac_at_def)
qed

lemma inbound_ip:
  "handleInboundFrame l (buildEthFrame dst src ethTypeIPv4 pkt) = Some (Some pkt, None, l)"
  by (simp add: handleInboundFrame_def frame_reads)

lemma inbound_arp:
  "handleInboundFrame l (buildEthFrame dst src ethTypeARP (MarshalARP a)) =
     (if Op a = arpOpReply
      then Some (None, None, l\<lparr>arp := arpTable_update (arp l) (SenderIP a) (SenderMAC a)\<rparr>)
      else if Op a = arpOpRequest \<and> TargetIP a = selfIP l
      then Some (None,
             Some (buildEthFrame (SenderMAC a) (selfMAC l) ethTypeARP
                     (MarshalARP (newARPReply (selfMAC l) (selfIP l) a))), l)
      else Some (None, None, l))"
  using ParseARP_Marshal [of a "[]"]
  by (simp add: handleInboundFrame_def frame_reads ethTypeIPv4_def ethTypeARP_def)

lemma handleInboundFrame_no_panic: "handleInboundFrame l frame \<noteq> None"
proof -
  obtain r where r: "ParseARP (drop 14 frame) = Some r" using ParseARP_no_panic by blast
  show ?thesis
    by (auto simp: handleInboundFrame_def ethHeaderSize_def Be16_in r split: sum.splits)
qed

lemma handleInboundFrame_reply:
  assumes "handleInboundFrame l frame = Some (ip, Some rep, l')"
  shows "\<exists>dst payload. rep = buildEthFrame dst (selfMAC l) ethTypeARP payload"
proof -
  obtain a where "rep = buildEthFrame (SenderMAC a) (selfMAC l) ethTypeARP
      (MarshalARP (newARPReply (selfMAC l) (selfIP l) a))"
    using assms by (auto simp: handleInboundFrame_def split: if_splits Option.bind_splits sum.splits)
  then show ?thesis by blast
qed

text \<open>No sequence of frames, however malformed, makes the receive loop panic.\<close>

lemma afReadPacket_no_panic: "\<exists>r sent l'. afReadPacket l obs = Some (r, sent, l')"
proof (induction obs arbitrary: l)
  case (Cons x obs)
  obtain closed y where x: "x = (closed, y)" by (cases x)
  show ?case
  proof (cases y)
    case (Inl e)
    then show ?thesis using Cons.IH by (simp add: x del: split_paired_Ex)
  next
    case (Inr f)
    obtain ip reply l' where h: "handleInboundFrame l f = Some (ip, reply, l')"
      using handleInboundFrame_no_panic [of l f] by auto
    obtain r sent l'' where ih: "afReadPacket l' obs = Some (r, sent, l'')" using Cons.IH by blast
    show ?thesis
    proof (cases reply)
      case None
      then show ?thesis using ih by (cases ip) (simp_all add: x Inr h)
    next
      case (Some rep)
      from handleInboundFrame_reply [OF h [unfolded Some]] obtain dst payload
        where "rep = buildEthFrame dst (selfMAC l) ethTypeARP payload" by blast
      then have "mac_at rep 0 = Some dst" by (simp add: frame_reads)
      then show ?thesis using ih by (cases ip) (simp_all add: x Inr h Some)
    qed
  qed
qed simp

section \<open>Properties\<close>

text \<open>
  C38: address resolution works end to end. The first packet to an unresolved neighbour is
  dropped with an error and a broadcast ARP request; the neighbour answers that frame;
  taking the answer fills the cache; and sending the packet again hands the socket a frame
  to the neighbour's MAC from which the neighbour's stack gets exactly that packet.
\<close>

theorem arp_resolves_neighbour:
  assumes "ParseIPv4Header pkt = Some (Inr h)" "DstAddr h = selfIP b" "arp a (selfIP b) = None"
    and "\<not> afclosed a"
  shows "\<exists>e req rep a' frame.
    afWritePacket os a pkt = Some (Some e, Some (req, broadcastMAC)) \<and>
    handleInboundFrame b req = Some (None, Some rep, b) \<and>
    handleInboundFrame a rep = Some (None, None, a') \<and>
    afWritePacket os a' pkt = Some (map_option AfSend (os frame (selfMAC b)), Some (frame, selfMAC b)) \<and>
    handleInboundFrame b frame = Some (Some pkt, None, b)"
proof -
  let ?q = "newARPRequest (selfMAC a) (selfIP a) (selfIP b)"
  let ?req = "buildEthFrame broadcastMAC (selfMAC a) ethTypeARP (MarshalARP ?q)"
  let ?r = "newARPReply (selfMAC b) (selfIP b) ?q"
  let ?rep = "buildEthFrame (selfMAC a) (selfMAC b) ethTypeARP (MarshalARP ?r)"
  let ?a = "a\<lparr>arp := arpTable_update (arp a) (selfIP b) (selfMAC b)\<rparr>"
  let ?frame = "buildEthFrame (selfMAC b) (selfMAC a) ethTypeIPv4 pkt"
  obtain e where "afWritePacket os a pkt = Some (Some e, Some (?req, broadcastMAC))"
    using assms
    by (cases "os ?req broadcastMAC") (simp_all add: afWritePacket_def arpTable_lookup_def Let_def)
  moreover have "handleInboundFrame b ?req = Some (None, Some ?rep, b)"
    by (simp add: inbound_arp) (simp add: newARPRequest_def arp_consts)
  moreover have "handleInboundFrame a ?rep = Some (None, None, ?a)"
    by (simp add: inbound_arp) (simp add: newARPReply_def)
  moreover have "afWritePacket os ?a pkt =
      Some (map_option AfSend (os ?frame (selfMAC b)), Some (?frame, selfMAC b))"
    using assms by (simp add: afWritePacket_def arpTable_lookup_def arpTable_update_def Let_def)
  moreover have "handleInboundFrame b ?frame = Some (Some pkt, None, b)" by (rule inbound_ip)
  ultimately show ?thesis by blast
qed

theorem arp_resolves_neighbour_witness:
  "let a = freshAFLink (2, 0, 0, 0, 0, 1) (10, 0, 0, 1); b = freshAFLink (2, 0, 0, 0, 0, 2) (10, 0, 0, 2);
       pkt = MarshalIPv4 \<lparr>Version = 4, IHL = 5, TotalLength = 20, ID = 0, TTL = 64, Protocol = 6,
         SrcAddr = (10, 0, 0, 1), DstAddr = (10, 0, 0, 2)\<rparr>
   in \<exists>e req rep. afWritePacket (\<lambda>_ _. None) a pkt = Some (Some e, Some (req, broadcastMAC)) \<and>
        handleInboundFrame b req = Some (None, Some rep, b)"
proof -
  let ?a = "freshAFLink (2, 0, 0, 0, 0, 1) (10, 0, 0, 1)"
  let ?b = "freshAFLink (2, 0, 0, 0, 0, 2) (10, 0, 0, 2)"
  let ?h = "\<lparr>Version = 4, IHL = 5, TotalLength = 20, ID = 0, TTL = 64, Protocol = 6,
         SrcAddr = (10, 0, 0, 1), DstAddr = (10, 0, 0, 2)\<rparr>"
  have "ParseIPv4Header (MarshalIPv4 ?h) = Some (Inr ?h)" using ParseIPv4Header_Marshal [of ?h "[]"] by simp
  from arp_resolves_neighbour [OF this, of ?b ?a "\<lambda>_ _. None"] show ?thesis
    by (auto simp: freshAFLink_def newARPTable_def Let_def)
qed

end
