(* ===== verification/Link_Tun.thy ===== *)
theory Link_Tun
  imports Link_Socket
begin

unbundle bit_operations_syntax

section \<open>The TUN device (tun\_linux.go)\<close>

text \<open>
  The request that attaches a TUN interface, with the check of the name's length, and the link
  around the file: one read is one packet. What \<^theory_text>\<open>open\<close>,
  \<^theory_text>\<open>ioctl\<close>, \<^theory_text>\<open>read\<close> and \<^theory_text>\<open>write\<close> answer are
  arguments.
\<close>

definition iffTUN :: u16 where "iffTUN = 0x0001"
definition iffNoPI :: u16 where "iffNoPI = 0x1000"
definition ifnamsiz :: nat where "ifnamsiz = 16"

record tunLink =
  tclosed :: bool

datatype tunError = TunClosed | NameTooLong | TunSys sockError

text \<open>The \<^theory_text>\<open>ifreq\<close> structure: the name, the flags in little-endian order, zeros.\<close>

definition tunRequest :: "byte list \<Rightarrow> byte list" where
  "tunRequest ifName =
     (let req = copyInto (replicate (ifnamsiz + 24) 0) 0 ifName;
          flags = iffTUN OR iffNoPI;
          req = req[ifnamsiz := ucast flags]
      in req[ifnamsiz + 1 := ucast (drop_bit 8 flags)])"

definition NewTUNLink :: "sockError option \<Rightarrow> (byte list \<Rightarrow> sockError option) \<Rightarrow> byte list \<Rightarrow> nat \<Rightarrow>
    (tunError + tunLink) \<times> nat" where
  "NewTUNLink openErr ioctl ifName fds =
     (case openErr of
        Some e \<Rightarrow> (Inl (TunSys e), fds)
      | None \<Rightarrow>
          (let fds = fds + 1 in
           if length ifName \<ge> ifnamsiz then (Inl NameTooLong, fds - 1)
           else case ioctl (tunRequest ifName) of
               Some e \<Rightarrow> (Inl (TunSys e), fds - 1)
             | None \<Rightarrow> (Inr \<lparr>tclosed = False\<rparr>, fds)))"

definition tunWritePacket ::
  "(byte list \<Rightarrow> sockError option) \<Rightarrow> tunLink \<Rightarrow> byte list \<Rightarrow> tunError option \<times> byte list option" where
  "tunWritePacket os l pkt =
     (if tclosed l then (Some TunClosed, None) else (map_option TunSys (os pkt), Some pkt))"

definition tunReadPacket :: "tunLink \<Rightarrow> sockError + byte list \<Rightarrow> tunError + byte list" where
  "tunReadPacket l r =
     (if tclosed l then Inl TunClosed
      else case r of Inl e \<Rightarrow> Inl (TunSys e) | Inr b \<Rightarrow> Inr b)"

definition tunClose :: "tunLink \<Rightarrow> nat \<Rightarrow> tunLink \<times> nat" where
  "tunClose l fds = (if tclosed l then (l, fds) else (l\<lparr>tclosed := True\<rparr>, fds - 1))"

subsection \<open>The request\<close>

lemma tunRequest_bytes:
  assumes "length ifName < 16"
  shows "tunRequest ifName = ifName @ replicate (16 - length ifName) 0 @ [1, 0x10] @ replicate 22 0"
proof -
  have "replicate 40 (0 :: byte) =
      replicate (length ifName) 0 @ replicate (16 - length ifName) 0 @ [0, 0] @ replicate 22 0"
    using assms by (simp add: replicate_add [symmetric] replicate_app_Cons_same eval_nat_numeral)
  then have "copyInto (replicate (ifnamsiz + 24) (0 :: byte)) 0 ifName =
      ifName @ replicate (16 - length ifName) 0 @ [0, 0] @ replicate 22 0"
    by (simp add: ifnamsiz_def copyInto_def)
  moreover have "16 < length ifName + (16 - length ifName) + 1" using assms by simp
  ultimately show ?thesis
    using assms by (simp add: tunRequest_def ifnamsiz_def iffTUN_def iffNoPI_def list_update_append Let_def)
qed

text \<open>The kernel reads back the name that was asked for: it ends in a zero byte.\<close>

lemma tunRequest_name:
  assumes "length ifName < 16" "0 \<notin> set ifName"
  shows "takeWhile (\<lambda>x. x \<noteq> 0) (take 16 (tunRequest ifName)) = ifName"
proof -
  have "take 16 (tunRequest ifName) = ifName @ replicate (16 - length ifName) 0"
    using assms(1) by (simp add: tunRequest_bytes)
  moreover have "16 - length ifName = Suc (15 - length ifName)" using assms(1) by simp
  ultimately have "take 16 (tunRequest ifName) = ifName @ 0 # replicate (15 - length ifName) 0"
    by simp
  then show ?thesis using assms(2) by (simp only:) (subst takeWhile_append2, auto)
qed

end
