(* ===== verification/Link_Rendezvous.thy ===== *)
theory Link_Rendezvous
  imports Link_Text Link_Socket
begin

section \<open>Rendezvous server and peer messages (rendezvous.go, holepunch.go)\<close>

text \<open>
  The rendezvous server pairs two clients of one session: the first registration is remembered,
  the second one, from another address, releases both addresses. The state is the map of
  waiting sessions; the datagrams to send are returned, with their destination.
\<close>

definition regPrefix :: "byte list" where "regPrefix = ascii ''REG ''"
definition peerPrefix :: "byte list" where "peerPrefix = ascii ''PEER ''"
definition punchMarker :: "byte list" where "punchMarker = ascii ''PUNCH''"

definition IPStr :: "ip4 \<Rightarrow> byte list" where
  "IPStr a = (case a of (p, q, r, s) \<Rightarrow>
     decimal (unat p) @ [46] @ decimal (unat q) @ [46] @ decimal (unat r) @ [46] @ decimal (unat s))"

definition peerMsg :: "addr \<Rightarrow> byte list" where
  "peerMsg a = peerPrefix @ IPStr (fst a) @ [58] @ decimal (snd a)"

text \<open>What a client sends to register for a session (\<^theory_text>\<open>registerAndWaitPeer\<close>).\<close>

definition regMsg :: "byte list \<Rightarrow> byte list" where
  "regMsg sessionID = regPrefix @ sessionID"

record Rendezvous =
  sessions :: "byte list \<rightharpoonup> addr"
  rclosed :: bool

definition emptyRendezvous :: Rendezvous where
  "emptyRendezvous = \<lparr>sessions = Map.empty, rclosed = False\<rparr>"

definition NewRendezvous ::
  "sockError option \<Rightarrow> sockError option \<Rightarrow> nat \<Rightarrow> (sockError + Rendezvous) \<times> nat" where
  "NewRendezvous sockErr bindErr fds = openBound sockErr bindErr emptyRendezvous fds"

definition rdvLocalPort :: "sockError + addr option \<Rightarrow> portError + nat" where
  "rdvLocalPort name = LocalPort name"

definition TrimPrefix :: "byte list \<Rightarrow> byte list \<Rightarrow> byte list" where
  "TrimPrefix s p = (if prefix p s then drop (length p) s else s)"

definition handle :: "Rendezvous \<Rightarrow> byte list \<Rightarrow> addr \<Rightarrow> Rendezvous \<times> (addr \<times> byte list) list" where
  "handle r msg src =
     (if \<not> prefix regPrefix msg then (r, [])
      else
        (let sid = TrimSpace (TrimPrefix msg regPrefix) in
         if sid = [] then (r, [])
         else case sessions r sid of
             None \<Rightarrow> (r\<lparr>sessions := (sessions r)(sid \<mapsto> src)\<rparr>, [])
           | Some first \<Rightarrow>
               if first = src then (r, [])
               else (r\<lparr>sessions := (sessions r)(sid := None)\<rparr>,
                     [(first, peerMsg src), (src, peerMsg first)])))"

fun serve :: "Rendezvous \<Rightarrow> (byte list \<times> addr) list \<Rightarrow> Rendezvous \<times> (addr \<times> byte list) list" where
  "serve r [] = (r, [])"
| "serve r ((msg, src) # ms) =
     (let (r', out) = handle r msg src; (r'', outs) = serve r' ms in (r'', out @ outs))"

text \<open>
  \<^theory_text>\<open>Serve\<close> answers \<open>None\<close> while it still blocks, \<open>Some None\<close> for the
  normal end and \<open>Some (Some e)\<close> for an error. An entry of the list tells whether the server
  is found closed before the receive call, and what that call answers.
\<close>

fun Serve :: "Rendezvous \<Rightarrow> (bool \<times> recvResult) list \<Rightarrow>
    sockError option option \<times> Rendezvous \<times> (addr \<times> byte list) list" where
  "Serve r [] = (None, r, [])"
| "Serve r ((closed, x) # obs) =
     (if closed then (Some None, r, [])
      else case x of
          RecvError e \<Rightarrow>
            if e = EINTR then Serve r obs
            else if e = EBADF \<or> e = EINVAL then (Some None, r, [])
            else (Some (Some e), r, [])
        | Datagram msg src \<Rightarrow>
            (case src of
               None \<Rightarrow> Serve r obs
             | Some a \<Rightarrow>
                 (let (r, out) = handle r msg a; (res, r, outs) = Serve r obs
                  in (res, r, out @ outs))))"

definition closeRendezvous :: "Rendezvous \<Rightarrow> nat \<Rightarrow> Rendezvous \<times> nat" where
  "closeRendezvous r fds = (if rclosed r then (r, fds) else (r\<lparr>rclosed := True\<rparr>, fds - 1))"

subsection \<open>The client's side of the messages\<close>

definition isPunchPacket :: "byte list \<Rightarrow> bool" where
  "isPunchPacket b = prefix punchMarker b"

text \<open>The loop fills an array of four; \<open>octets\<close> answers \<open>None\<close> on the first bad part.\<close>

fun octets :: "byte list list \<Rightarrow> byte list option" where
  "octets [] = Some []"
| "octets (p # ps) =
     (case ParseUint 255 p of
        None \<Rightarrow> None
      | Some v \<Rightarrow> (case octets ps of None \<Rightarrow> None | Some vs \<Rightarrow> Some (of_nat v # vs)))"

definition parseDottedIPv4 :: "byte list \<Rightarrow> ip4 option" where
  "parseDottedIPv4 s =
     (let parts = SplitByte 46 s in
      if length parts \<noteq> 4 then None
      else (case octets parts of Some [p, q, r, t] \<Rightarrow> Some (p, q, r, t) | _ \<Rightarrow> None))"

definition parsePeer :: "byte list \<Rightarrow> addr option" where
  "parsePeer msg =
     (if \<not> prefix peerPrefix msg then None
      else
        (let a = TrimSpace (TrimPrefix msg peerPrefix) in
         case Cut a 58 of
           None \<Rightarrow> None
         | Some (host, portStr) \<Rightarrow>
             (case parseDottedIPv4 host of
                None \<Rightarrow> None
              | Some ip \<Rightarrow>
                  (case ParseUint 65535 portStr of None \<Rightarrow> None | Some port \<Rightarrow> Some (ip, port)))))"

subsection \<open>Peer messages are read back\<close>

lemma decimal_set: "x \<in> set (decimal n) \<Longrightarrow> isDigit x"
  using decimal_digits [of n] by (simp add: list_all_iff)

lemma no_sep: "46 \<notin> set (decimal n)" "58 \<notin> set (decimal n)"
  using decimal_set [of 46 n] decimal_set [of 58 n] isDigit_not by blast+

lemma decimal_hd: "isDigit (hd (decimal n))" "isDigit (last (decimal n))" "decimal n \<noteq> []"
  using decimal_digits [of n] decimal_set [of _ n] by (auto simp: last_in_set)

lemma octet_ok: "ParseUint 255 (decimal (unat (p :: byte))) = Some (unat p)"
  using unat_u8_less [of p] by (intro ParseUint_decimal) simp

lemma parseDottedIPv4_IPStr: "parseDottedIPv4 (IPStr ip) = Some ip"
proof -
  obtain p q r s where ip: "ip = (p, q, r, s)" by (metis prod_cases4)
  have "SplitByte 46 (IPStr ip) = [decimal (unat p), decimal (unat q), decimal (unat r), decimal (unat s)]"
    by (simp add: IPStr_def ip SplitByte_append SplitByte_none no_sep)
  then show ?thesis by (simp add: parseDottedIPv4_def ip octet_ok)
qed

lemma IPStr_no_colon: "58 \<notin> set (IPStr ip)"
  by (cases ip) (auto simp: IPStr_def no_sep)

lemma IPStr_ends: "IPStr ip \<noteq> []" "isDigit (hd (IPStr ip))"
  by (cases ip; simp add: IPStr_def decimal_hd hd_append)+

lemma parsePeer_peerMsg: "snd a \<le> 65535 \<Longrightarrow> parsePeer (peerMsg a) = Some a"
proof -
  assume p: "snd a \<le> 65535"
  let ?t = "IPStr (fst a) @ [58] @ decimal (snd a)"
  have "TrimSpace ?t = ?t"
    by (rule TrimSpace_ends) (simp_all add: IPStr_ends decimal_hd hd_append last_append)
  moreover have "Cut ?t 58 = Some (IPStr (fst a), decimal (snd a))"
    using Cut_append [OF IPStr_no_colon, of "fst a" "decimal (snd a)"] by simp
  ultimately show ?thesis
    using p by (simp add: parsePeer_def peerMsg_def TrimPrefix_def parseDottedIPv4_IPStr
        ParseUint_decimal)
qed

subsection \<open>Pairing\<close>

text \<open>The session a registration names.\<close>

definition sidOf :: "byte list \<Rightarrow> byte list option" where
  "sidOf msg =
     (if prefix regPrefix msg \<and> TrimSpace (TrimPrefix msg regPrefix) \<noteq> []
      then Some (TrimSpace (TrimPrefix msg regPrefix)) else None)"

lemma handle_sid:
  "handle r msg src = (case sidOf msg of
     None \<Rightarrow> (r, [])
   | Some sid \<Rightarrow> (case sessions r sid of
       None \<Rightarrow> (r\<lparr>sessions := (sessions r)(sid \<mapsto> src)\<rparr>, [])
     | Some first \<Rightarrow> if first = src then (r, [])
         else (r\<lparr>sessions := (sessions r)(sid := None)\<rparr>,
               [(first, peerMsg src), (src, peerMsg first)])))"
  by (simp add: handle_def sidOf_def Let_def)

text \<open>
  Who is told what: both named the same session before, and are different. \<open>seen\<close> are the
  registrations so far.
\<close>

definition heard :: "(byte list \<times> addr) list \<Rightarrow> addr \<Rightarrow> byte list \<Rightarrow> bool" where
  "heard seen a sid \<longleftrightarrow> (\<exists>m. (m, a) \<in> set seen \<and> sidOf m = Some sid)"

definition introduced :: "(byte list \<times> addr) list \<Rightarrow> addr \<times> byte list \<Rightarrow> bool" where
  "introduced seen out \<longleftrightarrow>
     (\<exists>peer sid. snd out = peerMsg peer \<and> peer \<noteq> fst out \<and> heard seen peer sid \<and>
        heard seen (fst out) sid)"

definition waitingOK :: "(byte list \<times> addr) list \<Rightarrow> Rendezvous \<Rightarrow> bool" where
  "waitingOK seen r \<longleftrightarrow> (\<forall>sid a. sessions r sid = Some a \<longrightarrow> heard seen a sid)"

lemma heard_mono [intro]: "heard seen a sid \<Longrightarrow> heard (seen @ later) a sid"
  by (auto simp: heard_def)

lemma introduced_mono: "introduced seen out \<Longrightarrow> introduced (seen @ later) out"
  unfolding introduced_def using heard_mono by blast

lemma handle_introduces:
  assumes "waitingOK seen r" "handle r msg src = (r', outs)"
  shows "waitingOK (seen @ [(msg, src)]) r'" "\<forall>out\<in>set outs. introduced (seen @ [(msg, src)]) out"
proof -
  let ?seen = "seen @ [(msg, src)]"
  have old: "heard ?seen a sid" if "sessions r sid = Some a" for a sid
    using assms(1) that heard_mono unfolding waitingOK_def by blast
  have "waitingOK ?seen r' \<and> (\<forall>out\<in>set outs. introduced ?seen out)"
  proof (cases "sidOf msg")
    case None
    then show ?thesis using assms(2) old by (auto simp: handle_sid waitingOK_def simp del: split_paired_All)
  next
    case (Some sid)
    then have new: "heard ?seen src sid" by (auto simp: heard_def)
    show ?thesis
    proof (cases "sessions r sid")
      case None
      then show ?thesis using assms(2) Some old new
        by (auto simp: handle_sid waitingOK_def split: if_splits)
    next
      case (Some first)
      have f: "heard ?seen first sid" by (rule old [OF Some])
      have w: "waitingOK ?seen (r\<lparr>sessions := (sessions r)(sid := None)\<rparr>)"
        using old by (simp add: waitingOK_def)
      show ?thesis
      proof (cases "first = src")
        case True
        then show ?thesis
          using assms(2) \<open>sidOf msg = Some sid\<close> Some old by (simp add: handle_sid waitingOK_def)
      next
        case False
        have "introduced ?seen (first, peerMsg src)" "introduced ?seen (src, peerMsg first)"
          using f new False unfolding introduced_def fst_conv snd_conv by metis+
        then show ?thesis
          using assms(2) \<open>sidOf msg = Some sid\<close> Some False w by (auto simp: handle_sid)
      qed
    qed
  qed
  then show "waitingOK ?seen r'" "\<forall>out\<in>set outs. introduced ?seen out" by blast+
qed

lemma serve_introduces:
  "waitingOK seen r \<Longrightarrow> serve r ms = (r', outs) \<Longrightarrow>
     waitingOK (seen @ ms) r' \<and> (\<forall>out\<in>set outs. introduced (seen @ ms) out)"
proof (induction ms arbitrary: seen r r' outs)
  case (Cons m ms)
  obtain msg src where m: "m = (msg, src)" by (cases m)
  obtain r1 o1 where h: "handle r msg src = (r1, o1)" by (cases "handle r msg src")
  obtain r2 o2 where s: "serve r1 ms = (r2, o2)" by (cases "serve r1 ms")
  have e: "r' = r2" "outs = o1 @ o2" using Cons.prems(2) by (simp_all add: m h s)
  note i = handle_introduces [OF Cons.prems(1) h]
  from Cons.IH [OF i(1) s] have j: "waitingOK (seen @ m # ms) r2"
    "\<forall>out\<in>set o2. introduced (seen @ m # ms) out" by (simp_all add: m)
  have "\<forall>out\<in>set o1. introduced (seen @ m # ms) out"
    using i(2) introduced_mono [of "seen @ [(msg, src)]" _ ms] by (auto simp: m)
  with j show ?case by (auto simp: e)
qed simp

lemma serve_append:
  "serve r (xs @ ys) = (case serve r xs of (r', o1) \<Rightarrow> case serve r' ys of (r'', o2) \<Rightarrow> (r'', o1 @ o2))"
  by (induction r xs rule: serve.induct) (simp_all split: prod.splits)

text \<open>The registrations that the loop of \<open>Serve\<close> takes up.\<close>

fun taken :: "(bool \<times> recvResult) list \<Rightarrow> (byte list \<times> addr) list" where
  "taken [] = []"
| "taken ((closed, x) # obs) =
     (if closed then []
      else case x of
          RecvError e \<Rightarrow> if e = EINTR then taken obs else []
        | Datagram msg src \<Rightarrow> (case src of None \<Rightarrow> taken obs | Some a \<Rightarrow> (msg, a) # taken obs))"

lemma Serve_serve: "snd (Serve r obs) = serve r (taken obs)"
proof (induction obs arbitrary: r)
  case (Cons x obs)
  obtain closed y where "x = (closed, y)" by (cases x)
  then show ?case
    using Cons.IH by (simp add: case_prod_unfold Let_def split: recvResult.split option.split)
qed simp

lemma taken_heard: "(m, a) \<in> set (taken obs) \<Longrightarrow> (False, Datagram m (Some a)) \<in> set obs"
  by (induction obs rule: taken.induct) (auto split: if_splits recvResult.splits option.splits)

definition incoming :: "byte list \<times> addr \<Rightarrow> bool \<times> recvResult" where
  "incoming x = (False, Datagram (fst x) (Some (snd x)))"

lemma taken_incoming: "taken (map incoming ms) = ms"
  by (induction ms) (simp_all add: incoming_def)

lemma sidOf_regMsg: "TrimSpace s \<noteq> [] \<Longrightarrow> sidOf (regMsg s) = Some (TrimSpace s)"
  by (simp add: sidOf_def regMsg_def TrimPrefix_def)

text \<open>
  Two clients that repeat their registration until they are answered are paired by the first
  registration of the second one.
\<close>

lemma serve_waiting:
  assumes "\<forall>m\<in>set ms. sidOf (fst m) = Some sid \<and> snd m = a" "sessions r sid = Some a"
  shows "serve r ms = (r, [])"
  using assms by (induction ms) (auto simp: handle_sid)

section \<open>Properties\<close>

text \<open>
  C39: two clients of one session find each other. If one client has registered a free
  session, any number of times, the first registration of another client makes the server
  send each of them exactly one message, and \<open>parsePeer\<close> reads from it the
  address of the other.
\<close>

theorem rendezvous_pairs_two_clients:
  assumes "TrimSpace s = sid" "TrimSpace s' = sid" "sid \<noteq> []" "sessions r sid = None" "a \<noteq> b"
    and "snd a \<le> 65535" "snd b \<le> 65535"
  shows "case Serve r (map incoming (replicate (Suc k) (regMsg s, a) @ [(regMsg s', b)])) of (_, r', outs) \<Rightarrow>
    map (\<lambda>(dst, msg). (dst, parsePeer msg)) outs = [(a, Some b), (b, Some a)] \<and>
    sessions r' = sessions r"
proof -
  let ?r = "r\<lparr>sessions := (sessions r)(sid \<mapsto> a)\<rparr>"
  have i: "sidOf (regMsg s) = Some sid" "sidOf (regMsg s') = Some sid"
    using sidOf_regMsg assms(1-3) by auto
  have "serve ?r (replicate k (regMsg s, a)) = (?r, [])"
    by (rule serve_waiting [of _ sid a]) (simp_all add: i)
  moreover have "handle r (regMsg s) a = (?r, [])" by (simp add: handle_sid i assms(4))
  moreover have "handle ?r (regMsg s') b =
      (r\<lparr>sessions := (sessions r)(sid := None)\<rparr>, [(a, peerMsg b), (b, peerMsg a)])"
    using i assms(5) by (simp add: handle_sid)
  moreover have "(sessions r)(sid := None) = sessions r" using assms(4) by auto
  ultimately have "serve r (replicate (Suc k) (regMsg s, a) @ [(regMsg s', b)]) =
      (r\<lparr>sessions := sessions r\<rparr>, [(a, peerMsg b), (b, peerMsg a)])"
    by (simp add: serve_append)
  then have "snd (Serve r (map incoming (replicate (Suc k) (regMsg s, a) @ [(regMsg s', b)]))) =
      (r\<lparr>sessions := sessions r\<rparr>, [(a, peerMsg b), (b, peerMsg a)])"
    by (simp only: Serve_serve taken_incoming)
  then show ?thesis
    using parsePeer_peerMsg [OF assms(6)] parsePeer_peerMsg [OF assms(7)]
    by (simp add: case_prod_unfold del: map_append)
qed

theorem rendezvous_pairs_two_clients_witness:
  "map fst (snd (snd (Serve emptyRendezvous (map incoming
     [(regMsg [55], ((1, 2, 3, 4), 5)), (regMsg [55], ((6, 7, 8, 9), 10))])))) =
     [((1, 2, 3, 4), 5), ((6, 7, 8, 9), 10)]"
proof -
  have "TrimSpace [55] = [55]" by (rule TrimSpace_ends) (simp_all add: isDigit_def)
  from rendezvous_pairs_two_clients [OF this this, of emptyRendezvous "((1, 2, 3, 4), 5)" "((6, 7, 8, 9), 10)" 0]
  show ?thesis by (auto simp: emptyRendezvous_def)
qed

end
