(* ===== verification/Link_Datagram.thy ===== *)
theory Link_Datagram
  imports Link_Rendezvous Net_Ipv4
begin

section \<open>Datagram links and hole punching (udplink.go, unixlink.go, holepunch.go)\<close>

text \<open>
  The two links that carry one IP packet in one datagram, and the hole punching that finds the
  peer of a UDP link. The answers of the kernel are arguments, as \<open>Link_Socket\<close> explains; an
  entry for a receive loop tells what the loop reads of \<^theory_text>\<open>closed\<close> before and
  after the receive call.
\<close>

type_synonym recvObs = "bool \<times> recvResult \<times> bool"

datatype dgError = DgClosed | ErrPunchPeerUnknown | DgSys sockError

subsection \<open>udplink.go\<close>

record udpLink =
  remote :: addr
  learn :: bool
  uclosed :: bool

definition NewUDPLink ::
  "sockError option \<Rightarrow> sockError option \<Rightarrow> addr \<Rightarrow> nat \<Rightarrow> (sockError + udpLink) \<times> nat" where
  "NewUDPLink sockErr bindErr a fds =
     openBound sockErr bindErr \<lparr>remote = a, learn = False, uclosed = False\<rparr> fds"

definition NewUDPLinkPunch ::
  "sockError option \<Rightarrow> sockError option \<Rightarrow> nat \<Rightarrow> (sockError + udpLink) \<times> nat" where
  "NewUDPLinkPunch sockErr bindErr fds =
     openBound sockErr bindErr \<lparr>remote = ((0, 0, 0, 0), 0), learn = True, uclosed = False\<rparr> fds"

definition setRemote :: "udpLink \<Rightarrow> addr \<Rightarrow> udpLink" where
  "setRemote l a = l\<lparr>remote := a, learn := False\<rparr>"

definition udpWritePacket ::
  "(byte list \<Rightarrow> addr \<Rightarrow> sockError option) \<Rightarrow> udpLink \<Rightarrow> byte list \<Rightarrow>
     dgError option \<times> (byte list \<times> addr) option" where
  "udpWritePacket os l pkt =
     (if uclosed l then (Some DgClosed, None)
      else if learn l then (Some ErrPunchPeerUnknown, None)
      else (map_option DgSys (os pkt (remote l)), Some (pkt, remote l)))"

definition learnFrom :: "udpLink \<Rightarrow> addr option \<Rightarrow> udpLink" where
  "learnFrom l src =
     (if learn l
      then (case src of Some a \<Rightarrow> l\<lparr>remote := a, learn := False\<rparr> | None \<Rightarrow> l)
      else l)"

fun udpReadPacket :: "udpLink \<Rightarrow> recvObs list \<Rightarrow> ((dgError + byte list) \<times> udpLink) option" where
  "udpReadPacket l [] = None"
| "udpReadPacket l ((before, r, after) # obs) =
     (if before then Some (Inl DgClosed, l)
      else case r of
          RecvError e \<Rightarrow>
            if e = EINTR then udpReadPacket l obs
            else if e = EBADF \<or> e = EINVAL then Some (Inl DgClosed, l)
            else Some (Inl (DgSys e), l)
        | Datagram b src \<Rightarrow>
            if after then Some (Inl DgClosed, l)
            else
              (let l = learnFrom l src in
               if isPunchPacket b then udpReadPacket l obs else Some (Inr b, l)))"

definition udpClose :: "udpLink \<Rightarrow> nat \<Rightarrow> udpLink \<times> nat" where
  "udpClose l fds = (if uclosed l then (l, fds) else (l\<lparr>uclosed := True\<rparr>, fds - 1))"

subsection \<open>unixlink.go\<close>

record unixLink =
  connected :: bool
  xclosed :: bool

definition NewUnixLink ::
  "sockError option \<Rightarrow> sockError option \<Rightarrow> nat \<Rightarrow> (sockError + unixLink) \<times> nat" where
  "NewUnixLink sockErr bindErr fds =
     openBound sockErr bindErr \<lparr>connected = False, xclosed = False\<rparr> fds"

definition newUnixLinkFD :: unixLink where
  "newUnixLinkFD = \<lparr>connected = True, xclosed = False\<rparr>"

text \<open>\<open>os c pkt\<close> is the answer of \<^theory_text>\<open>write\<close> (\<open>c\<close>) or \<^theory_text>\<open>sendto\<close>.\<close>

definition unixWritePacket ::
  "(bool \<Rightarrow> byte list \<Rightarrow> sockError option) \<Rightarrow> unixLink \<Rightarrow> byte list \<Rightarrow>
     dgError option \<times> byte list option" where
  "unixWritePacket os l pkt =
     (if xclosed l then (Some DgClosed, None)
      else
        (let err = os (connected l) pkt in
         if err = Some ENOENT \<or> err = Some ECONNREFUSED then (None, Some pkt)
         else (map_option DgSys err, Some pkt)))"

fun unixReadPacket :: "unixLink \<Rightarrow> recvObs list \<Rightarrow> ((dgError + byte list) \<times> unixLink) option" where
  "unixReadPacket l [] = None"
| "unixReadPacket l ((before, r, after) # obs) =
     (if before then Some (Inl DgClosed, l)
      else case r of
          RecvError e \<Rightarrow>
            if e = EINTR then unixReadPacket l obs
            else if e = EBADF \<or> e = EINVAL then Some (Inl DgClosed, l)
            else Some (Inl (DgSys e), l)
        | Datagram b src \<Rightarrow> if after then Some (Inl DgClosed, l) else Some (Inr b, l))"

definition unixClose :: "unixLink \<Rightarrow> nat \<Rightarrow> unixLink \<times> nat" where
  "unixClose l fds = (if xclosed l then (l, fds) else (l\<lparr>xclosed := True\<rparr>, fds - 1))"

subsection \<open>holepunch.go\<close>

datatype punchError = ErrPunchTimeout | PunchSys sockError

definition isTimeoutErr :: "sockError \<Rightarrow> bool" where
  "isTimeoutErr e \<longleftrightarrow> e = EAGAIN"

text \<open>
  One iteration reads the clock, sends, and receives; the entry holds the clock, the answer of
  \<^theory_text>\<open>sendto\<close> and that of \<^theory_text>\<open>recvfrom\<close>. The loops answer the
  datagrams sent, with their destination, and the result, \<open>None\<close> while they still run.
\<close>

type_synonym punchObs = "time \<times> sockError option \<times> recvResult"

fun registerAndWaitPeer :: "addr \<Rightarrow> byte list \<Rightarrow> time \<Rightarrow> punchObs list \<Rightarrow>
    (addr \<times> byte list) list \<times> (punchError + addr) option" where
  "registerAndWaitPeer srv sid deadline [] = ([], None)"
| "registerAndWaitPeer srv sid deadline ((t, sent, r) # obs) =
     (if \<not> t < deadline then ([], Some (Inl ErrPunchTimeout))
      else
        (let reg = (srv, regMsg sid);
             again = (case registerAndWaitPeer srv sid deadline obs of (out, res) \<Rightarrow> (reg # out, res)) in
         case sent of
           Some e \<Rightarrow> ([reg], Some (Inl (PunchSys e)))
         | None \<Rightarrow>
             (case r of
                RecvError e \<Rightarrow>
                  if isTimeoutErr e \<or> e = EINTR then again else ([reg], Some (Inl (PunchSys e)))
              | Datagram b src \<Rightarrow>
                  (case parsePeer b of Some a \<Rightarrow> ([reg], Some (Inr a)) | None \<Rightarrow> again))))"

fun punchUntilEstablished :: "addr \<Rightarrow> time \<Rightarrow> punchObs list \<Rightarrow>
    (addr \<times> byte list) list \<times> punchError option option" where
  "punchUntilEstablished peer deadline [] = ([], None)"
| "punchUntilEstablished peer deadline ((t, sent, r) # obs) =
     (if \<not> t < deadline then ([], Some (Some ErrPunchTimeout))
      else
        (let punch = (peer, punchMarker);
             again = (case punchUntilEstablished peer deadline obs of (out, res) \<Rightarrow> (punch # out, res)) in
         case r of
           RecvError e \<Rightarrow>
             if isTimeoutErr e \<or> e = EINTR then again else ([punch], Some (Some (PunchSys e)))
         | Datagram b src \<Rightarrow>
             if isPunchPacket b \<and> src = Some peer then (punch # replicate 3 punch, Some None)
             else again))"

text \<open>
  \<open>t1\<close> and \<open>t2\<close> are the clock at the start of the two phases. The last component is the
  number of open descriptors.
\<close>

definition DialHolePunch ::
  "sockError option \<Rightarrow> sockError option \<Rightarrow> addr \<Rightarrow> byte list \<Rightarrow> duration \<Rightarrow>
     time \<Rightarrow> punchObs list \<Rightarrow> time \<Rightarrow> punchObs list \<Rightarrow> nat \<Rightarrow> (punchError + udpLink) option \<times> nat" where
  "DialHolePunch sockErr bindErr srv sid timeout t1 obs1 t2 obs2 fds =
     (let (r, fds) = NewUDPLinkPunch sockErr bindErr fds in
      case r of
        Inl e \<Rightarrow> (Some (Inl (PunchSys e)), fds)
      | Inr link \<Rightarrow>
          (case snd (registerAndWaitPeer srv sid (t1 + timeout) obs1) of
             None \<Rightarrow> (None, fds)
           | Some (Inl e) \<Rightarrow> (Some (Inl e), snd (udpClose link fds))
           | Some (Inr peer) \<Rightarrow>
               (case snd (punchUntilEstablished peer (t2 + timeout) obs2) of
                  None \<Rightarrow> (None, fds)
                | Some (Some e) \<Rightarrow> (Some (Inl e), snd (udpClose link fds))
                | Some None \<Rightarrow> (Some (Inr (setRemote link peer)), fds))))"

subsection \<open>The contract of a datagram link\<close>

text \<open>
  What the receive loop of the stack relies on: a packet that comes out is the whole content of
  one received datagram, the first one that is not skipped, and a closed link answers
  \<open>DgClosed\<close>. The locale is interpreted by both links.
\<close>

definition passedOver :: "(byte list \<Rightarrow> bool) \<Rightarrow> recvObs \<Rightarrow> bool" where
  "passedOver skip x \<longleftrightarrow> (case x of (before, r, after) \<Rightarrow> \<not> before \<and>
     (case r of RecvError e \<Rightarrow> e = EINTR | Datagram b src \<Rightarrow> skip b \<and> \<not> after))"

locale datagram_link =
  fixes read :: "'l \<Rightarrow> recvObs list \<Rightarrow> ((dgError + byte list) \<times> 'l) option"
    and skip :: "byte list \<Rightarrow> bool" and heard_from :: "'l \<Rightarrow> recvObs \<Rightarrow> 'l"
  assumes read_none: "read l [] = None"
    and read_skip: "passedOver skip x \<Longrightarrow> read l (x # obs) = read (heard_from l x) obs"
    and read_stop: "\<not> passedOver skip x \<Longrightarrow> \<exists>r. read l (x # obs) = Some (r, heard_from l x) \<and>
      (\<forall>b. r = Inr b \<longrightarrow> (\<exists>src. x = (False, Datagram b src, False) \<and> \<not> skip b))"
    and read_closed: "read l ((True, r, c) # obs) = Some (Inl DgClosed, l)"
begin

lemma delivers:
  assumes "read l obs = Some (Inr b, l')"
  shows "\<exists>xs src ys. obs = xs @ (False, Datagram b src, False) # ys \<and> list_all (passedOver skip) xs \<and>
    \<not> skip b \<and> l' = foldl heard_from l (xs @ [(False, Datagram b src, False)])"
  using assms
proof (induction obs arbitrary: l)
  case Nil
  then show ?case by (simp add: read_none)
next
  case (Cons x obs)
  show ?case
  proof (cases "passedOver skip x")
    case True
    with Cons.prems have "read (heard_from l x) obs = Some (Inr b, l')" by (simp add: read_skip)
    from Cons.IH [OF this] obtain xs src ys where
      "obs = xs @ (False, Datagram b src, False) # ys" "list_all (passedOver skip) xs" "\<not> skip b"
      "l' = foldl heard_from (heard_from l x) (xs @ [(False, Datagram b src, False)])" by blast
    with True show ?thesis
      by (intro exI [of _ "x # xs"] exI [of _ src] exI [of _ ys]) simp
  next
    case False
    from read_stop [OF this, of l obs] Cons.prems obtain src
      where "x = (False, Datagram b src, False)" "\<not> skip b" "l' = heard_from l x" by auto
    then show ?thesis by (intro exI [of _ "[]"] exI [of _ src] exI [of _ obs]) simp
  qed
qed

text \<open>No datagram is held back: the first one that is not skipped comes out.\<close>

lemma complete:
  "list_all (passedOver skip) xs \<Longrightarrow> \<not> skip b \<Longrightarrow>
     read l (xs @ (False, Datagram b src, False) # ys) =
       read (foldl heard_from l xs) ((False, Datagram b src, False) # ys)"
  by (induction xs arbitrary: l) (simp_all add: read_skip)

end

fun udpHeard :: "udpLink \<Rightarrow> recvObs \<Rightarrow> udpLink" where
  "udpHeard l (False, Datagram b src, False) = learnFrom l src"
| "udpHeard l x = l"

interpretation udp: datagram_link udpReadPacket isPunchPacket udpHeard
proof
  fix l and x :: recvObs and obs
  obtain c1 r c2 where x: "x = (c1, r, c2)" by (cases x) auto
  show "udpReadPacket l (x # obs) = udpReadPacket (udpHeard l x) obs" if "passedOver isPunchPacket x"
    using that by (cases r; cases c1; cases c2) (simp_all add: x passedOver_def Let_def)
  show "\<exists>r. udpReadPacket l (x # obs) = Some (r, udpHeard l x) \<and>
      (\<forall>b. r = Inr b \<longrightarrow> (\<exists>src. x = (False, Datagram b src, False) \<and> \<not> isPunchPacket b))"
    if "\<not> passedOver isPunchPacket x"
    using that by (cases r; cases c1; cases c2) (auto simp: x passedOver_def Let_def)
qed simp_all

interpretation unx: datagram_link unixReadPacket "\<lambda>_. False" "\<lambda>l x. l"
proof
  fix l and x :: recvObs and obs
  obtain c1 r c2 where x: "x = (c1, r, c2)" by (cases x) auto
  show "unixReadPacket l (x # obs) = unixReadPacket l obs" if "passedOver (\<lambda>_. False) x"
    using that by (cases r) (simp_all add: x passedOver_def)
  show "\<exists>r. unixReadPacket l (x # obs) = Some (r, l) \<and>
      (\<forall>b. r = Inr b \<longrightarrow> (\<exists>src. x = (False, Datagram b src, False) \<and> \<not> False))"
    if "\<not> passedOver (\<lambda>_. False) x"
    using that by (cases r) (auto simp: x passedOver_def)
qed simp_all

subsection \<open>The peer of a UDP link\<close>

lemma learnFrom_fixed: "\<not> learn l \<Longrightarrow> learnFrom l src = l"
  by (simp add: learnFrom_def)

lemma udpHeard_fixed: "\<not> learn l \<Longrightarrow> udpHeard l x = l"
  by (cases "(l, x)" rule: udpHeard.cases) (simp_all add: learnFrom_fixed)

lemma udpHeard_foldl: "\<not> learn l \<Longrightarrow> foldl udpHeard l xs = l"
  by (induction xs) (simp_all add: udpHeard_fixed)

lemma udpRead_link: "udpReadPacket l obs = Some (r, l') \<Longrightarrow> \<not> learn l \<Longrightarrow> l' = l"
  by (induction l obs rule: udpReadPacket.induct)
    (auto simp: learnFrom_fixed Let_def split: if_splits recvResult.splits)

text \<open>No IPv4 packet looks like a punch packet.\<close>

lemma punchMarker_bytes: "punchMarker = [0x50, 0x55, 0x4E, 0x43, 0x48]"
  by (simp add: punchMarker_def ascii_def)

lemma ipv4_not_punch:
  "drop_bit 4 (b ! 0) = (4 :: byte) \<Longrightarrow> b \<noteq> [] \<Longrightarrow> \<not> isPunchPacket b"
  by (auto simp: isPunchPacket_def punchMarker_bytes prefix_def)

lemma Marshal_not_punch: "\<not> isPunchPacket (MarshalIPv4 h @ rest)"
  by (simp add: isPunchPacket_def punchMarker_bytes MarshalIPv4_bytes ipv4Bytes_def)

subsection \<open>Hole punching finds the peer that the server named\<close>

lemma register_peer:
  assumes "snd (registerAndWaitPeer srv sid deadline obs) = Some (Inr a)"
  shows "\<exists>t s b src. (t, s, Datagram b src) \<in> set obs \<and> t < deadline \<and> parsePeer b = Some a"
  using assms
proof (induction obs)
  case (Cons x obs)
  obtain t s r where x: "x = (t, s, r)" by (metis prod_cases3)
  have t: "t < deadline" "s = None"
    using Cons.prems by (auto simp: x Let_def split: if_splits option.splits)
  show ?case
  proof (cases "snd (registerAndWaitPeer srv sid deadline obs) = Some (Inr a)")
    case True
    from Cons.IH [OF this] show ?thesis unfolding list.set by blast
  next
    case False
    then obtain b src where "r = Datagram b src" "parsePeer b = Some a"
      using Cons.prems t
      by (auto simp: x case_prod_unfold Let_def split: recvResult.splits if_splits option.splits)
    with t x show ?thesis unfolding list.set by blast
  qed
qed simp

lemma punch_peer:
  assumes "snd (punchUntilEstablished peer deadline obs) = Some None"
  shows "\<exists>t s b. (t, s, Datagram b (Some peer)) \<in> set obs \<and> t < deadline \<and> isPunchPacket b"
  using assms
proof (induction obs)
  case (Cons x obs)
  obtain t s r where x: "x = (t, s, r)" by (metis prod_cases3)
  have t: "t < deadline" using Cons.prems by (auto simp: x split: if_splits)
  show ?case
  proof (cases "snd (punchUntilEstablished peer deadline obs) = Some None")
    case True
    from Cons.IH [OF this] show ?thesis unfolding list.set by blast
  next
    case False
    then obtain b where "r = Datagram b (Some peer)" "isPunchPacket b"
      using Cons.prems t by (auto simp: x case_prod_unfold Let_def split: recvResult.splits if_splits)
    with t x show ?thesis unfolding list.set by blast
  qed
qed simp

text \<open>The client only registers, and only at the server; it only punches at the peer.\<close>

lemma register_sends: "set (fst (registerAndWaitPeer srv sid deadline obs)) \<subseteq> {(srv, regMsg sid)}"
  by (induction srv sid deadline obs rule: registerAndWaitPeer.induct)
    (auto simp: Let_def split: recvResult.splits prod.splits option.splits)

lemma punch_sends: "set (fst (punchUntilEstablished peer deadline obs)) \<subseteq> {(peer, punchMarker)}"
  by (induction peer deadline obs rule: punchUntilEstablished.induct)
    (auto simp: Let_def split: recvResult.splits prod.splits)

lemma DialHolePunch_established:
  assumes "DialHolePunch se be srv sid timeout t1 obs1 t2 obs2 fds = (Some (Inr l), fds')"
  shows "\<not> learn l \<and> \<not> uclosed l \<and>
    (\<exists>t s b src. (t, s, Datagram b src) \<in> set obs1 \<and> t < t1 + timeout \<and> parsePeer b = Some (remote l)) \<and>
    (\<exists>t s b. (t, s, Datagram b (Some (remote l))) \<in> set obs2 \<and> t < t2 + timeout \<and> isPunchPacket b)"
proof -
  obtain a where a: "snd (registerAndWaitPeer srv sid (t1 + timeout) obs1) = Some (Inr a)"
    "snd (punchUntilEstablished a (t2 + timeout) obs2) = Some None"
    "l = setRemote \<lparr>remote = ((0, 0, 0, 0), 0), learn = True, uclosed = False\<rparr> a"
    using assms by (auto simp: DialHolePunch_def NewUDPLinkPunch_def openBound_def Let_def
        split: option.splits sum.splits)
  from register_peer [OF a(1)] punch_peer [OF a(2)] show ?thesis
    by (simp add: a(3) setRemote_def)
qed

text \<open>A descriptor stays open exactly while the dial runs or when it has returned a link.\<close>

lemma DialHolePunch_fds:
  assumes "DialHolePunch se be srv sid timeout t1 obs1 t2 obs2 fds = (Some r, fds')"
  shows "fds' = (if isl r then fds else Suc fds)"
  using assms
  by (auto simp: DialHolePunch_def NewUDPLinkPunch_def openBound_def udpClose_def Let_def
      split: option.splits sum.splits)

section \<open>Properties\<close>

text \<open>
  C40: hole punching connects to the right peer. When \<open>DialHolePunch\<close> returns,
  it leaves a descriptor open exactly if it returns a link; then a rendezvous message naming
  the link's remote address was received before the first deadline, a punch packet came from
  exactly that address before the second, and no datagram received later changes the remote
  address.
\<close>

theorem hole_punch_finds_named_peer:
  assumes "DialHolePunch se be srv sid timeout t1 obs1 t2 obs2 fds = (Some r, fds')"
  shows "case r of
      Inl e \<Rightarrow> fds' = fds
    | Inr l \<Rightarrow> fds' = Suc fds \<and>
        (\<exists>t s b src. (t, s, Datagram b src) \<in> set obs1 \<and> t < t1 + timeout \<and> parsePeer b = Some (remote l)) \<and>
        (\<exists>t s b. (t, s, Datagram b (Some (remote l))) \<in> set obs2 \<and> t < t2 + timeout \<and> isPunchPacket b) \<and>
        (case udpReadPacket l obs of None \<Rightarrow> True | Some (x, l') \<Rightarrow> l' = l)"
proof (cases r)
  case (Inl e)
  then show ?thesis using DialHolePunch_fds [OF assms] by simp
next
  case (Inr l)
  from DialHolePunch_established [OF assms [unfolded Inr]] DialHolePunch_fds [OF assms]
    udpRead_link [of l obs] show ?thesis by (auto simp: Inr split: option.splits)
qed

theorem hole_punch_finds_named_peer_witness:
  "let peer = ((1, 2, 3, 4), 5);
       l = setRemote \<lparr>remote = ((0, 0, 0, 0), 0), learn = True, uclosed = False\<rparr> peer
   in \<exists>t s b. (t, s, Datagram b (Some (remote l))) \<in> set [(6, None, Datagram punchMarker (Some peer))] \<and>
        t < (5 + 10 :: time) \<and> isPunchPacket b"
proof -
  let ?p = "((1, 2, 3, 4), 5) :: addr"
  let ?l = "setRemote \<lparr>remote = ((0, 0, 0, 0), 0), learn = True, uclosed = False\<rparr> ?p"
  have d: "DialHolePunch None None ((9, 9, 9, 9), 7000) [55] 10 0 [(1, None, Datagram (peerMsg ?p) None)] 5
      [(6, None, Datagram punchMarker (Some ?p))] 0 = (Some (Inr ?l), 1)"
    using parsePeer_peerMsg [of ?p]
    by (simp add: DialHolePunch_def isPunchPacket_def NewUDPLinkPunch_def openBound_def Let_def)
  from hole_punch_finds_named_peer [OF d] show ?thesis by (simp add: Let_def)
qed

end
