(* ===== verification/Tcp_Framing.thy ===== *)
theory Tcp_Framing
  imports Net_Bytes
begin

unbundle bit_operations_syntax

section \<open>Splitting a byte stream into IPv4 packets (tcp/transport/framing.go)\<close>

text \<open>
  \<open>pushLoop\<close> is the loop of \<^theory_text>\<open>Framer.Push\<close> over the accumulated bytes: the packets
  it cuts off, the bytes that stay in the buffer, and the error that stopped it.
\<close>

record Framer =
  fbuf :: "byte list"
  maxPacket :: int

datatype frameError = errFrameVersion | errFrameIHL | errFrameTooLong | errFrameBufFull

definition NewFramer :: "int \<Rightarrow> Framer" where
  "NewFramer mp = \<lparr>fbuf = [], maxPacket = mp\<rparr>"

definition declaredLength :: "byte list \<Rightarrow> nat" where
  "declaredLength b = unat (push_bit 8 (ucast (b ! 2)) OR ucast (b ! 3) :: u16)"

function pushLoop :: "int \<Rightarrow> byte list \<Rightarrow> byte list list \<times> byte list \<times> frameError option" where
  "pushLoop mp b =
     (if length b < 4 then ([], b, None)
      else if drop_bit 4 (b ! 0) \<noteq> 4 then ([], b, Some errFrameVersion)
      else if (b ! 0) AND 0x0F < 5 then ([], b, Some errFrameIHL)
      else if declaredLength b < 20 then ([], b, Some errFrameIHL)
      else if int (declaredLength b) > mp then ([], b, Some errFrameTooLong)
      else if length b < declaredLength b then
        if int (length b) > mp then ([], b, Some errFrameBufFull) else ([], b, None)
      else (case pushLoop mp (drop (declaredLength b) b) of
        (packets, rest, err) \<Rightarrow> (take (declaredLength b) b # packets, rest, err)))"
  by pat_completeness auto
termination
  by (relation "measure (\<lambda>(mp, b). length b)") auto

declare pushLoop.simps [simp del]

definition Push :: "Framer \<Rightarrow> byte list \<Rightarrow> byte list list \<times> frameError option \<times> Framer" where
  "Push f chunk =
     (case pushLoop (maxPacket f) (fbuf f @ chunk) of
        (packets, rest, err) \<Rightarrow> (packets, err, f\<lparr>fbuf := rest\<rparr>))"

text \<open>A sequence of reads, each pushed as it arrives.\<close>

fun PushAll :: "Framer \<Rightarrow> byte list list \<Rightarrow> byte list list \<times> frameError option \<times> Framer" where
  "PushAll f [] = ([], None, f)"
| "PushAll f [c] = Push f c"
| "PushAll f (c # cs) =
     (case Push f c of (ps, _, f') \<Rightarrow>
        case PushAll f' cs of (ps', err, f'') \<Rightarrow> (ps @ ps', err, f''))"

subsection \<open>One turn of the loop\<close>

definition cutReady :: "int \<Rightarrow> byte list \<Rightarrow> bool" where
  "cutReady mp b \<longleftrightarrow> 4 \<le> length b \<and> drop_bit 4 (b ! 0) = 4 \<and> \<not> (b ! 0) AND 0x0F < 5 \<and>
     20 \<le> declaredLength b \<and> int (declaredLength b) \<le> mp \<and> declaredLength b \<le> length b"

definition headError :: "int \<Rightarrow> byte list \<Rightarrow> frameError option" where
  "headError mp b =
     (if length b < 4 then None
      else if drop_bit 4 (b ! 0) \<noteq> 4 then Some errFrameVersion
      else if (b ! 0) AND 0x0F < 5 then Some errFrameIHL
      else if declaredLength b < 20 then Some errFrameIHL
      else if int (declaredLength b) > mp then Some errFrameTooLong
      else None)"

lemma pushLoop_cut:
  "cutReady mp b \<Longrightarrow> pushLoop mp b = (case pushLoop mp (drop (declaredLength b) b) of
     (packets, rest, err) \<Rightarrow> (take (declaredLength b) b # packets, rest, err))"
  by (subst pushLoop.simps) (simp add: cutReady_def)

lemma pushLoop_stop: "\<not> cutReady mp b \<Longrightarrow> pushLoop mp b = ([], b, headError mp b)"
  by (subst pushLoop.simps) (auto simp: cutReady_def headError_def)

lemma declaredLength_append [simp]: "4 \<le> length b \<Longrightarrow> declaredLength (b @ c) = declaredLength b"
  by (simp add: declaredLength_def nth_append)

lemma nth0_append: "4 \<le> length b \<Longrightarrow> (b @ c) ! 0 = b ! 0"
  by (cases b) auto

lemma cutReady_append: "cutReady mp b \<Longrightarrow> cutReady mp (b @ c)"
  by (simp add: cutReady_def nth0_append)

lemma headError_Some_iff:
  "headError mp b = Some e \<Longrightarrow> 4 \<le> length b \<and> \<not> cutReady mp b"
  by (auto simp: headError_def cutReady_def split: if_splits)

lemma headError_append: "headError mp b = Some e \<Longrightarrow> headError mp (b @ c) = Some e"
proof -
  assume e: "headError mp b = Some e"
  then have "4 \<le> length b" by (simp add: headError_Some_iff)
  then have "headError mp (b @ c) = headError mp b" by (simp add: headError_def nth0_append)
  with e show ?thesis by simp
qed

lemma headError_not_full: "headError mp b \<noteq> Some errFrameBufFull"
  by (simp add: headError_def)

lemma cutReady_shorter: "cutReady mp b \<Longrightarrow> length (drop (declaredLength b) b) < length b"
  by (auto simp: cutReady_def)

subsection \<open>Chunks do not matter\<close>

lemma pushLoop_append:
  "pushLoop mp (a @ c) =
     (case pushLoop mp a of (p1, r1, e1) \<Rightarrow>
        (case e1 of Some e \<Rightarrow> (p1, r1 @ c, Some e)
         | None \<Rightarrow> (case pushLoop mp (r1 @ c) of (p2, r2, e2) \<Rightarrow> (p1 @ p2, r2, e2))))"
proof (induction "length a" arbitrary: a rule: less_induct)
  case less
  show ?case
  proof (cases "cutReady mp a")
    case True
    then have d: "declaredLength (a @ c) = declaredLength a" "declaredLength a \<le> length a"
      by (simp_all add: cutReady_def)
    note IH = less [OF cutReady_shorter [OF True]]
    show ?thesis
      unfolding pushLoop_cut [OF True] pushLoop_cut [OF cutReady_append [OF True]]
      using d IH by (simp split: prod.splits option.splits)
  next
    case False
    note a = pushLoop_stop [OF False]
    show ?thesis
    proof (cases "headError mp a")
      case None
      then show ?thesis by (simp add: a split: prod.splits)
    next
      case (Some e)
      then have "headError mp (a @ c) = Some e" by (rule headError_append)
      with Some headError_Some_iff [OF this] show ?thesis
        by (simp add: a pushLoop_stop)
    qed
  qed
qed

lemma pushLoop_error_stays:
  "pushLoop mp b = (ps, r, Some e) \<Longrightarrow> pushLoop mp (r @ d) = ([], r @ d, Some e)"
proof (induction "length b" arbitrary: b ps rule: less_induct)
  case less
  show ?case
  proof (cases "cutReady mp b")
    case True
    from less.prems obtain ps' where "pushLoop mp (drop (declaredLength b) b) = (ps', r, Some e)"
      unfolding pushLoop_cut [OF True] by (auto split: prod.splits)
    then show ?thesis by (rule less.hyps [OF cutReady_shorter [OF True]])
  next
    case False
    with less.prems have "r = b" "headError mp b = Some e"
      by (auto simp: pushLoop_stop)
    then have "headError mp (r @ d) = Some e" by (simp add: headError_append)
    with headError_Some_iff [OF this] show ?thesis by (simp add: pushLoop_stop)
  qed
qed

lemma Push_append:
  "Push f (c @ d) =
     (case Push f c of (ps, e, f') \<Rightarrow>
        case Push f' d of (ps', e', f'') \<Rightarrow> (ps @ ps', e', f''))"
proof -
  obtain p1 r1 e1 where p: "pushLoop (maxPacket f) (fbuf f @ c) = (p1, r1, e1)"
    by (cases "pushLoop (maxPacket f) (fbuf f @ c)") auto
  show ?thesis
    using pushLoop_append [of "maxPacket f" "fbuf f @ c" d] p
      pushLoop_error_stays [of "maxPacket f" "fbuf f @ c" p1 r1 _ d]
    by (cases e1) (auto simp: Push_def split: prod.splits)
qed

lemma PushAll_concat: "cs \<noteq> [] \<Longrightarrow> PushAll f cs = Push f (concat cs)"
proof (induction f cs rule: PushAll.induct)
  case (3 f c v va)
  then show ?case
    by (simp add: Push_append split: prod.splits)
qed simp_all

subsection \<open>What comes out\<close>

definition framed :: "int \<Rightarrow> byte list \<Rightarrow> bool" where
  "framed mp p \<longleftrightarrow> cutReady mp p \<and> declaredLength p = length p"

lemma pushLoop_framed:
  "\<forall>p \<in> set ps. framed mp p \<Longrightarrow> pushLoop mp (concat ps @ rest) =
     (case pushLoop mp rest of (ps', r, e) \<Rightarrow> (ps @ ps', r, e))"
proof (induction ps)
  case (Cons p ps)
  then have p: "cutReady mp p" "declaredLength p = length p" "4 \<le> length p"
    by (auto simp: framed_def cutReady_def)
  have "pushLoop mp (p @ concat ps @ rest) =
      (case pushLoop mp (concat ps @ rest) of (packets, r, err) \<Rightarrow> (p # packets, r, err))"
    using p by (subst pushLoop_cut) (auto intro: cutReady_append)
  with Cons show ?case by (simp split: prod.splits)
qed simp

lemma framed_take: "cutReady mp b \<Longrightarrow> framed mp (take (declaredLength b) b)"
proof -
  assume c: "cutReady mp b"
  then have "declaredLength (take (declaredLength b) b) = declaredLength b"
    by (simp add: cutReady_def declaredLength_def)
  with c show ?thesis by (simp add: framed_def cutReady_def)
qed

lemma pushLoop_out:
  "pushLoop mp b = (ps, r, e) \<Longrightarrow>
     b = concat ps @ r \<and> (\<forall>p \<in> set ps. framed mp p) \<and> e \<noteq> Some errFrameBufFull \<and>
     (e = None \<longrightarrow> int (length r) < max 4 mp)"
proof (induction "length b" arbitrary: b ps rule: less_induct)
  case less
  let ?n = "declaredLength b"
  show ?case
  proof (cases "cutReady mp b")
    case True
    from less.prems obtain ps' where ps: "ps = take ?n b # ps'"
      and r: "pushLoop mp (drop ?n b) = (ps', r, e)"
      unfolding pushLoop_cut [OF True] by (auto split: prod.splits)
    have "drop ?n b = concat ps' @ r \<and> (\<forall>p \<in> set ps'. framed mp p) \<and>
        e \<noteq> Some errFrameBufFull \<and> (e = None \<longrightarrow> int (length r) < max 4 mp)"
      by (rule less.hyps [OF cutReady_shorter [OF True] r])
    with ps framed_take [OF True] show ?thesis
      by (metis append.assoc append_take_drop_id concat.simps(2) set_ConsD)
  next
    case False
    with less.prems have "ps = []" "r = b" "e = headError mp b"
      by (auto simp: pushLoop_stop)
    moreover from False have "headError mp b = None \<Longrightarrow> int (length b) < max 4 mp"
      by (auto simp: headError_def cutReady_def split: if_splits)
    ultimately show ?thesis by (simp add: headError_not_full)
  qed
qed

section \<open>Properties\<close>

text \<open>
  C29: framing does not depend on how the stream was cut. Pushing any non-empty sequence of
  chunks one after the other gives the same packets, the same final error and the same
  buffered rest as one push of their concatenation.
\<close>

theorem framing_ignores_chunking:
  "PushAll f (c # cs) = Push f (concat (c # cs))"
  by (rule PushAll_concat) simp

text \<open>
  Framing loses and invents nothing. The packets that \<open>Push\<close> returns followed
  by the bytes it keeps are exactly the bytes it held followed by the chunk; each packet has
  the IPv4 length it declares and is no longer than the limit; a rest that is kept without
  an error is shorter than a packet may be; and the error \<open>errFrameBufFull\<close>
  never occurs.
\<close>

theorem framing_conserves_bytes:
  "case Push f bytes of (packets, err, f') \<Rightarrow>
     concat packets @ fbuf f' = fbuf f @ bytes \<and>
     list_all (\<lambda>p. declaredLength p = length p \<and> int (length p) \<le> maxPacket f) packets \<and>
     err \<noteq> Some errFrameBufFull \<and>
     (if err = None then int (length (fbuf f')) < max 4 (maxPacket f) else True)"
proof -
  obtain ps r e where p: "pushLoop (maxPacket f) (fbuf f @ bytes) = (ps, r, e)" by (metis prod_cases3)
  note o = pushLoop_out [OF p]
  have "Push f bytes = (ps, e, f\<lparr>fbuf := r\<rparr>)" by (simp add: Push_def p)
  moreover have "list_all (\<lambda>p. declaredLength p = length p \<and> int (length p) \<le> maxPacket f) ps"
    using o by (auto simp: list_all_iff framed_def cutReady_def)
  ultimately show ?thesis using o by simp
qed

end
