(* ===== verification/Tcp_Options.thy ===== *)
theory Tcp_Options
  imports Net_Bytes
begin

unbundle bit_operations_syntax

section \<open>TCP options (tcp/transport/options.go)\<close>

text \<open>
  \<open>ParseTCPOptions\<close> walks the option area by index as the code does; \<open>optSwitch\<close> is the
  body of its \<^theory_text>\<open>switch\<close> on the kind. \<open>None\<close> is a panic, \<open>Some (Inl errBadOption)\<close>
  the error. \<open>MarshalOptions\<close> appends the fields that are set and pads with NOP.
\<close>

abbreviation (input) optEOL :: byte where "optEOL \<equiv> 0"
abbreviation (input) optNOP :: byte where "optNOP \<equiv> 1"
abbreviation (input) optMSS :: byte where "optMSS \<equiv> 2"
abbreviation (input) optWScale :: byte where "optWScale \<equiv> 3"
abbreviation (input) optSACKPerm :: byte where "optSACKPerm \<equiv> 4"
abbreviation (input) optSACK :: byte where "optSACK \<equiv> 5"
abbreviation (input) optTimestamp :: byte where "optTimestamp \<equiv> 8"

definition maxWScale :: u8 where
  "maxWScale = 14"

record TCPOptions =
  MSS :: u16
  HasMSS :: bool
  WindowScale :: u8
  HasWScale :: bool
  TSVal :: u32
  TSecr :: u32
  HasTimestamp :: bool
  SACKPermitted :: bool
  SACKBlocks :: "(u32 \<times> u32) list"

datatype optError = errBadOption

definition noOptions :: TCPOptions where
  "noOptions = \<lparr>MSS = 0, HasMSS = False, WindowScale = 0, HasWScale = False, TSVal = 0,
     TSecr = 0, HasTimestamp = False, SACKPermitted = False, SACKBlocks = []\<rparr>"

definition clampWScale :: "u8 \<Rightarrow> u8" where
  "clampWScale s = (if s > maxWScale then maxWScale else s)"

text \<open>The inner loop over the SACK blocks: \<open>n\<close> blocks from offset \<open>8 * k\<close>.\<close>

fun readBlocks :: "byte list \<Rightarrow> nat \<Rightarrow> nat \<Rightarrow> (u32 \<times> u32) list option" where
  "readBlocks val k 0 = Some []"
| "readBlocks val k (Suc n) = do {
     l \<leftarrow> Be32 val (k * 8);
     r \<leftarrow> Be32 val (k * 8 + 4);
     bs \<leftarrow> readBlocks val (Suc k) n;
     Some ((l, r) # bs) }"

definition optSwitch :: "byte \<Rightarrow> nat \<Rightarrow> byte list \<Rightarrow> TCPOptions \<Rightarrow> (optError + TCPOptions) option" where
  "optSwitch kind len val o' =
     (if kind = optMSS then
        if len \<noteq> 4 then Some (Inl errBadOption)
        else do { m \<leftarrow> Be16 val 0; Some (Inr (o'\<lparr>HasMSS := True, MSS := m\<rparr>)) }
      else if kind = optWScale then
        if len \<noteq> 3 then Some (Inl errBadOption)
        else do { s \<leftarrow> goIdx val 0; Some (Inr (o'\<lparr>HasWScale := True, WindowScale := clampWScale s\<rparr>)) }
      else if kind = optSACKPerm then
        if len \<noteq> 2 then Some (Inl errBadOption)
        else Some (Inr (o'\<lparr>SACKPermitted := True\<rparr>))
      else if kind = optSACK then
        if len < 2 \<or> (len - 2) mod 8 \<noteq> 0 then Some (Inl errBadOption)
        else do { bs \<leftarrow> readBlocks val 0 ((len - 2) div 8);
                  Some (Inr (o'\<lparr>SACKBlocks := SACKBlocks o' @ bs\<rparr>)) }
      else if kind = optTimestamp then
        if len \<noteq> 10 then Some (Inl errBadOption)
        else do { v \<leftarrow> Be32 val 0; e \<leftarrow> Be32 val 4;
                  Some (Inr (o'\<lparr>HasTimestamp := True, TSVal := v, TSecr := e\<rparr>)) }
      else Some (Inr o'))"

function parseOpts :: "byte list \<Rightarrow> nat \<Rightarrow> TCPOptions \<Rightarrow> (optError + TCPOptions) option" where
  "parseOpts b i o' =
     (if i < length b then do {
        kind \<leftarrow> goIdx b i;
        if kind = optEOL then Some (Inr o')
        else if kind = optNOP then parseOpts b (i + 1) o'
        else if i + 1 \<ge> length b then Some (Inl errBadOption)
        else do {
          l \<leftarrow> goIdx b (i + 1);
          if unat l < 2 \<or> i + unat l > length b then Some (Inl errBadOption)
          else do {
            val \<leftarrow> goSlice b (i + 2) (i + unat l);
            r \<leftarrow> optSwitch kind (unat l) val o';
            case r of Inl e \<Rightarrow> Some (Inl e) | Inr o'' \<Rightarrow> parseOpts b (i + unat l) o''
          } } }
      else Some (Inr o'))"
  by pat_completeness auto
termination
  by (relation "measure (\<lambda>(b, i, o'). length b - i)") auto

declare parseOpts.simps [simp del]

definition ParseTCPOptions :: "byte list \<Rightarrow> (optError + TCPOptions) option" where
  "ParseTCPOptions b = parseOpts b 0 noOptions"

definition be32_list :: "u32 \<Rightarrow> byte list" where
  "be32_list v = [ucast (drop_bit 24 v), ucast (drop_bit 16 v), ucast (drop_bit 8 v), ucast v]"

definition appendBe32 :: "byte list \<Rightarrow> u32 \<Rightarrow> byte list" where
  "appendBe32 b v = b @ be32_list v"

fun appendBlocks :: "byte list \<Rightarrow> (u32 \<times> u32) list \<Rightarrow> byte list" where
  "appendBlocks b [] = b"
| "appendBlocks b ((l, r) # bs) = appendBlocks (appendBe32 (appendBe32 b l) r) bs"

function padNop :: "byte list \<Rightarrow> byte list" where
  "padNop b = (if length b mod 4 \<noteq> 0 then padNop (b @ [optNOP]) else b)"
  by pat_completeness auto
termination
  by (relation "measure (\<lambda>b. (3 * length b) mod 4)") (simp, simp, presburger)

declare padNop.simps [simp del]

definition MarshalOptions :: "TCPOptions \<Rightarrow> byte list" where
  "MarshalOptions o' =
     (let b = [];
          b = (if HasMSS o' then b @ [optMSS, 4, ucast (drop_bit 8 (MSS o')), ucast (MSS o')] else b);
          b = (if HasWScale o' then b @ [optWScale, 3, clampWScale (WindowScale o')] else b);
          b = (if SACKPermitted o' then b @ [optSACKPerm, 2] else b);
          b = (if HasTimestamp o'
               then appendBe32 (appendBe32 (b @ [optTimestamp, 10]) (TSVal o')) (TSecr o') else b);
          b = (if length (SACKBlocks o') > 0
               then appendBlocks (b @ [optSACK, of_nat (2 + length (SACKBlocks o') * 8)]) (SACKBlocks o')
               else b)
      in padNop b)"

definition DataOffsetForOptions :: "nat \<Rightarrow> u8" where
  "DataOffsetForOptions optLen = of_nat (5 + (optLen + 3) div 4)"

subsection \<open>No input makes the parser panic\<close>

lemma readBlocks_in:
  "(k + n) * 8 \<le> length val \<Longrightarrow> readBlocks val k n \<noteq> None"
proof (induction n arbitrary: k)
  case (Suc n)
  then obtain bs where "readBlocks val (Suc k) n = Some bs" by fastforce
  with Suc.prems show ?case by (simp add: Be32_in)
qed simp

lemma optSwitch_no_panic:
  assumes "2 \<le> len" "length val = len - 2"
  shows "optSwitch kind len val o' \<noteq> None"
proof (cases "kind = optSACK")
  case True
  have "(0 + (len - 2) div 8) * 8 \<le> length val" using assms by simp
  from readBlocks_in [OF this] True show ?thesis by (auto simp: optSwitch_def)
next
  case False
  then show ?thesis using assms by (simp add: optSwitch_def Be16_in Be32_in goIdx_def)
qed

lemma parseOpts_no_panic: "parseOpts b i o' \<noteq> None"
proof (induction b i o' rule: parseOpts.induct)
  case (1 b i o')
  show ?case
  proof (cases "i + 1 < length b \<and> 2 \<le> unat (b ! (i + 1)) \<and> i + unat (b ! (i + 1)) \<le> length b")
    case True
    let ?l = "unat (b ! (i + 1))" and ?val = "take (unat (b ! (i + 1)) - 2) (drop (i + 2) b)"
    obtain r where "optSwitch (b ! i) ?l ?val o' = Some r"
      using optSwitch_no_panic [of ?l ?val "b ! i" o'] True by auto
    with 1 True show ?thesis
      by (subst parseOpts.simps) (auto split: sum.splits)
  next
    case False
    with 1 show ?thesis by (subst parseOpts.simps) auto
  qed
qed

lemma ParseTCPOptions_no_panic: "ParseTCPOptions b \<noteq> None"
  by (simp add: ParseTCPOptions_def parseOpts_no_panic del: not_None_eq)

subsection \<open>Lengths\<close>

lemma length_be32_list [simp, codec]: "length (be32_list v) = 4"
  by (simp add: be32_list_def)

lemma padNop_eq: "padNop b = b @ replicate ((3 * length b) mod 4) optNOP"
proof (induction b rule: padNop.induct)
  case (1 b)
  show ?case
  proof (cases "length b mod 4 = 0")
    case True
    then have "(3 * length b) mod 4 = 0" by presburger
    with True show ?thesis by (simp add: padNop.simps [of b])
  next
    case False
    then have "(3 * length b) mod 4 = Suc ((3 * length (b @ [optNOP])) mod 4)"
      by simp presburger
    with 1 False show ?thesis by (simp add: padNop.simps [of b] del: length_append)
  qed
qed

lemma length_padNop: "4 dvd length (padNop b)" "length (padNop b) < length b + 4"
  unfolding padNop_eq by (simp, presburger) (simp add: less_Suc_eq_le)

lemma appendBlocks_eq:
  "appendBlocks b bs = b @ concat (map (\<lambda>(l, r). be32_list l @ be32_list r) bs)"
  by (induction bs arbitrary: b rule: list.induct) (auto simp: appendBe32_def)

definition blockBytes :: "(u32 \<times> u32) list \<Rightarrow> byte list" where
  "blockBytes bs = concat (map (\<lambda>(l, r). be32_list l @ be32_list r) bs)"

lemma length_blockBytes [simp, codec]: "length (blockBytes bs) = 8 * length bs"
  by (induction bs) (auto simp: blockBytes_def)

text \<open>The option area before padding, field by field.\<close>

definition optionBytes :: "TCPOptions \<Rightarrow> byte list" where
  "optionBytes o' =
     (if HasMSS o' then [optMSS, 4, ucast (drop_bit 8 (MSS o')), ucast (MSS o')] else []) @
     (if HasWScale o' then [optWScale, 3, clampWScale (WindowScale o')] else []) @
     (if SACKPermitted o' then [optSACKPerm, 2] else []) @
     (if HasTimestamp o'
      then [optTimestamp, 10] @ be32_list (TSVal o') @ be32_list (TSecr o') else []) @
     (if SACKBlocks o' \<noteq> []
      then [optSACK, of_nat (2 + length (SACKBlocks o') * 8)] @ blockBytes (SACKBlocks o')
      else [])"

lemma MarshalOptions_eq: "MarshalOptions o' = padNop (optionBytes o')"
  by (simp add: MarshalOptions_def optionBytes_def Let_def appendBe32_def appendBlocks_eq
      blockBytes_def)

lemma length_optionBytes:
  "length (optionBytes o') =
     (if HasMSS o' then 4 else 0) + (if HasWScale o' then 3 else 0) +
     (if SACKPermitted o' then 2 else 0) + (if HasTimestamp o' then 10 else 0) +
     (if SACKBlocks o' \<noteq> [] then 2 + 8 * length (SACKBlocks o') else 0)"
  by (simp add: optionBytes_def)

lemma length_MarshalOptions:
  "4 dvd length (MarshalOptions o')"
  "length (MarshalOptions o') < length (optionBytes o') + 4"
  by (simp_all add: MarshalOptions_eq length_padNop)

subsection \<open>Parsing what was marshalled\<close>

lemma parseOpts_append:
  "parseOpts (pre @ b) (length pre + i) o' = parseOpts b i o'"
proof (induction b i o' rule: parseOpts.induct)
  case (1 b i o')
  have idx: "goIdx (pre @ b) (length pre + j) = goIdx b j" for j
    by (simp add: goIdx_def)
  have slc: "goSlice (pre @ b) (length pre + j) (length pre + k) = goSlice b j k" for j k
    by (simp add: goSlice_def)
  show ?case
  proof (cases "i < length b")
    case False
    then show ?thesis by (simp add: parseOpts.simps)
  next
    case True
    note IH = "1.IH" [OF True, of "b ! i"]
    show ?thesis
    proof (cases "b ! i = optEOL \<or> b ! i = optNOP \<or> length b \<le> i + 1")
      case True
      then show ?thesis using \<open>i < length b\<close> IH(1)
        by (subst (1 2) parseOpts.simps) (auto simp: idx [of i] add.assoc)
    next
      case False
      let ?l = "unat (b ! (i + 1))"
      show ?thesis
      proof (cases "?l < 2 \<or> length b < i + ?l")
        case True
        then show ?thesis using False \<open>i < length b\<close>
          by (subst (1 2) parseOpts.simps) (auto simp: idx [of i] idx [of "i + 1", simplified])
      next
        case in_range: False
        have IH2: "parseOpts (pre @ b) (length pre + (i + ?l)) x = parseOpts b (i + ?l) x"
          if "optSwitch (b ! i) ?l (take (?l - 2) (drop (i + 2) b)) o' = Some (Inr x)" for x
          using False \<open>i < length b\<close> in_range that by (intro "1.IH"(2)) auto
        show ?thesis using False \<open>i < length b\<close> in_range
          by (subst (1 2) parseOpts.simps)
            (auto simp: idx [of i] idx [of "i + 1", simplified] add.assoc
              slc [of "i + 2" "i + ?l", simplified] IH2 [simplified] split: sum.splits bind_splits)
      qed
    qed
  qed
qed


lemma parseOpts_at: "parseOpts (pre @ b) (length pre) o' = parseOpts b 0 o'"
  using parseOpts_append [of pre b 0 o'] by simp

text \<open>One option in front: the switch is applied and parsing goes on behind it.\<close>

lemma parseOpts_chunk:
  assumes "kind \<noteq> optEOL" "kind \<noteq> optNOP" "unat l = length val + 2"
  shows "parseOpts (kind # l # val @ rest) 0 o' =
    (case optSwitch kind (length val + 2) val o' of None \<Rightarrow> None
     | Some (Inl e) \<Rightarrow> Some (Inl e) | Some (Inr o'') \<Rightarrow> parseOpts rest 0 o'')"
proof -
  have at: "parseOpts (kind # l # val @ rest) (Suc (Suc (length val))) x = parseOpts rest 0 x" for x
    using parseOpts_at [of "kind # l # val" rest x] by simp
  show ?thesis
    using assms
    by (subst parseOpts.simps) (auto simp: at split: option.splits sum.splits)
qed

lemma parseOpts_nops: "parseOpts (replicate n optNOP) 0 o' = Some (Inr o')"
proof (induction n)
  case (Suc n)
  have "parseOpts (replicate (Suc n) optNOP) 0 o' = parseOpts ([optNOP] @ replicate n optNOP) 1 o'"
    by (subst parseOpts.simps) simp
  also have "\<dots> = parseOpts (replicate n optNOP) 0 o'"
    using parseOpts_at [of "[optNOP]" "replicate n optNOP" o'] by simp
  finally show ?case using Suc by simp
qed (simp add: parseOpts.simps)

lemma parse_MSS:
  "parseOpts (optMSS # 4 # ucast (drop_bit 8 m) # ucast m # rest) 0 o' =
     parseOpts rest 0 (o'\<lparr>HasMSS := True, MSS := m\<rparr>)"
  using parseOpts_chunk [of optMSS 4 "[ucast (drop_bit 8 m), ucast m]" rest o']
  by (simp add: optSwitch_def Be16_in be16_split)

lemma parse_WScale:
  "parseOpts (optWScale # 3 # s # rest) 0 o' =
     parseOpts rest 0 (o'\<lparr>HasWScale := True, WindowScale := clampWScale s\<rparr>)"
  using parseOpts_chunk [of optWScale 3 "[s]" rest o'] by (simp add: optSwitch_def)

lemma parse_SACKPerm:
  "parseOpts (optSACKPerm # 2 # rest) 0 o' = parseOpts rest 0 (o'\<lparr>SACKPermitted := True\<rparr>)"
  using parseOpts_chunk [of optSACKPerm 2 "[]" rest o'] by (simp add: optSwitch_def)

lemma Be32_be32_list: "Be32 (pre @ be32_list v @ rest) (length pre) = Some v"
  by (simp add: Be32_in be32_list_def nth_append be32_split)

lemma parse_Timestamp:
  "parseOpts (optTimestamp # 10 # be32_list v @ be32_list e @ rest) 0 o' =
     parseOpts rest 0 (o'\<lparr>HasTimestamp := True, TSVal := v, TSecr := e\<rparr>)"
  using parseOpts_chunk [of optTimestamp 10 "be32_list v @ be32_list e" rest o']
    Be32_be32_list [of "[]" v "be32_list e"] Be32_be32_list [of "be32_list v" e "[]"]
  by (simp add: optSwitch_def)

lemma readBlocks_blockBytes:
  "length pre = 8 * k \<Longrightarrow> readBlocks (pre @ blockBytes bs) k (length bs) = Some bs"
proof (induction bs arbitrary: pre k)
  case (Cons b bs)
  obtain l r where b: "b = (l, r)" by (cases b)
  have eq: "pre @ blockBytes (b # bs) = (pre @ be32_list l @ be32_list r) @ blockBytes bs"
    by (simp add: b blockBytes_def)
  have "readBlocks (pre @ blockBytes (b # bs)) (Suc k) (length bs) = Some bs"
    unfolding eq using Cons.prems by (intro Cons.IH) simp
  moreover have "Be32 (pre @ blockBytes (b # bs)) (k * 8) = Some l"
    using Be32_be32_list [of pre l "be32_list r @ blockBytes bs"] Cons.prems
    by (simp add: b blockBytes_def mult.commute)
  moreover have "Be32 (pre @ blockBytes (b # bs)) (k * 8 + 4) = Some r"
    using Be32_be32_list [of "pre @ be32_list l" r "blockBytes bs"] Cons.prems
    by (simp add: b blockBytes_def mult.commute)
  ultimately show ?case by (simp add: b)
qed simp

lemma parse_SACK:
  assumes "length bs \<le> 31"
  shows "parseOpts (optSACK # of_nat (2 + length bs * 8) # blockBytes bs @ rest) 0 o' =
     parseOpts rest 0 (o'\<lparr>SACKBlocks := SACKBlocks o' @ bs\<rparr>)"
proof -
  have "unat (of_nat (2 + length bs * 8) :: byte) = length (blockBytes bs) + 2"
    using assms unfolding unat_of_nat by simp
  from parseOpts_chunk [OF _ _ this, of optSACK rest o'] show ?thesis
    using readBlocks_blockBytes [of "[]" 0 bs] by (simp add: optSwitch_def)
qed

text \<open>
  What the round trip returns: fields whose flag is off come back as zero, and the window
  scale is clamped.
\<close>

definition wireOptions :: "TCPOptions \<Rightarrow> TCPOptions" where
  "wireOptions o' = \<lparr>
     MSS = (if HasMSS o' then MSS o' else 0), HasMSS = HasMSS o',
     WindowScale = (if HasWScale o' then clampWScale (WindowScale o') else 0), HasWScale = HasWScale o',
     TSVal = (if HasTimestamp o' then TSVal o' else 0),
     TSecr = (if HasTimestamp o' then TSecr o' else 0), HasTimestamp = HasTimestamp o',
     SACKPermitted = SACKPermitted o', SACKBlocks = SACKBlocks o'\<rparr>"

lemma clampWScale_clamp [simp]: "clampWScale (clampWScale s) = clampWScale s"
  by (simp add: clampWScale_def)

lemma clampWScale_le: "unat (clampWScale s) \<le> 14"
  by (simp add: clampWScale_def maxWScale_def word_less_nat_alt)

lemma parseOpts_optionBytes:
  assumes "length (SACKBlocks o') \<le> 31"
  shows "parseOpts (optionBytes o' @ replicate n optNOP) 0 noOptions = Some (Inr (wireOptions o'))"
proof -
  have mss: "parseOpts ((if c then [optMSS, 4, ucast (drop_bit 8 m), ucast m] else []) @ rest) 0 x =
      parseOpts rest 0 (if c then x\<lparr>HasMSS := True, MSS := m\<rparr> else x)" for c m rest x
    by (simp add: parse_MSS)
  have ws: "parseOpts ((if c then [optWScale, 3, w] else []) @ rest) 0 x =
      parseOpts rest 0 (if c then x\<lparr>HasWScale := True, WindowScale := clampWScale w\<rparr> else x)" for c w rest x
    by (simp add: parse_WScale)
  have perm: "parseOpts ((if c then [optSACKPerm, 2] else []) @ rest) 0 x =
      parseOpts rest 0 (if c then x\<lparr>SACKPermitted := True\<rparr> else x)" for c rest x
    by (simp add: parse_SACKPerm)
  have ts: "parseOpts ((if c then [optTimestamp, 10] @ be32_list v @ be32_list e else []) @ rest) 0 x =
      parseOpts rest 0 (if c then x\<lparr>HasTimestamp := True, TSVal := v, TSecr := e\<rparr> else x)" for c v e rest x
    by (simp add: parse_Timestamp)
  have sack: "parseOpts ((if c then [optSACK, of_nat (2 + length (SACKBlocks o') * 8)] @
        blockBytes (SACKBlocks o') else []) @ rest) 0 x =
      parseOpts rest 0 (if c then x\<lparr>SACKBlocks := SACKBlocks x @ SACKBlocks o'\<rparr> else x)" for c rest x
    using parse_SACK [OF assms] by (simp del: of_nat_add of_nat_mult)
  show ?thesis
    by (simp only: optionBytes_def append_assoc mss ws perm ts sack parseOpts_nops)
      (auto simp: noOptions_def wireOptions_def)
qed

lemma ParseTCPOptions_Marshal:
  assumes "length (SACKBlocks o') \<le> 31"
  shows "ParseTCPOptions (MarshalOptions o') = Some (Inr (wireOptions o'))"
  by (simp add: ParseTCPOptions_def MarshalOptions_eq padNop_eq parseOpts_optionBytes [OF assms])

section \<open>Properties\<close>

text \<open>
  C30: TCP options are read back as they were written: whatever set of options is
  marshalled, with up to 31 SACK blocks, parsing the padded area returns exactly these
  options, the window scale clamped to 14.
\<close>

theorem options_roundtrip:
  assumes "length (SACKBlocks opts) \<le> 31"
  shows "ParseTCPOptions (MarshalOptions opts) = Some (Inr (wireOptions opts))"
  by (rule ParseTCPOptions_Marshal [OF assms])

theorem options_roundtrip_witness:
  "ParseTCPOptions (MarshalOptions (noOptions\<lparr>HasMSS := True, MSS := 1360\<rparr>)) =
     Some (Inr (noOptions\<lparr>HasMSS := True, MSS := 1360\<rparr>))"
  by (subst options_roundtrip) (simp_all add: noOptions_def wireOptions_def)

end
