(* ===== verification/Tcp_Header.thy ===== *)
theory Tcp_Header
  imports Net_Checksum Tcp_Options
begin

unbundle bit_operations_syntax

section \<open>TCP headers (tcp/transport/header.go)\<close>

text \<open>
  The control bits, the header record, \<open>MarshalTCP\<close> and \<open>ParseTCPHeader\<close>. The field
  names are those of the Go struct, prefixed with \<open>Hdr\<close> where they clash with a type or a
  function (\<^theory_text>\<open>Flags\<close>, \<^theory_text>\<open>Checksum\<close>).
\<close>

type_synonym Flags = u8

definition FlagFIN :: Flags where "FlagFIN = push_bit 0 1"
definition FlagSYN :: Flags where "FlagSYN = push_bit 1 1"
definition FlagRST :: Flags where "FlagRST = push_bit 2 1"
definition FlagPSH :: Flags where "FlagPSH = push_bit 3 1"
definition FlagACK :: Flags where "FlagACK = push_bit 4 1"
definition FlagURG :: Flags where "FlagURG = push_bit 5 1"

definition Has :: "Flags \<Rightarrow> Flags \<Rightarrow> bool" where
  "Has f x = (f AND x \<noteq> 0)"

text \<open>\<^theory_text>\<open>Flags.String\<close>, for the log.\<close>

definition FlagsString :: "Flags \<Rightarrow> string" where
  "FlagsString f =
     (let names = [(FlagSYN, ''SYN''), (FlagACK, ''ACK''), (FlagFIN, ''FIN''),
                   (FlagRST, ''RST''), (FlagPSH, ''PSH''), (FlagURG, ''URG'')];
          s = foldl (\<lambda>s (b, name). if Has f b
                then (if s \<noteq> '''' then s @ ''|'' else s) @ name else s) '''' names
      in if s = '''' then ''-'' else s)"

record TCPHeader =
  SrcPort :: u16
  DstPort :: u16
  SeqNum :: u32
  AckNum :: u32
  DataOffset :: u8
  HdrFlags :: Flags
  Window :: u16
  HdrChecksum :: u16
  UrgentPtr :: u16
  Options :: "byte list"

datatype tcpError = errTCPShort | errTCPDataOffset

definition MarshalTCP :: "TCPHeader \<Rightarrow> byte list" where
  "MarshalTCP h =
     (let b = replicate (20 + length (Options h)) 0;
          b = PutBe16 b 0 (SrcPort h);
          b = PutBe16 b 2 (DstPort h);
          b = PutBe32 b 4 (SeqNum h);
          b = PutBe32 b 8 (AckNum h);
          b = b[12 := push_bit 4 (DataOffsetForOptions (length (Options h)))];
          b = b[13 := HdrFlags h AND 0x3F];
          b = PutBe16 b 14 (Window h);
          b = PutBe16 b 16 (HdrChecksum h);
          b = PutBe16 b 18 (UrgentPtr h)
      in copyInto b 20 (Options h))"

definition ParseTCPHeader :: "byte list \<Rightarrow> (tcpError + TCPHeader) option" where
  "ParseTCPHeader b =
     (if length b < 20 then Some (Inl errTCPShort)
      else do {
        b12 \<leftarrow> goIdx b 12;
        let dataOffset = drop_bit 4 b12;
        if dataOffset < 5 then Some (Inl errTCPDataOffset)
        else if length b < unat dataOffset * 4 then Some (Inl errTCPShort)
        else do {
          let hdrLen = unat dataOffset * 4;
          opts \<leftarrow> (if hdrLen > 20 then goSlice b 20 hdrLen else Some []);
          sport \<leftarrow> Be16 b 0;
          dport \<leftarrow> Be16 b 2;
          sq \<leftarrow> Be32 b 4;
          ack \<leftarrow> Be32 b 8;
          b13 \<leftarrow> goIdx b 13;
          wnd \<leftarrow> Be16 b 14;
          ck \<leftarrow> Be16 b 16;
          urg \<leftarrow> Be16 b 18;
          Some (Inr \<lparr>SrcPort = sport, DstPort = dport, SeqNum = sq, AckNum = ack,
            DataOffset = dataOffset, HdrFlags = b13 AND 0x3F, Window = wnd,
            HdrChecksum = ck, UrgentPtr = urg, Options = opts\<rparr>)
        } })"

subsection \<open>Flags\<close>

lemmas flag_defs = FlagFIN_def FlagSYN_def FlagRST_def FlagPSH_def FlagACK_def FlagURG_def

lemma Has_or: "Has (f OR g) x \<longleftrightarrow> Has f x \<or> Has g x"
  by (simp add: Has_def bit.conj_disj_distrib2 or_eq_0_iff)

lemma Has_flag [simp]:
  "Has FlagFIN FlagFIN" "\<not> Has FlagFIN FlagSYN" "\<not> Has FlagFIN FlagRST" "\<not> Has FlagFIN FlagACK"
  "Has FlagSYN FlagSYN" "\<not> Has FlagSYN FlagFIN" "\<not> Has FlagSYN FlagRST" "\<not> Has FlagSYN FlagACK"
  "Has FlagRST FlagRST" "\<not> Has FlagRST FlagFIN" "\<not> Has FlagRST FlagSYN" "\<not> Has FlagRST FlagACK"
  "Has FlagACK FlagACK" "\<not> Has FlagACK FlagFIN" "\<not> Has FlagACK FlagSYN" "\<not> Has FlagACK FlagRST"
  "\<not> Has FlagPSH FlagFIN" "\<not> Has FlagPSH FlagSYN" "\<not> Has FlagPSH FlagRST" "\<not> Has FlagPSH FlagACK"
  by (simp_all add: Has_def flag_defs)

lemma flags_low: "FlagFIN AND 0x3F = FlagFIN" "FlagSYN AND 0x3F = FlagSYN"
  "FlagRST AND 0x3F = FlagRST" "FlagPSH AND 0x3F = FlagPSH" "FlagACK AND 0x3F = FlagACK"
  by (simp_all add: flag_defs)

lemma low_or: "f AND 0x3F = f \<Longrightarrow> g AND 0x3F = g \<Longrightarrow> (f OR g) AND 0x3F = f OR (g :: Flags)"
  by (simp add: bit.conj_disj_distrib2)

subsection \<open>Marshal\<close>

definition tcpBytes :: "TCPHeader \<Rightarrow> u16 \<Rightarrow> byte list" where
  "tcpBytes h ck =
     [ucast (drop_bit 8 (SrcPort h)), ucast (SrcPort h),
      ucast (drop_bit 8 (DstPort h)), ucast (DstPort h)] @
     be32_list (SeqNum h) @ be32_list (AckNum h) @
     [push_bit 4 (DataOffsetForOptions (length (Options h))), HdrFlags h AND 0x3F,
      ucast (drop_bit 8 (Window h)), ucast (Window h),
      ucast (drop_bit 8 ck), ucast ck,
      ucast (drop_bit 8 (UrgentPtr h)), ucast (UrgentPtr h)] @ Options h"

lemma length_tcpBytes [simp, codec]: "length (tcpBytes h ck) = 20 + length (Options h)"
  by (simp add: tcpBytes_def)

lemma MarshalTCP_bytes: "MarshalTCP h = tcpBytes h (HdrChecksum h)"
proof -
  have "replicate (20 + n) (0::byte) = [0,0,0,0,0,0,0,0,0,0,0,0,0,0,0,0,0,0,0,0] @ replicate n 0" for n
    by (simp add: numeral_eq_Suc)
  then show ?thesis
    by (simp add: MarshalTCP_def tcpBytes_def Let_def PutBe16_def PutBe32_def copyInto_def
        be32_list_def numeral_eq_Suc)
qed

lemma length_MarshalTCP [simp, codec]: "length (MarshalTCP h) = 20 + length (Options h)"
  by (simp add: MarshalTCP_bytes)

lemma tcpBytes_put: "PutBe16 (tcpBytes h ck @ rest) 16 ck' = tcpBytes h ck' @ rest"
  by (simp add: tcpBytes_def PutBe16_def be32_list_def numeral_eq_Suc)

lemma wordAt_tcpBytes: "wordAt (tcpBytes h 0 @ rest) 16 = 0"
  by (simp add: tcpBytes_def wordAt_def be32_list_def)

lemma tcpBytes_reads:
  "Be16 (tcpBytes h ck @ rest) 0 = Some (SrcPort h)"
  "Be16 (tcpBytes h ck @ rest) 2 = Some (DstPort h)"
  "Be32 (tcpBytes h ck @ rest) 4 = Some (SeqNum h)"
  "Be32 (tcpBytes h ck @ rest) 8 = Some (AckNum h)"
  "goIdx (tcpBytes h ck @ rest) 12 = Some (push_bit 4 (DataOffsetForOptions (length (Options h))))"
  "goIdx (tcpBytes h ck @ rest) 13 = Some (HdrFlags h AND 0x3F)"
  "Be16 (tcpBytes h ck @ rest) 14 = Some (Window h)"
  "Be16 (tcpBytes h ck @ rest) 16 = Some ck"
  "Be16 (tcpBytes h ck @ rest) 18 = Some (UrgentPtr h)"
  by (simp_all add: tcpBytes_def Be16_in Be32_in goIdx_def be16_split be32_split be32_list_def
      nth_append)

lemma tcpBytes_options:
  "goSlice (tcpBytes h ck @ rest) 20 (20 + length (Options h)) = Some (Options h)"
  by (simp add: tcpBytes_def be32_list_def numeral_eq_Suc)

lemma drop_tcpBytes: "drop 20 (tcpBytes h ck) = Options h"
  by (simp add: tcpBytes_def be32_list_def)

subsection \<open>Parse\<close>

lemma DataOffsetForOptions_field:
  assumes "4 dvd n" "n \<le> 40"
  shows "drop_bit 4 (push_bit 4 (DataOffsetForOptions n)) = DataOffsetForOptions n"
    "unat (DataOffsetForOptions n) * 4 = 20 + n" "\<not> DataOffsetForOptions n < 5"
proof -
  obtain k where n: "n = 4 * k" using assms(1) by blast
  then have k: "k \<le> 10" "DataOffsetForOptions n = of_nat (5 + k)"
    using assms(2) by (auto simp: DataOffsetForOptions_def)
  from k(1) have "k = 0 \<or> k = 1 \<or> k = 2 \<or> k = 3 \<or> k = 4 \<or> k = 5 \<or> k = 6 \<or> k = 7 \<or> k = 8 \<or> k = 9 \<or> k = 10"
    by arith
  then show "drop_bit 4 (push_bit 4 (DataOffsetForOptions n)) = DataOffsetForOptions n"
    unfolding k(2) by (elim disjE) simp_all
  show u: "unat (DataOffsetForOptions n) * 4 = 20 + n"
    unfolding k(2) unat_of_nat using k(1) n by simp
  then show "\<not> DataOffsetForOptions n < 5"
    by (simp add: word_less_nat_alt)
qed

text \<open>
  What a header parses to: the data offset is the one Marshal computed, and only the six
  control bits survive.
\<close>

definition wireHeader :: "TCPHeader \<Rightarrow> u16 \<Rightarrow> TCPHeader" where
  "wireHeader h ck = h\<lparr>DataOffset := DataOffsetForOptions (length (Options h)),
     HdrFlags := HdrFlags h AND 0x3F, HdrChecksum := ck\<rparr>"

lemma ParseTCPHeader_tcpBytes:
  assumes "4 dvd length (Options h)" "length (Options h) \<le> 40"
  shows "ParseTCPHeader (tcpBytes h ck @ payload) = Some (Inr (wireHeader h ck))"
proof -
  note f = DataOffsetForOptions_field [OF assms]
  have opts: "(if unat (DataOffsetForOptions (length (Options h))) * 4 > 20
      then goSlice (tcpBytes h ck @ payload) 20 (unat (DataOffsetForOptions (length (Options h))) * 4)
      else Some []) = Some (Options h)"
    unfolding f(2) using tcpBytes_options [of h ck payload] by auto
  show ?thesis
    using f unfolding ParseTCPHeader_def
    by (cases h) (simp add: tcpBytes_reads opts wireHeader_def Let_def drop_tcpBytes)
qed

lemma ParseTCPHeader_no_panic: "ParseTCPHeader b \<noteq> None"
proof (cases "length b < 20")
  case True
  then show ?thesis by (simp add: ParseTCPHeader_def)
next
  case False
  then show ?thesis by (auto simp: ParseTCPHeader_def Let_def Be16_in Be32_in goSlice_def goIdx_def)
qed

lemma ParseTCPHeader_Inr:
  assumes "ParseTCPHeader b = Some (Inr h)"
  shows "20 \<le> length b" "5 \<le> unat (DataOffset h)" "unat (DataOffset h) * 4 \<le> length b"
  using assms by (auto simp: ParseTCPHeader_def Let_def word_less_nat_alt split: if_splits bind_splits)

end
