(* ===== verification/Tcp_Seq.thy ===== *)
theory Tcp_Seq
  imports Vibe_Prelude
begin

section \<open>Sequence numbers and timestamps (tcp/transport/seq.go, paws.go)\<close>

text \<open>
  The circular comparisons of the two files. \<open>SeqLT_dist\<close> and \<open>SeqLEQ_dist\<close> read them as
  bounds on the wrap-around distance, and \<open>SeqLT_pos\<close>, \<open>SeqLEQ_pos\<close> say that for two
  stream positions less than half the space apart they agree with the order of the positions:
  every argument about streams in this development goes through these four.
\<close>

definition halfSeqSpace :: u32 where
  "halfSeqSpace = 2147483648"

definition SeqLT :: "u32 \<Rightarrow> u32 \<Rightarrow> bool" where
  "SeqLT a b = (let d = b - a in d \<noteq> 0 \<and> d < halfSeqSpace)"

definition SeqLEQ :: "u32 \<Rightarrow> u32 \<Rightarrow> bool" where
  "SeqLEQ a b = (a = b \<or> SeqLT a b)"

definition SeqGT :: "u32 \<Rightarrow> u32 \<Rightarrow> bool" where
  "SeqGT a b = SeqLT b a"

definition AcceptableAck :: "u32 \<Rightarrow> u32 \<Rightarrow> u32 \<Rightarrow> bool" where
  "AcceptableAck una ack nxt = (SeqLT una ack \<and> SeqLEQ ack nxt)"

definition pawsStale :: "u32 \<Rightarrow> u32 \<Rightarrow> bool" where
  "pawsStale tsval recent = SeqLT tsval recent"

definition tsRecentUpdate :: "u32 \<Rightarrow> u32 \<Rightarrow> u32 \<Rightarrow> u32 \<Rightarrow> u32" where
  "tsRecentUpdate recent tsval sq lastAckSent =
     (if \<not> SeqLT tsval recent \<and> SeqLEQ sq lastAckSent then tsval else recent)"

subsection \<open>Distances\<close>

lemma halfSeqSpace_neg: "- halfSeqSpace = halfSeqSpace"
  by (simp add: halfSeqSpace_def)

lemma unat_halfSeqSpace: "unat halfSeqSpace = 2147483648"
  by (simp add: halfSeqSpace_def)

lemma SeqLT_dist: "SeqLT a b \<longleftrightarrow> 0 < dist a b \<and> dist a b < 2147483648"
  by (auto simp: SeqLT_def Let_def halfSeqSpace_def dist_def word_less_nat_alt unat_gt_0)

lemma SeqLEQ_dist: "SeqLEQ a b \<longleftrightarrow> dist a b < 2147483648"
  by (auto simp: SeqLEQ_def SeqLT_dist dist_gt_0_iff)

lemma SeqLT_irrefl [simp]: "\<not> SeqLT a a"
  by (simp add: SeqLT_dist)

lemma SeqLEQ_refl [simp]: "SeqLEQ a a"
  by (simp add: SeqLEQ_def)

lemma SeqLT_imp_SeqLEQ: "SeqLT a b \<Longrightarrow> SeqLEQ a b"
  by (simp add: SeqLEQ_def)

lemma dist_rev: "a \<noteq> b \<Longrightarrow> dist b a = 4294967296 - dist a b"
proof -
  assume "a \<noteq> b"
  then have "unat a \<noteq> unat b" unfolding word_unat_eq_iff .
  then show ?thesis
    using unat_u32_less [of a] unat_u32_less [of b] by (simp add: dist_def unat_u32_diff)
qed

lemma SeqLT_asym: "SeqLT a b \<Longrightarrow> \<not> SeqLT b a"
  by (cases "a = b") (auto simp: SeqLT_dist dist_rev [of a b])

lemma SeqLEQ_antisym: "SeqLEQ a b \<Longrightarrow> SeqLEQ b a \<Longrightarrow> a = b"
  by (auto simp: SeqLEQ_def dest: SeqLT_asym)

text \<open>
  Two different numbers are ordered one way or the other unless they are exactly half the
  space apart: there both comparisons are false, as the comment of seq.go says.
\<close>

lemma SeqLT_total: "a \<noteq> b \<Longrightarrow> b - a \<noteq> halfSeqSpace \<Longrightarrow> SeqLT a b \<or> SeqLT b a"
proof -
  assume "a \<noteq> b" "b - a \<noteq> halfSeqSpace"
  then have "dist a b \<noteq> 2147483648"
    unfolding dist_def word_unat_eq_iff unat_halfSeqSpace by simp
  with \<open>a \<noteq> b\<close> dist_less [of a b] show ?thesis
    by (auto simp: SeqLT_dist dist_rev [of a b] dist_gt_0_iff)
qed

lemma SeqLT_antipode: "b - a = halfSeqSpace \<Longrightarrow> \<not> SeqLT a b \<and> \<not> SeqLT b a"
proof -
  assume h: "b - a = halfSeqSpace"
  then have "a \<noteq> b" by (auto simp: halfSeqSpace_def)
  moreover have "dist a b = 2147483648" by (simp add: dist_def h halfSeqSpace_def)
  ultimately show ?thesis by (simp add: SeqLT_dist dist_rev [of a b])
qed

lemma SeqLT_shift: "SeqLT (a + k) (b + k) = SeqLT a b"
  by (simp add: SeqLT_def)

lemma SeqLEQ_shift: "SeqLEQ (a + k) (b + k) = SeqLEQ a b"
  by (simp add: SeqLEQ_def SeqLT_shift)

subsection \<open>Positions\<close>

lemma dist_pos:
  assumes "p \<le> q" "q - p < 4294967296"
  shows "dist (base + of_nat p) (base + of_nat q) = q - p"
proof -
  have "(base + of_nat q) - (base + of_nat p) = (of_nat (q - p) :: u32)"
    using assms(1) by simp
  then show ?thesis using assms(2) by (simp add: dist_def unat_u32_of_nat)
qed

lemma dist_pos_rev:
  assumes "q < p" "p - q < 4294967296"
  shows "dist (base + of_nat p) (base + of_nat q) = 4294967296 - (p - q)"
proof -
  have d: "dist (base + of_nat q) (base + of_nat p) = p - q"
    using assms by (intro dist_pos) auto
  have "0 < dist (base + of_nat q) (base + of_nat p)"
    unfolding d using assms(1) by simp
  then have "base + of_nat q \<noteq> (base + of_nat p :: u32)"
    by (simp only: dist_gt_0_iff not_False_eq_True)
  then show ?thesis using dist_rev [of "base + of_nat q" "base + of_nat p"] d by simp
qed

lemma SeqLT_pos:
  assumes "p < q + 2147483648" "q < p + 2147483648"
  shows "SeqLT (base + of_nat p) (base + of_nat q) \<longleftrightarrow> p < q"
proof (cases "p \<le> q")
  case True
  then show ?thesis using assms by (auto simp: SeqLT_dist dist_pos)
next
  case False
  then show ?thesis using assms by (auto simp: SeqLT_dist dist_pos_rev)
qed

lemma pos_eq_iff:
  assumes "p < q + 2147483648" "q < p + 2147483648"
  shows "base + of_nat p = (base + of_nat q :: u32) \<longleftrightarrow> p = q"
proof
  assume eq: "base + of_nat p = (base + of_nat q :: u32)"
  show "p = q"
  proof (rule ccontr)
    assume "p \<noteq> q"
    then consider "p < q" | "q < p" by linarith
    then show False
      using SeqLT_pos [of p q base] SeqLT_pos [of q p base] assms eq by cases auto
  qed
qed simp

lemma SeqLEQ_pos:
  assumes "p < q + 2147483648" "q < p + 2147483648"
  shows "SeqLEQ (base + of_nat p) (base + of_nat q) \<longleftrightarrow> p \<le> q"
  using SeqLT_pos [OF assms] pos_eq_iff [OF assms] by (auto simp: SeqLEQ_def)

lemmas seq_pos = SeqLT_pos SeqLEQ_pos pos_eq_iff

text \<open>Transitivity holds while the whole chain stays below half the space.\<close>

lemma dist_add: "dist a b + dist b c < 4294967296 \<Longrightarrow> dist a c = dist a b + dist b c"
proof -
  assume s: "dist a b + dist b c < 4294967296"
  have "c - a = (b - a) + (c - b)" by simp
  then have "unat (c - a) = (unat (b - a) + unat (c - b)) mod 4294967296"
    by (simp only: unat_u32_add)
  with s show ?thesis by (simp add: dist_def)
qed

lemma SeqLT_trans:
  "SeqLT a b \<Longrightarrow> SeqLT b c \<Longrightarrow> dist a b + dist b c < 2147483648 \<Longrightarrow> SeqLT a c"
  using dist_add [of a b c] by (simp add: SeqLT_dist)

lemma SeqLEQ_trans:
  "dist a b + dist b c < 2147483648 \<Longrightarrow> SeqLEQ a c"
  using dist_add [of a b c] by (simp add: SeqLEQ_dist)

text \<open>
  A value that is not below a bound and not at its antipode is at or after it.
\<close>

lemma not_SeqLT_SeqLEQ: "\<not> SeqLT a b \<Longrightarrow> b - a \<noteq> halfSeqSpace \<Longrightarrow> SeqLEQ b a"
  using SeqLT_total [of a b] by (auto simp: SeqLEQ_def)

lemma AcceptableAck_dist:
  "AcceptableAck una ack nxt \<longleftrightarrow>
     0 < dist una ack \<and> dist una ack < 2147483648 \<and> dist ack nxt < 2147483648"
  by (simp add: AcceptableAck_def SeqLT_dist SeqLEQ_dist)

text \<open>
  With at most half the space in flight an acceptable acknowledgement lies in the flight.
\<close>

lemma dist_between:
  assumes "dist una ack \<le> dist una nxt"
  shows "dist ack nxt = dist una nxt - dist una ack"
proof -
  have "dist (una + of_nat (dist una ack)) (una + of_nat (dist una nxt)) =
      dist una nxt - dist una ack"
    using assms dist_less [of una nxt] by (intro dist_pos) linarith+
  then show ?thesis by (simp only: add_dist)
qed

lemma AcceptableAck_inside:
  assumes "dist una nxt < 2147483648"
  shows "AcceptableAck una ack nxt \<longleftrightarrow> 0 < dist una ack \<and> dist una ack \<le> dist una nxt"
proof
  assume "AcceptableAck una ack nxt"
  then have h: "dist una ack < 2147483648" "dist ack nxt < 2147483648" "0 < dist una ack"
    by (simp_all add: AcceptableAck_dist)
  then have "dist una nxt = dist una ack + dist ack nxt"
    by (intro dist_add) linarith
  with h show "0 < dist una ack \<and> dist una ack \<le> dist una nxt" by linarith
next
  assume a: "0 < dist una ack \<and> dist una ack \<le> dist una nxt"
  then have "dist ack nxt = dist una nxt - dist una ack" by (intro dist_between) simp
  with a assms show "AcceptableAck una ack nxt" unfolding AcceptableAck_dist by linarith
qed

subsection \<open>PAWS\<close>

text \<open>
  TS.Recent moves only to a value that is at or after it (or exactly at its antipode, where
  the circular order is undefined), and only for a segment at or before Last.ACK.sent.
\<close>

lemma tsRecentUpdate_cases:
  "tsRecentUpdate recent tsval sq la = recent \<or>
   tsRecentUpdate recent tsval sq la = tsval \<and> \<not> pawsStale tsval recent \<and> SeqLEQ sq la"
  by (simp add: tsRecentUpdate_def pawsStale_def)

lemma tsRecentUpdate_mono:
  "tsval - recent \<noteq> halfSeqSpace \<Longrightarrow> SeqLEQ recent (tsRecentUpdate recent tsval sq la)"
proof -
  assume h: "tsval - recent \<noteq> halfSeqSpace"
  have "recent - tsval = - (tsval - recent)" by simp
  with h have "recent - tsval \<noteq> halfSeqSpace"
    using halfSeqSpace_neg by (metis add.inverse_inverse)
  then show ?thesis by (auto simp: tsRecentUpdate_def not_SeqLT_SeqLEQ)
qed

section \<open>Properties\<close>

text \<open>
  The sequence comparisons are the order of the byte positions. For any starting sequence
  number and any two positions of a stream less than 2^31 apart, \<open>SeqLT\<close>,
  \<open>SeqLEQ\<close> and \<open>SeqGT\<close> of their sequence numbers decide <, =< and
  > of the positions, also where the 32-bit number wraps around.
\<close>

theorem seq_order_is_position_order:
  assumes "p < q + 2147483648" "q < p + 2147483648"
  shows "(SeqLT (b + of_nat p) (b + of_nat q) \<longleftrightarrow> p < q) \<and>
    (SeqLEQ (b + of_nat p) (b + of_nat q) \<longleftrightarrow> p \<le> q) \<and>
    (SeqGT (b + of_nat p) (b + of_nat q) \<longleftrightarrow> q < p)"
  using SeqLT_pos [OF assms] SeqLEQ_pos [OF assms] SeqLT_pos [OF assms(2,1)] by (simp add: SeqGT_def)

theorem seq_order_is_position_order_witness:
  "SeqLT (4294967290 + of_nat 3) (4294967290 + of_nat 10)"
  using seq_order_is_position_order [of 3 10 4294967290] by simp

end
