(* ===== verification/Tcp_Rto.thy ===== *)
theory Tcp_Rto
  imports Vibe_Prelude
begin

section \<open>RTO estimation (tcp/transport/rto.go)\<close>

text \<open>
  The estimator of RFC 6298 in integer milliseconds, on 32-bit words as in the code.
\<close>

record rttEstimator =
  srtt :: u32
  rttvar :: u32
  gran :: u32

definition rtoMinMS :: u32 where "rtoMinMS = 1000"
definition kRTTVAR :: u32 where "kRTTVAR = 4"

definition absDiffU32 :: "u32 \<Rightarrow> u32 \<Rightarrow> u32" where
  "absDiffU32 a b = (if a > b then a - b else b - a)"

definition maxU32 :: "u32 \<Rightarrow> u32 \<Rightarrow> u32" where
  "maxU32 a b = (if a > b then a else b)"

definition minU32 :: "u32 \<Rightarrow> u32 \<Rightarrow> u32" where
  "minU32 a b = (if a < b then a else b)"

definition initEst :: "u32 \<Rightarrow> u32 \<Rightarrow> rttEstimator" where
  "initEst r g = \<lparr>srtt = r, rttvar = r div 2, gran = g\<rparr>"

definition UpdateEst :: "rttEstimator \<Rightarrow> u32 \<Rightarrow> rttEstimator" where
  "UpdateEst e r =
     (let rv = (3 * rttvar e + absDiffU32 (srtt e) r) div 4;
          sr = (7 * srtt e + r) div 8
      in \<lparr>srtt = sr, rttvar = rv, gran = gran e\<rparr>)"

definition Rto :: "rttEstimator \<Rightarrow> u32" where
  "Rto e = (let raw = srtt e + maxU32 (gran e) (kRTTVAR * rttvar e) in maxU32 rtoMinMS raw)"

definition backoff :: "u32 \<Rightarrow> u32 \<Rightarrow> u32" where
  "backoff cap cur = minU32 cap (cur * 2)"

lemma unat_maxU32: "unat (maxU32 a b) = max (unat a) (unat b)"
  by (simp add: maxU32_def word_less_nat_alt)

lemma unat_minU32: "unat (minU32 a b) = min (unat a) (unat b)"
  by (simp add: minU32_def word_less_nat_alt)

lemma unat_absDiffU32:
  "unat (absDiffU32 a b) = (if unat a > unat b then unat a - unat b else unat b - unat a)"
  by (simp add: absDiffU32_def word_less_nat_alt unat_u32_diff)

lemma unat_mult_u32: "unat (a * b :: u32) = (unat a * unat b) mod 4294967296"
  by (simp add: unat_word_ariths)

lemma Rto_ge_min: "1000 \<le> unat (Rto e)"
  by (simp add: Rto_def unat_maxU32 rtoMinMS_def)

text \<open>
  While estimates and samples stay below \<open>2 ^ 29\<close> ms (six days) nothing wraps: the update
  is the exact integer one of RFC 6298, and it stays below the largest sample.
\<close>

definition estBound :: "nat \<Rightarrow> rttEstimator \<Rightarrow> bool" where
  "estBound M e \<longleftrightarrow> unat (srtt e) \<le> M \<and> unat (rttvar e) \<le> M"

lemma UpdateEst_exact:
  assumes "estBound M e" "unat r \<le> M" "M < 536870912"
  shows "unat (srtt (UpdateEst e r)) = (7 * unat (srtt e) + unat r) div 8"
    "unat (rttvar (UpdateEst e r)) =
       (3 * unat (rttvar e) + ((unat (srtt e) - unat r) + (unat r - unat (srtt e)))) div 4"
proof -
  have a: "unat (absDiffU32 (srtt e) r) = ((unat (srtt e) - unat r) + (unat r - unat (srtt e)))"
    unfolding unat_absDiffU32 by simp
  have "unat (7 * srtt e + r) = 7 * unat (srtt e) + unat r"
    using assms by (simp add: unat_u32_add unat_mult_u32 estBound_def)
  then show "unat (srtt (UpdateEst e r)) = (7 * unat (srtt e) + unat r) div 8"
    by (simp add: UpdateEst_def Let_def unat_div_distrib)
  have "unat (absDiffU32 (srtt e) r) \<le> M"
    using assms unfolding unat_absDiffU32 estBound_def by auto
  then have "unat (3 * rttvar e + absDiffU32 (srtt e) r) =
      3 * unat (rttvar e) + unat (absDiffU32 (srtt e) r)"
    using assms by (simp add: unat_u32_add unat_mult_u32 estBound_def)
  then show "unat (rttvar (UpdateEst e r)) =
      (3 * unat (rttvar e) + ((unat (srtt e) - unat r) + (unat r - unat (srtt e)))) div 4"
    by (simp add: UpdateEst_def Let_def unat_div_distrib a)
qed

lemma UpdateEst_bound:
  assumes "estBound M e" "unat r \<le> M" "M < 536870912"
  shows "estBound M (UpdateEst e r)"
  using assms unfolding estBound_def UpdateEst_exact [OF assms] by auto

lemma initEst_bound: "unat r \<le> M \<Longrightarrow> estBound M (initEst r g)"
  by (simp add: estBound_def initEst_def unat_div_distrib)

lemma Rto_exact:
  assumes "estBound M e" "M < 536870912"
  shows "unat (Rto e) = max 1000 (unat (srtt e) + max (unat (gran e)) (4 * unat (rttvar e)))
    \<or> 4294967296 \<le> unat (srtt e) + unat (gran e)"
proof -
  have "unat (kRTTVAR * rttvar e) = 4 * unat (rttvar e)"
    using assms by (simp add: unat_mult_u32 kRTTVAR_def estBound_def)
  then show ?thesis
    using assms by (auto simp: Rto_def Let_def unat_maxU32 unat_u32_add rtoMinMS_def estBound_def)
qed

lemma unat_backoff:
  "unat cur < 2147483648 \<Longrightarrow> unat (backoff cap cur) = min (unat cap) (2 * unat cur)"
  by (simp add: backoff_def unat_minU32 unat_mult_u32 mult.commute)

section \<open>Properties\<close>

text \<open>
  C31: the RTT estimator does not overflow. Below 2^29 one update is exactly SRTT' = (7 SRTT
  + R) div 8 and RTTVAR' = (3 RTTVAR + |SRTT - R|) div 4 in unbounded integers, the estimate
  stays within the largest sample, and the RTO is never below the 1000 ms of RFC 6298.
\<close>

theorem estimator_exact:
  assumes "unat (srtt e) \<le> M" "unat (rttvar e) \<le> M" "unat r \<le> M" "M < 536870912"
  shows "unat (srtt (UpdateEst e r)) = (7 * unat (srtt e) + unat r) div 8 \<and>
    int (unat (rttvar (UpdateEst e r))) =
      (3 * int (unat (rttvar e)) + \<bar>int (unat (srtt e)) - int (unat r)\<bar>) div 4 \<and>
    unat (srtt (UpdateEst e r)) \<le> M \<and> unat (rttvar (UpdateEst e r)) \<le> M \<and>
    1000 \<le> unat (Rto (UpdateEst e r))"
proof -
  have b: "estBound M e" using assms(1,2) by (simp add: estBound_def)
  have d: "int ((unat (srtt e) - unat r) + (unat r - unat (srtt e))) = \<bar>int (unat (srtt e)) - int (unat r)\<bar>"
    by linarith
  note x = UpdateEst_exact [OF b assms(3,4)]
  have "int (unat (rttvar (UpdateEst e r))) =
      (3 * int (unat (rttvar e)) + int ((unat (srtt e) - unat r) + (unat r - unat (srtt e)))) div 4"
    unfolding x(2) by (simp only: zdiv_int of_nat_add of_nat_mult of_nat_numeral)
  then show ?thesis
    using x(1) UpdateEst_bound [OF b assms(3,4)] Rto_ge_min unfolding d by (simp add: estBound_def)
qed

theorem estimator_exact_witness:
  "unat (srtt (UpdateEst \<lparr>srtt = 800, rttvar = 100, gran = 1\<rparr> 1600)) = 900"
  using estimator_exact [of "\<lparr>srtt = 800, rttvar = 100, gran = 1\<rparr>" 2000 1600] by simp

end
