(* ===== verification/Tcp_Congestion.thy ===== *)
theory Tcp_Congestion
  imports Tcp_Rto
begin

section \<open>Congestion control (tcp/transport/congestion.go)\<close>

text \<open>
  The three states and the handlers of RFC 5681, on 32-bit words. \<open>ccStep\<close> is a trace
  alphabet over the three handlers, for invariants of whole runs. The invariant \<open>ccInv\<close>
  carries the number of events already seen: the window can grow by one segment per event,
  and the code lets it wrap at \<open>2 ^ 32\<close>, so the lower bound holds for 1500000 events
  after the last reset, which is far more than a flight can produce.
\<close>

datatype ccState = ccSlowStart | ccCongestionAvoidance | ccFastRecovery

definition ccStateString :: "ccState \<Rightarrow> string" where
  "ccStateString s = (case s of
     ccSlowStart \<Rightarrow> ''SlowStart''
   | ccCongestionAvoidance \<Rightarrow> ''CongestionAvoidance''
   | ccFastRecovery \<Rightarrow> ''FastRecovery'')"

record congestion =
  smss :: u32
  cwnd :: u32
  ssthresh :: u32
  ccstate :: ccState
  dupAckCnt :: nat
  bytesAckedThisRtt :: u32
  retransmittedThisLoss :: bool

definition initialWindow :: "u32 \<Rightarrow> u32" where
  "initialWindow s = (if s \<le> 1095 then 4 * s else if s \<le> 2190 then 3 * s else 2 * s)"

definition newCongestion :: "u32 \<Rightarrow> congestion" where
  "newCongestion s = \<lparr>smss = s, cwnd = initialWindow s, ssthresh = 65535, ccstate = ccSlowStart,
     dupAckCnt = 0, bytesAckedThisRtt = 0, retransmittedThisLoss = False\<rparr>"

definition halveSsthresh :: "congestion \<Rightarrow> u32 \<Rightarrow> u32" where
  "halveSsthresh c flightSize = maxU32 (flightSize div 2) (2 * smss c)"

definition exitRecovery :: "congestion \<Rightarrow> congestion" where
  "exitRecovery c =
     (let c = c\<lparr>bytesAckedThisRtt := 0\<rparr> in
      if cwnd c < ssthresh c then c\<lparr>ccstate := ccSlowStart\<rparr>
      else c\<lparr>ccstate := ccCongestionAvoidance\<rparr>)"

definition onNewAck :: "congestion \<Rightarrow> u32 \<Rightarrow> u32 \<Rightarrow> congestion" where
  "onNewAck c ackedBytes flightSize =
     (let c = c\<lparr>retransmittedThisLoss := False, dupAckCnt := 0\<rparr> in
      if ccstate c = ccFastRecovery then exitRecovery (c\<lparr>cwnd := ssthresh c\<rparr>)
      else if cwnd c < ssthresh c then
        (let c = c\<lparr>cwnd := cwnd c + minU32 ackedBytes (smss c)\<rparr> in
         if cwnd c \<ge> ssthresh c then c\<lparr>ccstate := ccCongestionAvoidance\<rparr> else c)
      else
        (let c = c\<lparr>ccstate := ccCongestionAvoidance,
                   bytesAckedThisRtt := bytesAckedThisRtt c + ackedBytes\<rparr> in
         if bytesAckedThisRtt c \<ge> cwnd c
         then c\<lparr>bytesAckedThisRtt := bytesAckedThisRtt c - cwnd c, cwnd := cwnd c + smss c\<rparr>
         else c))"

definition onDupAck :: "congestion \<Rightarrow> u32 \<Rightarrow> congestion" where
  "onDupAck c flightSize =
     (if ccstate c = ccFastRecovery then c\<lparr>cwnd := cwnd c + smss c\<rparr>
      else
        (let c = c\<lparr>dupAckCnt := dupAckCnt c + 1\<rparr> in
         if dupAckCnt c < 3 then c
         else
           (let c = c\<lparr>ssthresh := halveSsthresh c flightSize\<rparr>;
                c = c\<lparr>retransmittedThisLoss := True\<rparr>;
                c = c\<lparr>cwnd := ssthresh c + 3 * smss c\<rparr>
            in c\<lparr>ccstate := ccFastRecovery\<rparr>)))"

definition onRtoTimeout :: "congestion \<Rightarrow> u32 \<Rightarrow> congestion" where
  "onRtoTimeout c flightSize =
     (let c = (if \<not> retransmittedThisLoss c
               then c\<lparr>ssthresh := halveSsthresh c flightSize, retransmittedThisLoss := True\<rparr>
               else c)
      in c\<lparr>cwnd := smss c, ccstate := ccSlowStart, dupAckCnt := 0, bytesAckedThisRtt := 0\<rparr>)"

lemmas cong_defs = onNewAck_def onDupAck_def onRtoTimeout_def exitRecovery_def halveSsthresh_def

subsection \<open>Runs\<close>

datatype ccEvent = NewAck u32 u32 | DupAck u32 | RtoTimeout u32

fun ccStep :: "congestion \<Rightarrow> ccEvent \<Rightarrow> congestion" where
  "ccStep c (NewAck acked flight) = onNewAck c acked flight"
| "ccStep c (DupAck flight) = onDupAck c flight"
| "ccStep c (RtoTimeout flight) = onRtoTimeout c flight"

definition ccRun :: "congestion \<Rightarrow> ccEvent list \<Rightarrow> congestion" where
  "ccRun c es = foldl ccStep c es"

definition ccWindow :: "nat \<Rightarrow> congestion \<Rightarrow> bool" where
  "ccWindow n c \<longleftrightarrow> smss c = 1360 \<and>
     2720 \<le> unat (ssthresh c) \<and> unat (ssthresh c) \<le> 2147483648 \<and>
     1360 \<le> unat (cwnd c) \<and> unat (cwnd c) \<le> 2147483648 + 4080 + 1360 * n"

definition ccLabels :: "congestion \<Rightarrow> bool" where
  "ccLabels c \<longleftrightarrow>
     (ccstate c = ccFastRecovery \<longrightarrow> retransmittedThisLoss c \<and> dupAckCnt c = 3) \<and>
     (ccstate c \<noteq> ccFastRecovery \<longrightarrow> dupAckCnt c < 3 \<and>
        (ccstate c = ccSlowStart \<longleftrightarrow> cwnd c < ssthresh c))"

definition ccInv :: "nat \<Rightarrow> congestion \<Rightarrow> bool" where
  "ccInv n c \<longleftrightarrow> ccWindow n c \<and> ccLabels c"

lemma halve_bounds:
  "smss c = 1360 \<Longrightarrow> 2720 \<le> unat (halveSsthresh c f) \<and> unat (halveSsthresh c f) \<le> 2147483648"
  using unat_u32_less [of f] by (simp add: halveSsthresh_def unat_maxU32 unat_div_distrib)

lemma ccInv_new: "ccInv 0 (newCongestion 1360)"
  by (simp add: ccInv_def ccWindow_def ccLabels_def newCongestion_def initialWindow_def)

lemma unat_add_small: "unat a + unat b < 4294967296 \<Longrightarrow> unat (a + b :: u32) = unat a + unat b"
  by (simp add: unat_u32_add)

lemma ccInv_onRto: "ccInv n c \<Longrightarrow> ccInv m (onRtoTimeout c f)"
  using halve_bounds [of c f]
  by (auto simp: ccInv_def ccWindow_def ccLabels_def onRtoTimeout_def Let_def word_less_nat_alt)

lemma ccInv_onDupAck:
  assumes "ccInv n c" "n < 1500000"
  shows "ccInv (Suc n) (onDupAck c f)"
proof (cases "ccstate c = ccFastRecovery")
  case True
  have "unat (cwnd c + smss c) = unat (cwnd c) + 1360"
    using assms by (subst unat_add_small) (auto simp: ccInv_def ccWindow_def)
  with True assms show ?thesis by (auto simp: ccInv_def ccWindow_def ccLabels_def onDupAck_def)
next
  case False
  have s: "smss c = 1360" using assms by (simp add: ccInv_def ccWindow_def)
  define t where "t = halveSsthresh (c\<lparr>dupAckCnt := Suc (dupAckCnt c)\<rparr>) f"
  have t: "2720 \<le> unat t" "unat t \<le> 2147483648"
    unfolding t_def using halve_bounds s by simp_all
  then have "unat (t + 4080) = unat t + 4080" by (subst unat_add_small) simp_all
  with False assms s t show ?thesis
    by (auto simp: ccInv_def ccWindow_def ccLabels_def onDupAck_def Let_def t_def [symmetric])
qed

lemma ccInv_onNewAck:
  assumes "ccInv n c" "n < 1500000"
  shows "ccInv (Suc n) (onNewAck c a f)"
proof -
  have w: "smss c = 1360" "2720 \<le> unat (ssthresh c)" "unat (ssthresh c) \<le> 2147483648"
    "1360 \<le> unat (cwnd c)" "unat (cwnd c) \<le> 2147483648 + 4080 + 1360 * n"
    using assms by (auto simp: ccInv_def ccWindow_def)
  have m: "unat (minU32 a (smss c)) \<le> 1360" by (simp add: unat_minU32 w)
  have g: "unat (cwnd c + minU32 a (smss c)) = unat (cwnd c) + unat (minU32 a (smss c))"
    "unat (cwnd c + smss c) = unat (cwnd c) + 1360"
    using w m assms(2) by (subst unat_add_small; simp)+
  show ?thesis
    using assms(1) w m g
    by (auto simp: ccInv_def ccWindow_def ccLabels_def onNewAck_def exitRecovery_def Let_def
        word_less_nat_alt word_le_nat_alt)
qed

lemma ccInv_step: "ccInv n c \<Longrightarrow> n < 1500000 \<Longrightarrow> ccInv (Suc n) (ccStep c e)"
  by (cases e) (auto intro: ccInv_onNewAck ccInv_onDupAck ccInv_onRto)

lemma ccInv_run: "ccInv n c \<Longrightarrow> n + length es \<le> 1500000 \<Longrightarrow> ccInv (n + length es) (ccRun c es)"
proof (induction es arbitrary: c n)
  case (Cons e es)
  then have "ccInv (Suc n) (ccStep c e)" by (intro ccInv_step) auto
  with Cons show ?case by (fastforce simp: ccRun_def)
qed (simp add: ccRun_def)

text \<open>Timeouts of one loss episode halve the threshold once.\<close>

lemma onRtoTimeout_again:
  "retransmittedThisLoss c \<Longrightarrow> ssthresh (onRtoTimeout c f) = ssthresh c"
  by (simp add: onRtoTimeout_def)

lemma onRtoTimeout_marks: "retransmittedThisLoss (onRtoTimeout c f)"
  by (simp add: onRtoTimeout_def Let_def)

lemma ccRun_timeouts:
  "retransmittedThisLoss c \<Longrightarrow> ssthresh (ccRun c (map RtoTimeout fs)) = ssthresh c"
  by (induction fs arbitrary: c)
    (auto simp: ccRun_def onRtoTimeout_again onRtoTimeout_marks)

lemma smss_cong [simp]:
  "smss (onNewAck c a f) = smss c" "smss (onDupAck c f) = smss c" "smss (onRtoTimeout c f) = smss c"
  by (auto simp: cong_defs Let_def)

section \<open>Properties\<close>

text \<open>
  C34: congestion control keeps its bounds. From a new connection, any sequence of n events
  (n up to 1 500 000) leaves cwnd at least one segment and free of overflow, ssthresh at
  least two segments, slow start exactly below ssthresh, and fast recovery exactly after the
  third duplicate.
\<close>

theorem congestion_bounds:
  assumes "length es \<le> 1500000"
  shows "let c = ccRun (newCongestion 1360) es in
    1360 \<le> unat (cwnd c) \<and> unat (cwnd c) \<le> 2147483648 + 4080 + 1360 * length es \<and>
    2720 \<le> unat (ssthresh c) \<and> unat (ssthresh c) \<le> 2147483648 \<and>
    (case ccstate c of
       ccFastRecovery \<Rightarrow> retransmittedThisLoss c \<and> dupAckCnt c = 3
     | ccSlowStart \<Rightarrow> dupAckCnt c < 3 \<and> cwnd c < ssthresh c
     | ccCongestionAvoidance \<Rightarrow> dupAckCnt c < 3 \<and> ssthresh c \<le> cwnd c)"
  using ccInv_run [OF ccInv_new, of es] assms
  by (auto simp: ccInv_def ccWindow_def ccLabels_def Let_def split: ccState.splits)

theorem congestion_bounds_witness:
  "1360 \<le> unat (cwnd (ccRun (newCongestion 1360) [NewAck 1360 1360, DupAck 5000, RtoTimeout 5000]))"
  using congestion_bounds [of "[NewAck 1360 1360, DupAck 5000, RtoTimeout 5000]"] by (simp add: Let_def)

end
