(* ===== verification/Tcp_Flow.thy ===== *)
theory Tcp_Flow
  imports Tcp_Rto
begin

section \<open>Flow-control decisions (tcp/transport/flowcontrol.go, the pure part)\<close>

text \<open>
  \<open>advertiseWindow\<close> is the receiver's window with silly-window avoidance, \<open>canSend\<close> the
  sender's Nagle and silly-window decision. The timers of the file are in Tcp_Output and
  Tcp_Timers.
\<close>

definition advertiseWindow :: "u32 \<Rightarrow> u32 \<Rightarrow> u32 \<Rightarrow> u32 \<Rightarrow> u32" where
  "advertiseWindow buffTotal used curWnd effMSS =
     (let avail = (if buffTotal > used then buffTotal - used else 0) in
      if avail \<le> curWnd then curWnd
      else
        (let opening = avail - curWnd;
             threshold = buffTotal div 2;
             threshold = (if effMSS < threshold then effMSS else threshold)
         in if opening < threshold then curWnd else avail))"

definition canSend :: "u32 \<Rightarrow> u32 \<Rightarrow> u32 \<Rightarrow> u32 \<Rightarrow> bool \<Rightarrow> bool \<Rightarrow> bool" where
  "canSend d usable mss maxSndWnd idle nagleDisabled =
     (let send = (if usable < d then usable else d) in
      if send = 0 then False
      else if send \<ge> mss then True
      else if idle \<or> nagleDisabled then True
      else if send \<ge> maxSndWnd div 2 then True
      else False)"

lemma advertiseWindow_ge: "curWnd \<le> advertiseWindow b u curWnd m"
  by (auto simp: advertiseWindow_def Let_def)

lemma advertiseWindow_cases:
  "advertiseWindow b u curWnd m = curWnd \<or>
   (u < b \<and> advertiseWindow b u curWnd m = b - u \<and> curWnd < b - u \<and>
    minU32 m (b div 2) \<le> b - u - curWnd)"
  by (auto simp: advertiseWindow_def Let_def minU32_def not_less)

lemma advertiseWindow_fits:
  assumes "unat curWnd + unat u \<le> unat b"
  shows "unat (advertiseWindow b u curWnd m) + unat u \<le> unat b"
  using advertiseWindow_cases [of b u curWnd m] assms
  by (auto simp: unat_u32_diff word_less_nat_alt)

lemma canSend_nonzero: "canSend d usable mss mw idle nd \<Longrightarrow> minU32 d usable \<noteq> 0"
  by (auto simp: canSend_def Let_def minU32_def split: if_splits)

lemma canSend_iff:
  "canSend d usable mss mw idle nd \<longleftrightarrow>
     minU32 usable d \<noteq> 0 \<and>
     (mss \<le> minU32 usable d \<or> idle \<or> nd \<or> mw div 2 \<le> minU32 usable d)"
  by (auto simp: canSend_def Let_def minU32_def)

end
