(* ===== verification/Tcp_Tcb.thy ===== *)
theory Tcp_Tcb
  imports Tcp_Header Tcp_Seq Tcp_Congestion Tcp_Flow
begin

unbundle bit_operations_syntax

section \<open>The connection state (tcp/transport/tcb.go, the Conn type of statemachine.go)\<close>

text \<open>
  \<open>TCB\<close> has the fields of the Go struct; the embedded \<^theory_text>\<open>sndVars\<close> and
  \<^theory_text>\<open>rcvVars\<close> are its fields with the prefixes \<open>snd_\<close> and \<open>rcv_\<close>. \<open>Conn\<close>
  extends it with the fields of the Go type of that name.

  The link is the list \<open>outp\<close> of the packets handed to \<^theory_text>\<open>WritePacket\<close>, oldest
  first; the code ignores the result of the call. The clock is an arbitrary sequence
  \<open>clk\<close> of readings with the number \<open>ticks\<close> of the readings taken so far: every call of
  \<^theory_text>\<open>clock()\<close> in the code is one \<open>now\<close> followed by one \<open>tick\<close>, so nothing is
  assumed about how time passes between two calls in one critical section. The mutex makes
  each exported operation one atomic step on this state.
\<close>

datatype State = Closed | Listen | SynSent | SynReceived | Established | FinWait1 | FinWait2
  | CloseWait | Closing | LastAck | TimeWait

definition StateString :: "State \<Rightarrow> string" where
  "StateString s = (case s of
     Closed \<Rightarrow> ''CLOSED'' | Listen \<Rightarrow> ''LISTEN'' | SynSent \<Rightarrow> ''SYN-SENT''
   | SynReceived \<Rightarrow> ''SYN-RECEIVED'' | Established \<Rightarrow> ''ESTABLISHED''
   | FinWait1 \<Rightarrow> ''FIN-WAIT-1'' | FinWait2 \<Rightarrow> ''FIN-WAIT-2'' | CloseWait \<Rightarrow> ''CLOSE-WAIT''
   | Closing \<Rightarrow> ''CLOSING'' | LastAck \<Rightarrow> ''LAST-ACK'' | TimeWait \<Rightarrow> ''TIME-WAIT'')"

definition synchronized :: "State \<Rightarrow> bool" where
  "synchronized s = (case s of
     Established \<Rightarrow> True | FinWait1 \<Rightarrow> True | FinWait2 \<Rightarrow> True | CloseWait \<Rightarrow> True
   | Closing \<Rightarrow> True | LastAck \<Rightarrow> True | TimeWait \<Rightarrow> True | _ \<Rightarrow> False)"

datatype Origin = OriginPassive | OriginActive

record segFragment =
  fragSeq :: u32
  fragData :: "byte list"

record retxSeg =
  rsSeq :: u32
  rsFlags :: Flags
  rsPayload :: "byte list"
  rsSentAt :: time
  rsRetries :: nat
  rsRetransmitted :: bool

definition seqLen :: "retxSeg \<Rightarrow> u32" where
  "seqLen s =
     (let n = of_nat (length (rsPayload s));
          n = (if Has (rsFlags s) FlagSYN then n + 1 else n);
          n = (if Has (rsFlags s) FlagFIN then n + 1 else n)
      in n)"

record Endpoint =
  epIP :: ip4
  epPort :: u16

record TCB =
  state :: State
  origin :: Origin
  snd_una :: u32
  snd_nxt :: u32
  snd_wnd :: u32
  snd_wl1 :: u32
  snd_wl2 :: u32
  snd_iss :: u32
  rcv_nxt :: u32
  rcv_wnd :: u32
  rcv_irs :: u32
  reachedEstablished :: bool
  maxSndWnd :: u32
  clk :: "nat \<Rightarrow> time"
  ticks :: nat
  timeWaitDeadline :: time
  timeWaitDuration :: duration
  retxQueue :: "retxSeg list"
  curRTO :: duration
  rtt :: rttEstimator
  rttValid :: bool
  cong :: congestion
  challengeWindowStart :: time
  challengeCount :: nat
  sndBuf :: "byte list"
  rcvBuf :: "byte list"
  oooSegs :: "segFragment list"
  lastOooSeq :: u32
  peerFin :: bool
  peerFinSeq :: u32
  sndWindShift :: u8
  rcvWindShift :: u8
  tsOK :: bool
  tsRecent :: u32
  lastAckSent :: u32
  sackOK :: bool
  sendMSS :: u16
  rcvBuffTotal :: u32
  nagleDisabled :: bool
  persistDeadline :: time
  persistArmed :: bool
  persistBackoff :: nat
  overrideDeadline :: time
  overrideArmed :: bool
  delAckDeadline :: time
  delAckArmed :: bool
  delAckCount :: nat
  keepaliveEnabled :: bool
  keepaliveIdle :: duration
  lastRecvTime :: time
  keepaliveProbes :: nat

record Conn = TCB +
  localEP :: Endpoint
  remoteEP :: Endpoint
  portsSrc :: u16
  portsDst :: u16
  deriveTo :: "nat option"
  outp :: "byte list list"

subsection \<open>Constants\<close>

definition maxWindow :: u16 where "maxWindow = 65535"
definition defaultRcvWindow :: u32 where "defaultRcvWindow = ucast maxWindow"
definition defaultMSS :: u32 where "defaultMSS = 1360"
definition defaultSendMSS :: u16 where "defaultSendMSS = 536"
definition myWindowScale :: u8 where "myWindowScale = 7"
definition msl :: duration where "msl = 120 * second"
definition defaultTimeWaitDuration :: duration where "defaultTimeWaitDuration = 2 * msl"
definition initialRTO :: duration where "initialRTO = 1 * second"
definition maxRTO :: duration where "maxRTO = 60 * second"
definition maxRetransmits :: nat where "maxRetransmits = 5"
definition clockGranMS :: u32 where "clockGranMS = 1"
definition challengeAckLimit :: nat where "challengeAckLimit = 10"
definition challengeAckWindow :: duration where "challengeAckWindow = 5 * second"
definition persistInitial :: duration where "persistInitial = 1 * second"
definition persistMax :: duration where "persistMax = 60 * second"
definition overrideTimeout :: duration where "overrideTimeout = 200 * millisecond"
definition delAckTimeout :: duration where "delAckTimeout = 200 * millisecond"
definition defaultKeepaliveIdle :: duration where "defaultKeepaliveIdle = 7200 * second"
definition keepaliveMaxProbes :: nat where "keepaliveMaxProbes = 9"
definition maxSackBlocks :: nat where "maxSackBlocks = 4"
definition issGap :: u32 where "issGap = 64000"

lemmas tcb_consts = maxWindow_def defaultRcvWindow_def defaultMSS_def defaultSendMSS_def
  myWindowScale_def msl_def defaultTimeWaitDuration_def initialRTO_def maxRTO_def
  maxRetransmits_def clockGranMS_def challengeAckLimit_def challengeAckWindow_def
  persistInitial_def persistMax_def overrideTimeout_def delAckTimeout_def
  defaultKeepaliveIdle_def keepaliveMaxProbes_def maxSackBlocks_def issGap_def

subsection \<open>NewConn and the reads of the state\<close>

definition NewConn :: "(nat \<Rightarrow> time) \<Rightarrow> Endpoint \<Rightarrow> Endpoint \<Rightarrow> Conn" where
  "NewConn clock local remote = \<lparr>
     state = Closed, origin = OriginPassive,
     snd_una = 0, snd_nxt = 0, snd_wnd = 0, snd_wl1 = 0, snd_wl2 = 0, snd_iss = 0,
     rcv_nxt = 0, rcv_wnd = 0, rcv_irs = 0,
     reachedEstablished = False, maxSndWnd = ucast maxWindow,
     clk = clock, ticks = 0,
     timeWaitDeadline = zeroTime, timeWaitDuration = defaultTimeWaitDuration,
     retxQueue = [], curRTO = 0,
     rtt = \<lparr>srtt = 0, rttvar = 0, gran = 0\<rparr>, rttValid = False,
     cong = newCongestion defaultMSS,
     challengeWindowStart = zeroTime, challengeCount = 0,
     sndBuf = [], rcvBuf = [], oooSegs = [], lastOooSeq = 0,
     peerFin = False, peerFinSeq = 0,
     sndWindShift = 0, rcvWindShift = 0,
     tsOK = False, tsRecent = 0, lastAckSent = 0, sackOK = False, sendMSS = 0,
     rcvBuffTotal = 0, nagleDisabled = False,
     persistDeadline = zeroTime, persistArmed = False, persistBackoff = 0,
     overrideDeadline = zeroTime, overrideArmed = False,
     delAckDeadline = zeroTime, delAckArmed = False, delAckCount = 0,
     keepaliveEnabled = False, keepaliveIdle = 0, lastRecvTime = zeroTime, keepaliveProbes = 0,
     localEP = local, remoteEP = remote, portsSrc = epPort local, portsDst = epPort remote,
     deriveTo = None, outp = []\<rparr>"

definition now :: "Conn \<Rightarrow> time" where
  "now c = clk c (ticks c)"

definition tick :: "Conn \<Rightarrow> Conn" where
  "tick c = c\<lparr>ticks := Suc (ticks c)\<rparr>"

text \<open>\<^theory_text>\<open>TCB.tsNow\<close> (paws.go): the clock in milliseconds, truncated to 32 bits.\<close>

definition tsNow :: "Conn \<Rightarrow> u32 \<times> Conn" where
  "tsNow c = (word_of_int (unixMilli (now c)), tick c)"

definition effSndMSS :: "Conn \<Rightarrow> u32" where
  "effSndMSS t =
     (if sendMSS t \<noteq> 0 \<and> ucast (sendMSS t) < defaultMSS then ucast (sendMSS t) else defaultMSS)"

definition rcvBuffCap :: "Conn \<Rightarrow> u32" where
  "rcvBuffCap t = (if rcvBuffTotal t = 0 then defaultRcvWindow else rcvBuffTotal t)"

definition initialRcvWindow :: "Conn \<Rightarrow> u32" where
  "initialRcvWindow t = rcvBuffCap t"

text \<open>SEG.LEN of a received segment.\<close>

definition segLen :: "TCPHeader \<Rightarrow> byte list \<Rightarrow> u32" where
  "segLen h payload =
     (let n = of_nat (length payload);
          n = (if Has (HdrFlags h) FlagSYN then n + 1 else n);
          n = (if Has (HdrFlags h) FlagFIN then n + 1 else n)
      in n)"

definition inWindow :: "Conn \<Rightarrow> u32 \<Rightarrow> bool" where
  "inWindow t sq =
     (if rcv_wnd t = 0 then sq = rcv_nxt t
      else SeqLEQ (rcv_nxt t) sq \<and> SeqLT sq (rcv_nxt t + rcv_wnd t))"

definition acceptable :: "Conn \<Rightarrow> TCPHeader \<Rightarrow> byte list \<Rightarrow> bool" where
  "acceptable t h payload =
     (let sl = segLen h payload in
      if sl = 0 \<and> rcv_wnd t = 0 then SeqNum h = rcv_nxt t
      else if sl = 0 \<and> rcv_wnd t > 0 then inWindow t (SeqNum h)
      else if sl > 0 \<and> rcv_wnd t = 0 then False
      else inWindow t (SeqNum h) \<or> inWindow t (SeqNum h + sl - 1))"

definition finAcked :: "Conn \<Rightarrow> bool" where
  "finAcked c = (snd_una c = snd_nxt c)"

lemma tick_fields [simp]:
  "ticks (tick c) = Suc (ticks c)" "retxQueue (tick c) = retxQueue c" "curRTO (tick c) = curRTO c"
  "outp (tick c) = outp c" "lastAckSent (tick c) = lastAckSent c"
  "delAckArmed (tick c) = delAckArmed c" "delAckCount (tick c) = delAckCount c"
  "challengeWindowStart (tick c) = challengeWindowStart c"
  "challengeCount (tick c) = challengeCount c"
  by (simp_all add: tick_def)

text \<open>
  The receive window as distances: with a window below half the sequence space,
  \<open>inWindow\<close> is exactly RCV.NXT =< SEQ < RCV.NXT + RCV.WND.
\<close>

lemma inWindow_dist:
  assumes "unat (rcv_wnd c) < 2147483648" "rcv_wnd c \<noteq> 0"
  shows "inWindow c sq \<longleftrightarrow> dist (rcv_nxt c) sq < unat (rcv_wnd c)"
proof
  assume a: "inWindow c sq"
  then have l: "dist (rcv_nxt c) sq < 2147483648"
    and r: "0 < dist sq (rcv_nxt c + rcv_wnd c)" "dist sq (rcv_nxt c + rcv_wnd c) < 2147483648"
    using assms(2) by (auto simp: inWindow_def SeqLEQ_dist SeqLT_dist)
  have w: "dist (rcv_nxt c) (rcv_nxt c + rcv_wnd c) = unat (rcv_wnd c)"
    by (simp add: dist_def)
  have "dist (rcv_nxt c) (rcv_nxt c + rcv_wnd c) =
      dist (rcv_nxt c) sq + dist sq (rcv_nxt c + rcv_wnd c)"
    using l r by (intro dist_add) linarith
  with w r show "dist (rcv_nxt c) sq < unat (rcv_wnd c)" by linarith
next
  assume a: "dist (rcv_nxt c) sq < unat (rcv_wnd c)"
  have w: "dist (rcv_nxt c) (rcv_nxt c + rcv_wnd c) = unat (rcv_wnd c)"
    by (simp add: dist_def)
  with a have "dist sq (rcv_nxt c + rcv_wnd c) = unat (rcv_wnd c) - dist (rcv_nxt c) sq"
    using dist_between [of "rcv_nxt c" sq "rcv_nxt c + rcv_wnd c"] by simp
  with a assms show "inWindow c sq"
    by (cases "dist (rcv_nxt c) sq = 0")
      (auto simp: inWindow_def SeqLEQ_dist SeqLT_dist)
qed

subsection \<open>A connection and a header to compute with\<close>

definition demoConn :: Conn where
  "demoConn = NewConn (\<lambda>_. 0) \<lparr>epIP = (10, 0, 0, 1), epPort = 80\<rparr> \<lparr>epIP = (10, 0, 0, 2), epPort = 9\<rparr>"

definition demoHeader :: "Flags \<Rightarrow> u32 \<Rightarrow> u32 \<Rightarrow> TCPHeader" where
  "demoHeader f sq ak = \<lparr>SrcPort = 9, DstPort = 80, SeqNum = sq, AckNum = ak, DataOffset = 5,
     HdrFlags = f, Window = 5000, HdrChecksum = 0, UrgentPtr = 0, Options = []\<rparr>"

end
