(* ===== verification/Tcp_Frames.thy ===== *)
theory Tcp_Frames
  imports Tcp_Tcb
begin

section \<open>What an operation may write\<close>

text \<open>
  Three relations between the state before and after an operation, each naming the fields it
  leaves alone: an operation that only emits segments (\<open>outputOnly\<close>), one that also moves
  SND.NXT and the two send timers (\<open>sendOnly\<close>), one that also moves the receive side
  (\<open>recvOnly\<close>). An operation has one lemma that it is in such a relation, and the
  relation's \<open>D\<close> rule gives all its frame equations at once.
\<close>

definition outputOnly :: "Conn \<Rightarrow> Conn \<Rightarrow> bool" where
  "outputOnly c d \<longleftrightarrow>
     state d = state c \<and> origin d = origin c \<and> snd_una d = snd_una c \<and>
     snd_nxt d = snd_nxt c \<and> snd_wnd d = snd_wnd c \<and> snd_wl1 d = snd_wl1 c \<and>
     snd_wl2 d = snd_wl2 c \<and> snd_iss d = snd_iss c \<and> rcv_nxt d = rcv_nxt c \<and>
     rcv_wnd d = rcv_wnd c \<and> rcv_irs d = rcv_irs c \<and>
     reachedEstablished d = reachedEstablished c \<and> maxSndWnd d = maxSndWnd c \<and>
     clk d = clk c \<and> timeWaitDeadline d = timeWaitDeadline c \<and>
     timeWaitDuration d = timeWaitDuration c \<and> rtt d = rtt c \<and>
     rttValid d = rttValid c \<and> cong d = cong c \<and> sndBuf d = sndBuf c \<and>
     rcvBuf d = rcvBuf c \<and> oooSegs d = oooSegs c \<and> lastOooSeq d = lastOooSeq c \<and>
     peerFin d = peerFin c \<and> peerFinSeq d = peerFinSeq c \<and>
     sndWindShift d = sndWindShift c \<and> rcvWindShift d = rcvWindShift c \<and>
     tsOK d = tsOK c \<and> tsRecent d = tsRecent c \<and> sackOK d = sackOK c \<and>
     sendMSS d = sendMSS c \<and> rcvBuffTotal d = rcvBuffTotal c \<and>
     nagleDisabled d = nagleDisabled c \<and> persistDeadline d = persistDeadline c \<and>
     persistArmed d = persistArmed c \<and> persistBackoff d = persistBackoff c \<and>
     overrideDeadline d = overrideDeadline c \<and> overrideArmed d = overrideArmed c \<and>
     delAckDeadline d = delAckDeadline c \<and> keepaliveEnabled d = keepaliveEnabled c \<and>
     keepaliveIdle d = keepaliveIdle c \<and> lastRecvTime d = lastRecvTime c \<and>
     keepaliveProbes d = keepaliveProbes c \<and> localEP d = localEP c \<and>
     remoteEP d = remoteEP c \<and> portsSrc d = portsSrc c \<and>
     portsDst d = portsDst c \<and> deriveTo d = deriveTo c"

lemma outputOnlyD:
  assumes "outputOnly c d"
  shows
    "state d = state c" "origin d = origin c" "snd_una d = snd_una c" "snd_nxt d = snd_nxt c"
    "snd_wnd d = snd_wnd c" "snd_wl1 d = snd_wl1 c" "snd_wl2 d = snd_wl2 c"
    "snd_iss d = snd_iss c" "rcv_nxt d = rcv_nxt c" "rcv_wnd d = rcv_wnd c"
    "rcv_irs d = rcv_irs c" "reachedEstablished d = reachedEstablished c"
    "maxSndWnd d = maxSndWnd c" "clk d = clk c" "timeWaitDeadline d = timeWaitDeadline c"
    "timeWaitDuration d = timeWaitDuration c" "rtt d = rtt c" "rttValid d = rttValid c"
    "cong d = cong c" "sndBuf d = sndBuf c" "rcvBuf d = rcvBuf c" "oooSegs d = oooSegs c"
    "lastOooSeq d = lastOooSeq c" "peerFin d = peerFin c" "peerFinSeq d = peerFinSeq c"
    "sndWindShift d = sndWindShift c" "rcvWindShift d = rcvWindShift c" "tsOK d = tsOK c"
    "tsRecent d = tsRecent c" "sackOK d = sackOK c" "sendMSS d = sendMSS c"
    "rcvBuffTotal d = rcvBuffTotal c" "nagleDisabled d = nagleDisabled c"
    "persistDeadline d = persistDeadline c" "persistArmed d = persistArmed c"
    "persistBackoff d = persistBackoff c" "overrideDeadline d = overrideDeadline c"
    "overrideArmed d = overrideArmed c" "delAckDeadline d = delAckDeadline c"
    "keepaliveEnabled d = keepaliveEnabled c" "keepaliveIdle d = keepaliveIdle c"
    "lastRecvTime d = lastRecvTime c" "keepaliveProbes d = keepaliveProbes c"
    "localEP d = localEP c" "remoteEP d = remoteEP c" "portsSrc d = portsSrc c"
    "portsDst d = portsDst c" "deriveTo d = deriveTo c"
  using assms unfolding outputOnly_def by blast+

lemma outputOnly_refl [simp]: "outputOnly c c"
  by (simp add: outputOnly_def)

lemma outputOnly_trans: "outputOnly a b \<Longrightarrow> outputOnly b c \<Longrightarrow> outputOnly a c"
  by (simp add: outputOnly_def)

definition sendOnly :: "Conn \<Rightarrow> Conn \<Rightarrow> bool" where
  "sendOnly c d \<longleftrightarrow>
     state d = state c \<and> origin d = origin c \<and> snd_una d = snd_una c \<and>
     snd_wnd d = snd_wnd c \<and> snd_wl1 d = snd_wl1 c \<and> snd_wl2 d = snd_wl2 c \<and>
     snd_iss d = snd_iss c \<and> rcv_nxt d = rcv_nxt c \<and> rcv_wnd d = rcv_wnd c \<and>
     rcv_irs d = rcv_irs c \<and> reachedEstablished d = reachedEstablished c \<and>
     maxSndWnd d = maxSndWnd c \<and> clk d = clk c \<and>
     timeWaitDeadline d = timeWaitDeadline c \<and>
     timeWaitDuration d = timeWaitDuration c \<and> rtt d = rtt c \<and>
     rttValid d = rttValid c \<and> cong d = cong c \<and> sndBuf d = sndBuf c \<and>
     rcvBuf d = rcvBuf c \<and> oooSegs d = oooSegs c \<and> lastOooSeq d = lastOooSeq c \<and>
     peerFin d = peerFin c \<and> peerFinSeq d = peerFinSeq c \<and>
     sndWindShift d = sndWindShift c \<and> rcvWindShift d = rcvWindShift c \<and>
     tsOK d = tsOK c \<and> tsRecent d = tsRecent c \<and> sackOK d = sackOK c \<and>
     sendMSS d = sendMSS c \<and> rcvBuffTotal d = rcvBuffTotal c \<and>
     nagleDisabled d = nagleDisabled c \<and> delAckDeadline d = delAckDeadline c \<and>
     keepaliveEnabled d = keepaliveEnabled c \<and> keepaliveIdle d = keepaliveIdle c \<and>
     lastRecvTime d = lastRecvTime c \<and> keepaliveProbes d = keepaliveProbes c \<and>
     localEP d = localEP c \<and> remoteEP d = remoteEP c \<and> portsSrc d = portsSrc c \<and>
     portsDst d = portsDst c \<and> deriveTo d = deriveTo c"

lemma sendOnlyD:
  assumes "sendOnly c d"
  shows
    "state d = state c" "origin d = origin c" "snd_una d = snd_una c" "snd_wnd d = snd_wnd c"
    "snd_wl1 d = snd_wl1 c" "snd_wl2 d = snd_wl2 c" "snd_iss d = snd_iss c"
    "rcv_nxt d = rcv_nxt c" "rcv_wnd d = rcv_wnd c" "rcv_irs d = rcv_irs c"
    "reachedEstablished d = reachedEstablished c" "maxSndWnd d = maxSndWnd c" "clk d = clk c"
    "timeWaitDeadline d = timeWaitDeadline c" "timeWaitDuration d = timeWaitDuration c"
    "rtt d = rtt c" "rttValid d = rttValid c" "cong d = cong c" "sndBuf d = sndBuf c"
    "rcvBuf d = rcvBuf c" "oooSegs d = oooSegs c" "lastOooSeq d = lastOooSeq c"
    "peerFin d = peerFin c" "peerFinSeq d = peerFinSeq c" "sndWindShift d = sndWindShift c"
    "rcvWindShift d = rcvWindShift c" "tsOK d = tsOK c" "tsRecent d = tsRecent c"
    "sackOK d = sackOK c" "sendMSS d = sendMSS c" "rcvBuffTotal d = rcvBuffTotal c"
    "nagleDisabled d = nagleDisabled c" "delAckDeadline d = delAckDeadline c"
    "keepaliveEnabled d = keepaliveEnabled c" "keepaliveIdle d = keepaliveIdle c"
    "lastRecvTime d = lastRecvTime c" "keepaliveProbes d = keepaliveProbes c"
    "localEP d = localEP c" "remoteEP d = remoteEP c" "portsSrc d = portsSrc c"
    "portsDst d = portsDst c" "deriveTo d = deriveTo c"
  using assms unfolding sendOnly_def by blast+

lemma sendOnly_refl [simp]: "sendOnly c c"
  by (simp add: sendOnly_def)

lemma sendOnly_trans: "sendOnly a b \<Longrightarrow> sendOnly b c \<Longrightarrow> sendOnly a c"
  by (simp add: sendOnly_def)

definition recvOnly :: "Conn \<Rightarrow> Conn \<Rightarrow> bool" where
  "recvOnly c d \<longleftrightarrow>
     state d = state c \<and> origin d = origin c \<and> snd_una d = snd_una c \<and>
     snd_nxt d = snd_nxt c \<and> snd_wnd d = snd_wnd c \<and> snd_wl1 d = snd_wl1 c \<and>
     snd_wl2 d = snd_wl2 c \<and> snd_iss d = snd_iss c \<and> rcv_irs d = rcv_irs c \<and>
     reachedEstablished d = reachedEstablished c \<and> maxSndWnd d = maxSndWnd c \<and>
     clk d = clk c \<and> timeWaitDeadline d = timeWaitDeadline c \<and>
     timeWaitDuration d = timeWaitDuration c \<and> rtt d = rtt c \<and>
     rttValid d = rttValid c \<and> cong d = cong c \<and> sndBuf d = sndBuf c \<and>
     peerFin d = peerFin c \<and> peerFinSeq d = peerFinSeq c \<and>
     sndWindShift d = sndWindShift c \<and> rcvWindShift d = rcvWindShift c \<and>
     tsOK d = tsOK c \<and> tsRecent d = tsRecent c \<and> sackOK d = sackOK c \<and>
     sendMSS d = sendMSS c \<and> rcvBuffTotal d = rcvBuffTotal c \<and>
     nagleDisabled d = nagleDisabled c \<and> persistDeadline d = persistDeadline c \<and>
     persistArmed d = persistArmed c \<and> persistBackoff d = persistBackoff c \<and>
     overrideDeadline d = overrideDeadline c \<and> overrideArmed d = overrideArmed c \<and>
     keepaliveEnabled d = keepaliveEnabled c \<and> keepaliveIdle d = keepaliveIdle c \<and>
     lastRecvTime d = lastRecvTime c \<and> keepaliveProbes d = keepaliveProbes c \<and>
     localEP d = localEP c \<and> remoteEP d = remoteEP c \<and> portsSrc d = portsSrc c \<and>
     portsDst d = portsDst c \<and> deriveTo d = deriveTo c"

lemma recvOnlyD:
  assumes "recvOnly c d"
  shows
    "state d = state c" "origin d = origin c" "snd_una d = snd_una c" "snd_nxt d = snd_nxt c"
    "snd_wnd d = snd_wnd c" "snd_wl1 d = snd_wl1 c" "snd_wl2 d = snd_wl2 c"
    "snd_iss d = snd_iss c" "rcv_irs d = rcv_irs c"
    "reachedEstablished d = reachedEstablished c" "maxSndWnd d = maxSndWnd c" "clk d = clk c"
    "timeWaitDeadline d = timeWaitDeadline c" "timeWaitDuration d = timeWaitDuration c"
    "rtt d = rtt c" "rttValid d = rttValid c" "cong d = cong c" "sndBuf d = sndBuf c"
    "peerFin d = peerFin c" "peerFinSeq d = peerFinSeq c" "sndWindShift d = sndWindShift c"
    "rcvWindShift d = rcvWindShift c" "tsOK d = tsOK c" "tsRecent d = tsRecent c"
    "sackOK d = sackOK c" "sendMSS d = sendMSS c" "rcvBuffTotal d = rcvBuffTotal c"
    "nagleDisabled d = nagleDisabled c" "persistDeadline d = persistDeadline c"
    "persistArmed d = persistArmed c" "persistBackoff d = persistBackoff c"
    "overrideDeadline d = overrideDeadline c" "overrideArmed d = overrideArmed c"
    "keepaliveEnabled d = keepaliveEnabled c" "keepaliveIdle d = keepaliveIdle c"
    "lastRecvTime d = lastRecvTime c" "keepaliveProbes d = keepaliveProbes c"
    "localEP d = localEP c" "remoteEP d = remoteEP c" "portsSrc d = portsSrc c"
    "portsDst d = portsDst c" "deriveTo d = deriveTo c"
  using assms unfolding recvOnly_def by blast+

lemma recvOnly_refl [simp]: "recvOnly c c"
  by (simp add: recvOnly_def)

lemma recvOnly_trans: "recvOnly a b \<Longrightarrow> recvOnly b c \<Longrightarrow> recvOnly a c"
  by (simp add: recvOnly_def)

text \<open>
  The same for the operations of the state machine: \<open>queueOnly\<close> (RTT samples and the
  acknowledged part of the retransmission queue), \<open>retxOnly\<close> (retransmission and keep-alive,
  which may also close the connection) and \<open>ackOnly\<close> (everything the ACK field can change:
  the whole sending side and the state, nothing of the receiving side).
\<close>

definition queueOnly :: "Conn \<Rightarrow> Conn \<Rightarrow> bool" where
  "queueOnly c d \<longleftrightarrow>
     state d = state c \<and> origin d = origin c \<and> snd_una d = snd_una c \<and>
     snd_nxt d = snd_nxt c \<and> snd_wnd d = snd_wnd c \<and> snd_wl1 d = snd_wl1 c \<and>
     snd_wl2 d = snd_wl2 c \<and> snd_iss d = snd_iss c \<and> rcv_nxt d = rcv_nxt c \<and>
     rcv_wnd d = rcv_wnd c \<and> rcv_irs d = rcv_irs c \<and>
     reachedEstablished d = reachedEstablished c \<and> maxSndWnd d = maxSndWnd c \<and>
     clk d = clk c \<and> timeWaitDeadline d = timeWaitDeadline c \<and>
     timeWaitDuration d = timeWaitDuration c \<and> cong d = cong c \<and>
     challengeWindowStart d = challengeWindowStart c \<and>
     challengeCount d = challengeCount c \<and> sndBuf d = sndBuf c \<and>
     rcvBuf d = rcvBuf c \<and> oooSegs d = oooSegs c \<and> lastOooSeq d = lastOooSeq c \<and>
     peerFin d = peerFin c \<and> peerFinSeq d = peerFinSeq c \<and>
     sndWindShift d = sndWindShift c \<and> rcvWindShift d = rcvWindShift c \<and>
     tsOK d = tsOK c \<and> tsRecent d = tsRecent c \<and> lastAckSent d = lastAckSent c \<and>
     sackOK d = sackOK c \<and> sendMSS d = sendMSS c \<and>
     rcvBuffTotal d = rcvBuffTotal c \<and> nagleDisabled d = nagleDisabled c \<and>
     persistDeadline d = persistDeadline c \<and> persistArmed d = persistArmed c \<and>
     persistBackoff d = persistBackoff c \<and> overrideDeadline d = overrideDeadline c \<and>
     overrideArmed d = overrideArmed c \<and> delAckDeadline d = delAckDeadline c \<and>
     delAckArmed d = delAckArmed c \<and> delAckCount d = delAckCount c \<and>
     keepaliveEnabled d = keepaliveEnabled c \<and> keepaliveIdle d = keepaliveIdle c \<and>
     lastRecvTime d = lastRecvTime c \<and> keepaliveProbes d = keepaliveProbes c \<and>
     localEP d = localEP c \<and> remoteEP d = remoteEP c \<and> portsSrc d = portsSrc c \<and>
     portsDst d = portsDst c \<and> deriveTo d = deriveTo c \<and> outp d = outp c"

lemma queueOnlyD:
  assumes "queueOnly c d"
  shows
    "state d = state c" "origin d = origin c" "snd_una d = snd_una c" "snd_nxt d = snd_nxt c"
    "snd_wnd d = snd_wnd c" "snd_wl1 d = snd_wl1 c" "snd_wl2 d = snd_wl2 c"
    "snd_iss d = snd_iss c" "rcv_nxt d = rcv_nxt c" "rcv_wnd d = rcv_wnd c"
    "rcv_irs d = rcv_irs c" "reachedEstablished d = reachedEstablished c"
    "maxSndWnd d = maxSndWnd c" "clk d = clk c" "timeWaitDeadline d = timeWaitDeadline c"
    "timeWaitDuration d = timeWaitDuration c" "cong d = cong c"
    "challengeWindowStart d = challengeWindowStart c" "challengeCount d = challengeCount c"
    "sndBuf d = sndBuf c" "rcvBuf d = rcvBuf c" "oooSegs d = oooSegs c"
    "lastOooSeq d = lastOooSeq c" "peerFin d = peerFin c" "peerFinSeq d = peerFinSeq c"
    "sndWindShift d = sndWindShift c" "rcvWindShift d = rcvWindShift c" "tsOK d = tsOK c"
    "tsRecent d = tsRecent c" "lastAckSent d = lastAckSent c" "sackOK d = sackOK c"
    "sendMSS d = sendMSS c" "rcvBuffTotal d = rcvBuffTotal c"
    "nagleDisabled d = nagleDisabled c" "persistDeadline d = persistDeadline c"
    "persistArmed d = persistArmed c" "persistBackoff d = persistBackoff c"
    "overrideDeadline d = overrideDeadline c" "overrideArmed d = overrideArmed c"
    "delAckDeadline d = delAckDeadline c" "delAckArmed d = delAckArmed c"
    "delAckCount d = delAckCount c" "keepaliveEnabled d = keepaliveEnabled c"
    "keepaliveIdle d = keepaliveIdle c" "lastRecvTime d = lastRecvTime c"
    "keepaliveProbes d = keepaliveProbes c" "localEP d = localEP c" "remoteEP d = remoteEP c"
    "portsSrc d = portsSrc c" "portsDst d = portsDst c" "deriveTo d = deriveTo c"
    "outp d = outp c"
  using assms unfolding queueOnly_def by blast+

lemma queueOnly_refl [simp]: "queueOnly c c"
  by (simp add: queueOnly_def)

lemma queueOnly_trans: "queueOnly a b \<Longrightarrow> queueOnly b c \<Longrightarrow> queueOnly a c"
  by (simp add: queueOnly_def)


definition retxOnly :: "Conn \<Rightarrow> Conn \<Rightarrow> bool" where
  "retxOnly c d \<longleftrightarrow>
     origin d = origin c \<and> snd_una d = snd_una c \<and> snd_nxt d = snd_nxt c \<and>
     snd_wnd d = snd_wnd c \<and> snd_wl1 d = snd_wl1 c \<and> snd_wl2 d = snd_wl2 c \<and>
     snd_iss d = snd_iss c \<and> rcv_nxt d = rcv_nxt c \<and> rcv_wnd d = rcv_wnd c \<and>
     rcv_irs d = rcv_irs c \<and> reachedEstablished d = reachedEstablished c \<and>
     maxSndWnd d = maxSndWnd c \<and> clk d = clk c \<and>
     timeWaitDeadline d = timeWaitDeadline c \<and>
     timeWaitDuration d = timeWaitDuration c \<and> rtt d = rtt c \<and>
     rttValid d = rttValid c \<and> challengeWindowStart d = challengeWindowStart c \<and>
     challengeCount d = challengeCount c \<and> sndBuf d = sndBuf c \<and>
     rcvBuf d = rcvBuf c \<and> oooSegs d = oooSegs c \<and> lastOooSeq d = lastOooSeq c \<and>
     peerFin d = peerFin c \<and> peerFinSeq d = peerFinSeq c \<and>
     sndWindShift d = sndWindShift c \<and> rcvWindShift d = rcvWindShift c \<and>
     tsOK d = tsOK c \<and> tsRecent d = tsRecent c \<and> sackOK d = sackOK c \<and>
     sendMSS d = sendMSS c \<and> rcvBuffTotal d = rcvBuffTotal c \<and>
     nagleDisabled d = nagleDisabled c \<and> persistDeadline d = persistDeadline c \<and>
     persistArmed d = persistArmed c \<and> persistBackoff d = persistBackoff c \<and>
     overrideDeadline d = overrideDeadline c \<and> overrideArmed d = overrideArmed c \<and>
     delAckDeadline d = delAckDeadline c \<and> delAckArmed d = delAckArmed c \<and>
     delAckCount d = delAckCount c \<and> keepaliveEnabled d = keepaliveEnabled c \<and>
     keepaliveIdle d = keepaliveIdle c \<and> localEP d = localEP c \<and>
     remoteEP d = remoteEP c \<and> portsSrc d = portsSrc c \<and>
     portsDst d = portsDst c \<and> deriveTo d = deriveTo c"

lemma retxOnlyD:
  assumes "retxOnly c d"
  shows
    "origin d = origin c" "snd_una d = snd_una c" "snd_nxt d = snd_nxt c"
    "snd_wnd d = snd_wnd c" "snd_wl1 d = snd_wl1 c" "snd_wl2 d = snd_wl2 c"
    "snd_iss d = snd_iss c" "rcv_nxt d = rcv_nxt c" "rcv_wnd d = rcv_wnd c"
    "rcv_irs d = rcv_irs c" "reachedEstablished d = reachedEstablished c"
    "maxSndWnd d = maxSndWnd c" "clk d = clk c" "timeWaitDeadline d = timeWaitDeadline c"
    "timeWaitDuration d = timeWaitDuration c" "rtt d = rtt c" "rttValid d = rttValid c"
    "challengeWindowStart d = challengeWindowStart c" "challengeCount d = challengeCount c"
    "sndBuf d = sndBuf c" "rcvBuf d = rcvBuf c" "oooSegs d = oooSegs c"
    "lastOooSeq d = lastOooSeq c" "peerFin d = peerFin c" "peerFinSeq d = peerFinSeq c"
    "sndWindShift d = sndWindShift c" "rcvWindShift d = rcvWindShift c" "tsOK d = tsOK c"
    "tsRecent d = tsRecent c" "sackOK d = sackOK c" "sendMSS d = sendMSS c"
    "rcvBuffTotal d = rcvBuffTotal c" "nagleDisabled d = nagleDisabled c"
    "persistDeadline d = persistDeadline c" "persistArmed d = persistArmed c"
    "persistBackoff d = persistBackoff c" "overrideDeadline d = overrideDeadline c"
    "overrideArmed d = overrideArmed c" "delAckDeadline d = delAckDeadline c"
    "delAckArmed d = delAckArmed c" "delAckCount d = delAckCount c"
    "keepaliveEnabled d = keepaliveEnabled c" "keepaliveIdle d = keepaliveIdle c"
    "localEP d = localEP c" "remoteEP d = remoteEP c" "portsSrc d = portsSrc c"
    "portsDst d = portsDst c" "deriveTo d = deriveTo c"
  using assms unfolding retxOnly_def by blast+

lemma retxOnly_refl [simp]: "retxOnly c c"
  by (simp add: retxOnly_def)

lemma retxOnly_trans: "retxOnly a b \<Longrightarrow> retxOnly b c \<Longrightarrow> retxOnly a c"
  by (simp add: retxOnly_def)


definition ackOnly :: "Conn \<Rightarrow> Conn \<Rightarrow> bool" where
  "ackOnly c d \<longleftrightarrow>
     origin d = origin c \<and> snd_iss d = snd_iss c \<and> rcv_nxt d = rcv_nxt c \<and>
     rcv_wnd d = rcv_wnd c \<and> rcv_irs d = rcv_irs c \<and> clk d = clk c \<and>
     timeWaitDuration d = timeWaitDuration c \<and> rcvBuf d = rcvBuf c \<and>
     oooSegs d = oooSegs c \<and> lastOooSeq d = lastOooSeq c \<and>
     peerFin d = peerFin c \<and> peerFinSeq d = peerFinSeq c \<and>
     sndWindShift d = sndWindShift c \<and> rcvWindShift d = rcvWindShift c \<and>
     tsOK d = tsOK c \<and> tsRecent d = tsRecent c \<and> sackOK d = sackOK c \<and>
     sendMSS d = sendMSS c \<and> rcvBuffTotal d = rcvBuffTotal c \<and>
     nagleDisabled d = nagleDisabled c \<and> delAckDeadline d = delAckDeadline c \<and>
     delAckArmed d = delAckArmed c \<and> delAckCount d = delAckCount c \<and>
     keepaliveEnabled d = keepaliveEnabled c \<and> keepaliveIdle d = keepaliveIdle c \<and>
     lastRecvTime d = lastRecvTime c \<and> keepaliveProbes d = keepaliveProbes c \<and>
     localEP d = localEP c \<and> remoteEP d = remoteEP c \<and> portsSrc d = portsSrc c \<and>
     portsDst d = portsDst c \<and> deriveTo d = deriveTo c"

lemma ackOnlyD:
  assumes "ackOnly c d"
  shows
    "origin d = origin c" "snd_iss d = snd_iss c" "rcv_nxt d = rcv_nxt c"
    "rcv_wnd d = rcv_wnd c" "rcv_irs d = rcv_irs c" "clk d = clk c"
    "timeWaitDuration d = timeWaitDuration c" "rcvBuf d = rcvBuf c" "oooSegs d = oooSegs c"
    "lastOooSeq d = lastOooSeq c" "peerFin d = peerFin c" "peerFinSeq d = peerFinSeq c"
    "sndWindShift d = sndWindShift c" "rcvWindShift d = rcvWindShift c" "tsOK d = tsOK c"
    "tsRecent d = tsRecent c" "sackOK d = sackOK c" "sendMSS d = sendMSS c"
    "rcvBuffTotal d = rcvBuffTotal c" "nagleDisabled d = nagleDisabled c"
    "delAckDeadline d = delAckDeadline c" "delAckArmed d = delAckArmed c"
    "delAckCount d = delAckCount c" "keepaliveEnabled d = keepaliveEnabled c"
    "keepaliveIdle d = keepaliveIdle c" "lastRecvTime d = lastRecvTime c"
    "keepaliveProbes d = keepaliveProbes c" "localEP d = localEP c" "remoteEP d = remoteEP c"
    "portsSrc d = portsSrc c" "portsDst d = portsDst c" "deriveTo d = deriveTo c"
  using assms unfolding ackOnly_def by blast+

lemma ackOnly_refl [simp]: "ackOnly c c"
  by (simp add: ackOnly_def)

lemma ackOnly_trans: "ackOnly a b \<Longrightarrow> ackOnly b c \<Longrightarrow> ackOnly a c"
  by (simp add: ackOnly_def)


lemma outputOnly_sendOnly: "outputOnly c d \<Longrightarrow> sendOnly c d"
  by (simp add: outputOnly_def sendOnly_def)

lemma outputOnly_recvOnly: "outputOnly c d \<Longrightarrow> recvOnly c d"
  by (simp add: outputOnly_def recvOnly_def)

lemma queueOnly_ackOnly: "queueOnly c d \<Longrightarrow> ackOnly c d"
  by (simp add: queueOnly_def ackOnly_def)

lemma sendOnly_ackOnly:
  "sendOnly c d \<Longrightarrow> delAckArmed d = delAckArmed c \<Longrightarrow> delAckCount d = delAckCount c \<Longrightarrow>
     ackOnly c d"
  by (simp add: sendOnly_def ackOnly_def)

lemma retxOnly_ackOnly:
  "retxOnly c d \<Longrightarrow> keepaliveProbes d = keepaliveProbes c \<Longrightarrow> lastRecvTime d = lastRecvTime c \<Longrightarrow>
     ackOnly c d"
  by (simp add: retxOnly_def ackOnly_def)

lemma tick_queueOnly: "queueOnly c (tick c)"
  by (simp add: queueOnly_def tick_def)

lemma tick_retxOnly: "retxOnly c (tick c)"
  by (simp add: retxOnly_def tick_def)

lemma tick_ackOnly: "ackOnly c (tick c)"
  by (simp add: ackOnly_def tick_def)

lemma tick_outputOnly: "outputOnly c (tick c)"
  by (simp add: outputOnly_def tick_def)

lemmas tick_frame [simp, frame] = outputOnlyD [OF tick_outputOnly]

end
