(* ===== verification/Tcp_Output.thy ===== *)
theory Tcp_Output
  imports Tcp_Frames Net_Ipv4
begin

unbundle bit_operations_syntax

section \<open>Sending segments (statemachine.go, sack.go, rto of the retransmission queue)\<close>

text \<open>
  Everything that builds a segment and hands it to the link: \<open>writeSegOpts\<close> (header, TCP
  checksum, IPv4 header), \<open>sendData\<close> with the retransmission queue, the ACK with its SACK
  blocks, the throttled challenge ACK and RST. The methods of the code that only forward
  (\<open>writeSeg\<close>, \<open>send\<close>, \<open>sendDelayedAck\<close>) are definitions of their own.
\<close>

subsection \<open>writeSegOpts\<close>

text \<open>The advertised window: the receive window, shifted unless the segment is a SYN.\<close>

definition windowField :: "Conn \<Rightarrow> Flags \<Rightarrow> u16" where
  "windowField c flags =
     (let w = rcv_wnd c;
          w = (if \<not> Has flags FlagSYN then drop_bit (unat (rcvWindShift c)) w else w);
          w = (if w > ucast maxWindow then ucast maxWindow else w)
      in ucast w)"

definition tcpHeaderOf :: "Conn \<Rightarrow> Flags \<Rightarrow> u32 \<Rightarrow> u32 \<Rightarrow> byte list \<Rightarrow> TCPHeader" where
  "tcpHeaderOf c flags sq ack opts =
     \<lparr>SrcPort = portsSrc c, DstPort = portsDst c, SeqNum = sq, AckNum = ack, DataOffset = 5,
      HdrFlags = flags, Window = windowField c flags, HdrChecksum = 0, UrgentPtr = 0,
      Options = opts\<rparr>"

definition tcpSegmentOf :: "Conn \<Rightarrow> Flags \<Rightarrow> u32 \<Rightarrow> u32 \<Rightarrow> byte list \<Rightarrow> byte list \<Rightarrow> byte list" where
  "tcpSegmentOf c flags sq ack payload opts =
     (let seg = MarshalTCP (tcpHeaderOf c flags sq ack opts) @ payload
      in PutBe16 seg 16 (TCPChecksum (epIP (localEP c)) (epIP (remoteEP c)) seg))"

definition ipHeaderOf :: "Conn \<Rightarrow> byte list \<Rightarrow> IPv4Header" where
  "ipHeaderOf c seg =
     \<lparr>Version = 0, IHL = 0, TotalLength = of_nat (20 + length seg), ID = 0, TTL = 64,
      Protocol = 6, SrcAddr = epIP (localEP c), DstAddr = epIP (remoteEP c)\<rparr>"

definition packetOf :: "Conn \<Rightarrow> Flags \<Rightarrow> u32 \<Rightarrow> u32 \<Rightarrow> byte list \<Rightarrow> byte list \<Rightarrow> byte list" where
  "packetOf c flags sq ack payload opts =
     (let seg = tcpSegmentOf c flags sq ack payload opts
      in MarshalIPv4 (ipHeaderOf c seg) @ seg)"

definition writeSegOpts :: "Conn \<Rightarrow> Flags \<Rightarrow> u32 \<Rightarrow> u32 \<Rightarrow> byte list \<Rightarrow> byte list \<Rightarrow> Conn" where
  "writeSegOpts c flags sq ack payload opts =
     (let (opts, c) =
        (if opts = [] \<and> tsOK c \<and> \<not> Has flags FlagSYN \<and> \<not> Has flags FlagRST then
           (let (v, c) = tsNow c;
                o' = noOptions\<lparr>HasTimestamp := True, TSVal := v\<rparr>;
                o' = (if Has flags FlagACK then o'\<lparr>TSecr := tsRecent c\<rparr> else o')
            in (MarshalOptions o', c))
         else (opts, c));
          pkt = packetOf c flags sq ack payload opts;
          c = (if Has flags FlagACK then c\<lparr>lastAckSent := ack\<rparr> else c)
      in c\<lparr>outp := outp c @ [pkt]\<rparr>)"

definition writeSeg :: "Conn \<Rightarrow> Flags \<Rightarrow> u32 \<Rightarrow> u32 \<Rightarrow> byte list \<Rightarrow> Conn" where
  "writeSeg c flags sq ack payload = writeSegOpts c flags sq ack payload []"

subsection \<open>The retransmission queue\<close>

definition currentRTO :: "Conn \<Rightarrow> duration" where
  "currentRTO c =
     (if \<not> rttValid c then initialRTO else int (unat (Rto (rtt c))) * millisecond)"

definition enqueueRetx :: "Conn \<Rightarrow> retxSeg \<Rightarrow> Conn" where
  "enqueueRetx c seg =
     (let c = (if retxQueue c = [] then c\<lparr>curRTO := currentRTO c\<rparr> else c)
      in c\<lparr>retxQueue := retxQueue c @ [seg]\<rparr>)"

definition sendData :: "Conn \<Rightarrow> Flags \<Rightarrow> u32 \<Rightarrow> u32 \<Rightarrow> byte list \<Rightarrow> Conn" where
  "sendData c flags sq ack payload =
     (let c = writeSeg c flags sq ack payload;
          seg = \<lparr>rsSeq = sq, rsFlags = flags, rsPayload = payload, rsSentAt = now c,
                 rsRetries = 0, rsRetransmitted = False\<rparr>;
          c = tick c
      in if seqLen seg = 0 then c else enqueueRetx c seg)"

definition send :: "Conn \<Rightarrow> Flags \<Rightarrow> u32 \<Rightarrow> u32 \<Rightarrow> Conn" where
  "send c flags sq ack = sendData c flags sq ack []"

definition synOptionBytes :: "Conn \<Rightarrow> u32 \<Rightarrow> byte list \<times> Conn" where
  "synOptionBytes c ack =
     (let (v, c) = tsNow c;
          o' = noOptions\<lparr>HasMSS := True, MSS := ucast defaultMSS,
                 HasWScale := True, WindowScale := myWindowScale,
                 HasTimestamp := True, TSVal := v, SACKPermitted := True\<rparr>;
          o' = (if ack \<noteq> 0 then o'\<lparr>TSecr := tsRecent c\<rparr> else o')
      in (MarshalOptions o', c))"

definition sendSyn :: "Conn \<Rightarrow> Flags \<Rightarrow> u32 \<Rightarrow> u32 \<Rightarrow> Conn" where
  "sendSyn c flags sq ack =
     (let (opts, c) = synOptionBytes c ack;
          c = writeSegOpts c flags sq ack [] opts;
          seg = \<lparr>rsSeq = sq, rsFlags = flags, rsPayload = [], rsSentAt = now c,
                 rsRetries = 0, rsRetransmitted = False\<rparr>
      in enqueueRetx (tick c) seg)"

subsection \<open>SACK blocks and ACKs\<close>

fun mergeBlocks :: "(u32 \<times> u32) list \<Rightarrow> segFragment list \<Rightarrow> (u32 \<times> u32) list" where
  "mergeBlocks blocks [] = blocks"
| "mergeBlocks blocks (s # ss) =
     (let left = fragSeq s; right = fragSeq s + of_nat (length (fragData s)) in
      if blocks \<noteq> [] \<and> snd (last blocks) = left
      then mergeBlocks (blocks[length blocks - 1 := (fst (last blocks), right)]) ss
      else mergeBlocks (blocks @ [(left, right)]) ss)"

text \<open>The block that holds the latest fragment is swapped to the front.\<close>

fun latestIndex :: "u32 \<Rightarrow> nat \<Rightarrow> (u32 \<times> u32) list \<Rightarrow> nat option" where
  "latestIndex latest i [] = None"
| "latestIndex latest i (b # bs) =
     (if SeqLEQ (fst b) latest \<and> SeqLT latest (snd b) then Some i
      else latestIndex latest (Suc i) bs)"

definition latestFirst :: "u32 \<Rightarrow> (u32 \<times> u32) list \<Rightarrow> (u32 \<times> u32) list" where
  "latestFirst latest blocks =
     (case latestIndex latest 0 blocks of
        None \<Rightarrow> blocks
      | Some i \<Rightarrow> if i \<noteq> 0 then blocks[0 := blocks ! i, i := blocks ! 0] else blocks)"

definition sackBlocks :: "Conn \<Rightarrow> nat \<Rightarrow> (u32 \<times> u32) list" where
  "sackBlocks c maxBlocks =
     (if oooSegs c = [] \<or> maxBlocks = 0 then []
      else
        (let blocks = latestFirst (lastOooSeq c) (mergeBlocks [] (oooSegs c))
         in if length blocks > maxBlocks then take maxBlocks blocks else blocks))"

definition ackOptions :: "Conn \<Rightarrow> byte list \<times> Conn" where
  "ackOptions c =
     (if \<not> sackOK c \<or> oooSegs c = [] then ([], c)
      else
        (let (o', maxBlocks, c) =
           (if tsOK c then
              (let (v, c) = tsNow c
               in (noOptions\<lparr>HasTimestamp := True, TSVal := v, TSecr := tsRecent c\<rparr>,
                   maxSackBlocks - 1, c))
            else (noOptions, maxSackBlocks, c));
             blocks = sackBlocks c maxBlocks
         in if blocks = [] then ([], c)
            else (MarshalOptions (o'\<lparr>SACKBlocks := blocks\<rparr>), c)))"

definition sendAck :: "Conn \<Rightarrow> Conn" where
  "sendAck c =
     (let c = c\<lparr>delAckArmed := False, delAckCount := 0\<rparr>;
          (opts, c) = ackOptions c
      in if opts \<noteq> [] then writeSegOpts c FlagACK (snd_nxt c) (rcv_nxt c) [] opts
         else send c FlagACK (snd_nxt c) (rcv_nxt c))"

definition sendDelayedAck :: "Conn \<Rightarrow> Conn" where
  "sendDelayedAck c = sendAck c"

subsection \<open>Challenge ACK and RST\<close>

definition allowChallengeAck :: "Conn \<Rightarrow> bool \<times> Conn" where
  "allowChallengeAck c =
     (let t = now c; c = tick c;
          c = (if timeSub t (challengeWindowStart c) > challengeAckWindow
               then c\<lparr>challengeWindowStart := t, challengeCount := 0\<rparr> else c)
      in if challengeCount c \<ge> challengeAckLimit then (False, c)
         else (True, c\<lparr>challengeCount := challengeCount c + 1\<rparr>))"

definition sendChallengeAck :: "Conn \<Rightarrow> Conn" where
  "sendChallengeAck c =
     (let (ok, c) = allowChallengeAck c
      in if \<not> ok then c else send c FlagACK (snd_nxt c) (rcv_nxt c))"

definition sendRst :: "Conn \<Rightarrow> u32 \<Rightarrow> Conn" where
  "sendRst c sq = send c FlagRST sq 0"

subsection \<open>Frames\<close>

lemma writeSegOpts_outputOnly: "outputOnly c (writeSegOpts c f s a p o')"
  by (simp add: outputOnly_def writeSegOpts_def Let_def tsNow_def tick_def)

lemmas writeSegOpts_frame [simp, frame] = outputOnlyD [OF writeSegOpts_outputOnly]

lemma writeSegOpts_fields [simp, frame]:
  "retxQueue (writeSegOpts c f s a p o') = retxQueue c"
  "curRTO (writeSegOpts c f s a p o') = curRTO c"
  "delAckArmed (writeSegOpts c f s a p o') = delAckArmed c"
  "delAckCount (writeSegOpts c f s a p o') = delAckCount c"
  "challengeWindowStart (writeSegOpts c f s a p o') = challengeWindowStart c"
  "challengeCount (writeSegOpts c f s a p o') = challengeCount c"
  "lastAckSent (writeSegOpts c f s a p o') = (if Has f FlagACK then a else lastAckSent c)"
  by (simp_all add: writeSegOpts_def Let_def tsNow_def tick_def)

lemma enqueueRetx_outputOnly: "outputOnly c (enqueueRetx c r)"
  by (simp add: outputOnly_def enqueueRetx_def Let_def)

lemmas enqueueRetx_frame [simp, frame] = outputOnlyD [OF enqueueRetx_outputOnly]

lemma enqueueRetx_fields [simp, frame]:
  "retxQueue (enqueueRetx c r) = retxQueue c @ [r]"
  "curRTO (enqueueRetx c r) = (if retxQueue c = [] then currentRTO c else curRTO c)"
  "outp (enqueueRetx c r) = outp c" "lastAckSent (enqueueRetx c r) = lastAckSent c"
  "ticks (enqueueRetx c r) = ticks c"
  "delAckArmed (enqueueRetx c r) = delAckArmed c"
  "delAckCount (enqueueRetx c r) = delAckCount c"
  "challengeWindowStart (enqueueRetx c r) = challengeWindowStart c"
  "challengeCount (enqueueRetx c r) = challengeCount c"
  by (simp_all add: enqueueRetx_def Let_def)

lemma currentRTO_cong: "rttValid c = rttValid d \<Longrightarrow> rtt c = rtt d \<Longrightarrow> currentRTO c = currentRTO d"
  by (simp add: currentRTO_def)

lemma sendData_outputOnly: "outputOnly c (sendData c f s a p)"
  by (simp add: outputOnly_def sendData_def writeSeg_def Let_def)

lemmas sendData_frame [simp, frame] = outputOnlyD [OF sendData_outputOnly]

text \<open>Whether a segment occupies sequence space, and so goes to the retransmission queue.\<close>

definition occupies :: "Flags \<Rightarrow> byte list \<Rightarrow> bool" where
  "occupies f p \<longleftrightarrow>
     (of_nat (length p) + (if Has f FlagSYN then 1 else 0) + (if Has f FlagFIN then 1 else 0)) \<noteq> (0 :: u32)"

lemma seqLen_0: "seqLen r = 0 \<longleftrightarrow> \<not> occupies (rsFlags r) (rsPayload r)"
  by (simp add: seqLen_def occupies_def Let_def)

lemma sendData_fields [simp, frame]:
  "curRTO (sendData c f s a p) =
     (if occupies f p \<and> retxQueue c = [] then currentRTO c else curRTO c)"
  "delAckArmed (sendData c f s a p) = delAckArmed c"
  "delAckCount (sendData c f s a p) = delAckCount c"
  "challengeWindowStart (sendData c f s a p) = challengeWindowStart c"
  "challengeCount (sendData c f s a p) = challengeCount c"
  "lastAckSent (sendData c f s a p) = (if Has f FlagACK then a else lastAckSent c)"
  by (auto simp: sendData_def writeSeg_def Let_def seqLen_0 intro!: currentRTO_cong)

text \<open>The queue grows at its end by the segment, stamped with the clock after the write.\<close>

lemma sendData_queue:
  "retxQueue (sendData c f s a p) = retxQueue c @
     (if occupies f p
      then [\<lparr>rsSeq = s, rsFlags = f, rsPayload = p, rsSentAt = now (writeSeg c f s a p),
             rsRetries = 0, rsRetransmitted = False\<rparr>] else [])"
  by (auto simp: sendData_def writeSeg_def Let_def seqLen_0)

lemma occupies_simps [simp]:
  "\<not> occupies FlagACK []" "\<not> occupies FlagRST []" "\<not> occupies (FlagRST OR FlagACK) []"
  "occupies (FlagFIN OR FlagACK) []" "occupies FlagSYN []" "occupies (FlagSYN OR FlagACK) []"
  by (simp_all add: occupies_def Has_or)

lemma send_ack_queue [simp]:
  "\<not> occupies f [] \<Longrightarrow> retxQueue (send c f s a) = retxQueue c"
  by (simp add: send_def sendData_queue)

lemma send_outputOnly: "outputOnly c (send c f s a)"
  by (simp add: send_def sendData_outputOnly)

lemmas send_frame [simp, frame] = outputOnlyD [OF send_outputOnly]

lemma send_fields [simp, frame]:
  "delAckArmed (send c f s a) = delAckArmed c" "delAckCount (send c f s a) = delAckCount c"
  "challengeWindowStart (send c f s a) = challengeWindowStart c"
  "challengeCount (send c f s a) = challengeCount c"
  "lastAckSent (send c f s a) = (if Has f FlagACK then a else lastAckSent c)"
  "\<not> occupies f [] \<Longrightarrow> curRTO (send c f s a) = curRTO c"
  by (simp_all add: send_def)

lemma synOptionBytes_snd [simp]: "snd (synOptionBytes c a) = tick c"
  by (simp add: synOptionBytes_def tsNow_def Let_def)

lemma sendSyn_outputOnly: "outputOnly c (sendSyn c f s a)"
  by (simp add: outputOnly_def sendSyn_def case_prod_unfold Let_def)

lemmas sendSyn_frame [simp, frame] = outputOnlyD [OF sendSyn_outputOnly]

lemma sendSyn_fields [simp, frame]:
  "delAckArmed (sendSyn c f s a) = delAckArmed c" "delAckCount (sendSyn c f s a) = delAckCount c"
  "challengeWindowStart (sendSyn c f s a) = challengeWindowStart c"
  "challengeCount (sendSyn c f s a) = challengeCount c"
  by (simp_all add: sendSyn_def case_prod_unfold Let_def)

lemma sendSyn_queue:
  "\<exists>t. retxQueue (sendSyn c f s a) = retxQueue c @
     [\<lparr>rsSeq = s, rsFlags = f, rsPayload = [], rsSentAt = t, rsRetries = 0,
       rsRetransmitted = False\<rparr>]"
  by (simp add: sendSyn_def case_prod_unfold Let_def)

lemma ackOptions_snd: "snd (ackOptions c) = c \<or> snd (ackOptions c) = tick c"
  by (simp add: ackOptions_def tsNow_def Let_def case_prod_unfold)

lemma ackOptions_outputOnly: "outputOnly c (snd (ackOptions c))"
  using ackOptions_snd [of c] tick_outputOnly [of c] by auto

lemmas ackOptions_frame [simp, frame] = outputOnlyD [OF ackOptions_outputOnly]

lemma ackOptions_fields [simp, frame]:
  "retxQueue (snd (ackOptions c)) = retxQueue c" "curRTO (snd (ackOptions c)) = curRTO c"
  "outp (snd (ackOptions c)) = outp c" "lastAckSent (snd (ackOptions c)) = lastAckSent c"
  "delAckArmed (snd (ackOptions c)) = delAckArmed c"
  "delAckCount (snd (ackOptions c)) = delAckCount c"
  "challengeWindowStart (snd (ackOptions c)) = challengeWindowStart c"
  "challengeCount (snd (ackOptions c)) = challengeCount c"
  using ackOptions_snd [of c] by auto

lemma sendAck_outputOnly: "outputOnly c (sendAck c)"
  by (simp add: outputOnly_def sendAck_def case_prod_unfold Let_def)

lemmas sendAck_frame [simp, frame] = outputOnlyD [OF sendAck_outputOnly]

lemma sendAck_fields [simp, frame]:
  "retxQueue (sendAck c) = retxQueue c" "curRTO (sendAck c) = curRTO c"
  "delAckArmed (sendAck c) = False" "delAckCount (sendAck c) = 0"
  "challengeWindowStart (sendAck c) = challengeWindowStart c"
  "challengeCount (sendAck c) = challengeCount c" "lastAckSent (sendAck c) = rcv_nxt c"
  by (simp_all add: sendAck_def case_prod_unfold Let_def)

lemma allowChallengeAck_outputOnly: "outputOnly c (snd (allowChallengeAck c))"
  by (simp add: outputOnly_def allowChallengeAck_def Let_def)

lemmas allowChallengeAck_frame [simp, frame] = outputOnlyD [OF allowChallengeAck_outputOnly]

lemma allowChallengeAck_fields [simp, frame]:
  "retxQueue (snd (allowChallengeAck c)) = retxQueue c"
  "curRTO (snd (allowChallengeAck c)) = curRTO c"
  "outp (snd (allowChallengeAck c)) = outp c"
  "ticks (snd (allowChallengeAck c)) = Suc (ticks c)"
  "delAckArmed (snd (allowChallengeAck c)) = delAckArmed c"
  "delAckCount (snd (allowChallengeAck c)) = delAckCount c"
  by (simp_all add: allowChallengeAck_def Let_def)

lemma sendChallengeAck_outputOnly: "outputOnly c (sendChallengeAck c)"
  by (simp add: outputOnly_def sendChallengeAck_def case_prod_unfold Let_def)

lemmas sendChallengeAck_frame [simp, frame] = outputOnlyD [OF sendChallengeAck_outputOnly]

lemma sendChallengeAck_fields [simp, frame]:
  "retxQueue (sendChallengeAck c) = retxQueue c" "curRTO (sendChallengeAck c) = curRTO c"
  "delAckArmed (sendChallengeAck c) = delAckArmed c"
  "delAckCount (sendChallengeAck c) = delAckCount c"
  by (simp_all add: sendChallengeAck_def case_prod_unfold Let_def)

lemma sendRst_outputOnly: "outputOnly c (sendRst c s)"
  by (simp add: sendRst_def send_outputOnly)

lemmas sendRst_frame [simp, frame] = outputOnlyD [OF sendRst_outputOnly]

lemma sendRst_fields [simp, frame]:
  "retxQueue (sendRst c s) = retxQueue c" "curRTO (sendRst c s) = curRTO c"
  "delAckArmed (sendRst c s) = delAckArmed c" "delAckCount (sendRst c s) = delAckCount c"
  "challengeWindowStart (sendRst c s) = challengeWindowStart c"
  "challengeCount (sendRst c s) = challengeCount c" "lastAckSent (sendRst c s) = lastAckSent c"
  by (simp_all add: sendRst_def)

subsection \<open>SACK blocks cover only data that is held\<close>

definition held :: "segFragment list \<Rightarrow> u32 \<Rightarrow> bool" where
  "held ss x \<longleftrightarrow> (\<exists>s\<in>set ss. \<exists>j<length (fragData s). x = fragSeq s + of_nat j)"

definition covered :: "segFragment list \<Rightarrow> u32 \<times> u32 \<Rightarrow> bool" where
  "covered ss b \<longleftrightarrow>
     (\<exists>n. snd b = fst b + of_nat n \<and> (\<forall>k<n. held ss (fst b + of_nat k)))"

lemma covered_frag:
  "s \<in> set ss \<Longrightarrow> covered ss (fragSeq s, fragSeq s + of_nat (length (fragData s)))"
  by (auto simp: covered_def held_def)

lemma covered_join:
  assumes "covered ss (l, m)" "covered ss (m, r)"
  shows "covered ss (l, r)"
proof -
  obtain n where n: "m = l + of_nat n" "\<forall>k<n. held ss (l + of_nat k)"
    using assms(1) by (auto simp: covered_def)
  obtain n' where n': "r = m + of_nat n'" "\<forall>k<n'. held ss (m + of_nat k)"
    using assms(2) by (auto simp: covered_def)
  have "held ss (l + of_nat k)" if "k < n + n'" for k
  proof (cases "k < n")
    case False
    then have "(of_nat k :: u32) = of_nat n + of_nat (k - n)" by (simp flip: of_nat_add)
    then have "l + of_nat k = m + of_nat (k - n)" using n(1) by (simp add: add.assoc)
    moreover have "k - n < n'" using False that by linarith
    then have "held ss (m + of_nat (k - n))" using n'(2) by blast
    ultimately show ?thesis by (simp only:)
  qed (use n(2) in simp)
  then show ?thesis using n(1) n'(1) by (auto simp: covered_def intro!: exI [of _ "n + n'"])
qed

lemma mergeBlocks_covered:
  assumes "set ss \<subseteq> set all" "\<forall>b\<in>set bs. covered all b"
  shows "\<forall>b\<in>set (mergeBlocks bs ss). covered all b"
  using assms
proof (induction bs ss rule: mergeBlocks.induct)
  case (2 blocks s ss)
  let ?r = "fragSeq s + of_nat (length (fragData s))"
  have f: "covered all (fragSeq s, ?r)" using "2.prems"(1) by (intro covered_frag) simp
  show ?case
  proof (cases "blocks \<noteq> [] \<and> snd (last blocks) = fragSeq s")
    case True
    then have "covered all (fst (last blocks), fragSeq s)"
      using "2.prems"(2) by (metis last_in_set prod.collapse)
    then have "covered all (fst (last blocks), ?r)" using f by (rule covered_join)
    then have "\<forall>b\<in>set (blocks[length blocks - 1 := (fst (last blocks), ?r)]). covered all b"
      using "2.prems"(2) set_update_subset_insert by fastforce
    with "2.IH"(1) [OF refl refl True] "2.prems"(1) True show ?thesis by simp
  next
    case False
    with "2.IH"(2) [OF refl refl False] "2.prems" f show ?thesis by (auto simp: Let_def)
  qed
qed simp

lemma latestIndex_bound: "latestIndex x i bs = Some j \<Longrightarrow> i \<le> j \<and> j < i + length bs"
  by (induction x i bs rule: latestIndex.induct) (auto split: if_splits)

lemma set_latestFirst: "set (latestFirst x bs) = set bs"
proof (cases "latestIndex x 0 bs")
  case (Some i)
  then have i: "i < length bs" using latestIndex_bound [of x 0 bs] by simp
  then have "set (bs[0 := bs ! i, i := bs ! 0]) = set bs" by (intro set_swap) auto
  with Some show ?thesis by (simp add: latestFirst_def)
qed (simp add: latestFirst_def)

lemma sackBlocks_covered: "\<forall>b\<in>set (sackBlocks c n). covered (oooSegs c) b"
proof -
  have "\<forall>b\<in>set (latestFirst (lastOooSeq c) (mergeBlocks [] (oooSegs c))). covered (oooSegs c) b"
    using mergeBlocks_covered [of "oooSegs c" "oooSegs c" "[]"] by (simp add: set_latestFirst)
  then show ?thesis by (auto simp: sackBlocks_def Let_def dest: in_set_takeD)
qed

text \<open>Every sequence number inside a reported block is a byte that is held.\<close>

lemma covered_held:
  assumes "covered ss (l, r)" "dist l x < dist l r"
  shows "held ss x"
proof -
  obtain n where n: "r = l + of_nat n" "\<forall>k<n. held ss (l + of_nat k)"
    using assms(1) by (auto simp: covered_def)
  have "dist l r \<le> n" by (simp add: n(1) dist_def unat_of_nat)
  then have "held ss (l + of_nat (dist l x))" using n(2) assms(2) by simp
  then show ?thesis by (simp add: add_dist)
qed

subsection \<open>The rate of challenge ACKs\<close>

text \<open>How many of \<open>n\<close> consecutive decisions let a challenge ACK through.\<close>

fun challengesAllowed :: "nat \<Rightarrow> Conn \<Rightarrow> nat" where
  "challengesAllowed 0 c = 0"
| "challengesAllowed (Suc n) c =
     (let (ok, d) = allowChallengeAck c in (if ok then 1 else 0) + challengesAllowed n d)"

lemma allowChallengeAck_cases:
  fixes c
  defines "d \<equiv> snd (allowChallengeAck c)" and "t \<equiv> now c"
  shows "timeSub t (challengeWindowStart c) > challengeAckWindow \<Longrightarrow>
      fst (allowChallengeAck c) \<and> challengeWindowStart d = t \<and> challengeCount d = 1"
    "\<not> timeSub t (challengeWindowStart c) > challengeAckWindow \<Longrightarrow>
      challengeWindowStart d = challengeWindowStart c \<and>
      (fst (allowChallengeAck c) \<longleftrightarrow> challengeCount c < challengeAckLimit) \<and>
      challengeCount d = challengeCount c + (if fst (allowChallengeAck c) then 1 else 0)"
  by (auto simp: d_def t_def allowChallengeAck_def Let_def challengeAckLimit_def)

lemma timeSub_gt_window:
  "timeSub t u > challengeAckWindow \<longleftrightarrow> t - u > challengeAckWindow"
  by (auto simp: timeSub_def tcb_consts time_defs)

text \<open>
  All the readings of the clock in an interval of at most five seconds that starts at \<open>t0\<close>:
  if the current window began inside it, only the rest of its budget is left; otherwise one
  more window can begin.
\<close>

lemma challengesAllowed_le:
  assumes "challengeCount c \<le> challengeAckLimit"
    and "\<And>k. k < n \<Longrightarrow> t0 \<le> clk c (ticks c + k) \<and> clk c (ticks c + k) \<le> t0 + challengeAckWindow"
  shows "challengesAllowed n c \<le>
    (if t0 \<le> challengeWindowStart c then challengeAckLimit - challengeCount c
     else 2 * challengeAckLimit - challengeCount c)"
  using assms
proof (induction n arbitrary: c)
  case (Suc n)
  let ?d = "snd (allowChallengeAck c)"
  have t: "t0 \<le> now c" "now c \<le> t0 + challengeAckWindow"
    using Suc.prems(2) [of 0] by (simp_all add: now_def)
  have later: "t0 \<le> clk ?d (ticks ?d + k) \<and> clk ?d (ticks ?d + k) \<le> t0 + challengeAckWindow"
    if "k < n" for k
    using Suc.prems(2) [of "Suc k"] that by simp
  show ?case
  proof (cases "now c - challengeWindowStart c > challengeAckWindow")
    case True
    then have d: "fst (allowChallengeAck c)" "challengeWindowStart ?d = now c" "challengeCount ?d = 1"
      using allowChallengeAck_cases(1) [of c] by (simp_all add: timeSub_gt_window)
    then have "challengesAllowed n ?d \<le> challengeAckLimit - 1"
      using Suc.IH [of ?d] later t by (simp add: challengeAckLimit_def)
    moreover have "\<not> t0 \<le> challengeWindowStart c" using True t by linarith
    ultimately show ?thesis
      using d(1) Suc.prems(1) by (simp add: case_prod_unfold challengeAckLimit_def)
  next
    case False
    then have d: "challengeWindowStart ?d = challengeWindowStart c"
      "fst (allowChallengeAck c) \<longleftrightarrow> challengeCount c < challengeAckLimit"
      "challengeCount ?d = challengeCount c + (if fst (allowChallengeAck c) then 1 else 0)"
      using allowChallengeAck_cases(2) [of c] by (simp_all add: timeSub_gt_window)
    have c': "challengeCount ?d \<le> challengeAckLimit" using d(2,3) Suc.prems(1) by auto
    show ?thesis
      using Suc.IH [OF c'] later d Suc.prems(1)
      by (auto simp: case_prod_unfold challengeAckLimit_def split: if_splits)
  qed
qed simp

section \<open>Properties\<close>

text \<open>
  C35: SACK never lies. Every sequence number inside a block that an ACK reports belongs to
  a byte in the reassembly queue, and no more blocks are reported than asked for.
\<close>

theorem sack_blocks_are_held:
  "length (sackBlocks c n) \<le> n \<and>
   list_all (\<lambda>(l, r). \<forall>x. dist l r \<le> dist l x \<or> held (oooSegs c) x) (sackBlocks c n)"
proof -
  have "dist l r \<le> dist l x \<or> held (oooSegs c) x" if "(l, r) \<in> set (sackBlocks c n)" for l r x
    using sackBlocks_covered [of c n] covered_held [of "oooSegs c" l r x] that
    by (cases "dist l x < dist l r") auto
  moreover have "length (sackBlocks c n) \<le> n" by (auto simp: sackBlocks_def Let_def)
  ultimately show ?thesis by (auto simp: list_all_iff)
qed

text \<open>
  C36: challenge ACKs are throttled. However many attacks arrive in a stretch of five
  seconds of the clock, at most twenty challenge ACKs are allowed, ten for each of the two
  counting windows that can meet in it.
\<close>

theorem challenge_acks_limited:
  assumes "challengeCount c \<le> 10"
    and "\<And>k. k < n \<Longrightarrow> t0 \<le> clk c (ticks c + k) \<and> clk c (ticks c + k) \<le> t0 + 5 * second"
  shows "challengesAllowed n c \<le> 20"
  using challengesAllowed_le [of c n t0] assms
  by (auto simp: challengeAckLimit_def challengeAckWindow_def split: if_splits)

theorem challenge_acks_limited_witness:
  "challengesAllowed 100 demoConn \<le> 20"
  by (rule challenge_acks_limited [of _ _ 0]) (simp_all add: demoConn_def NewConn_def second_def)

end
