(* ===== verification/Tcp_Wire.thy ===== *)
theory Tcp_Wire
  imports Tcp_Output
begin

unbundle bit_operations_syntax

section \<open>From a packet back to a segment (recvloop.go, listener.go)\<close>

text \<open>
  \<open>decodePacket\<close> is the chain of checks that \<^theory_text>\<open>receiver.dispatch\<close> and
  \<^theory_text>\<open>Stack.demux\<close> both start with: IPv4 header, protocol, total length, TCP checksum,
  TCP header. The outer \<open>None\<close> is a panic, the inner one a packet dropped.
  \<open>decode_packetOf\<close> shows that it undoes \<open>packetOf\<close>, so whatever one end writes the other
  reads back field by field.
\<close>

definition decodePacket :: "byte list \<Rightarrow> (IPv4Header \<times> TCPHeader \<times> byte list) option option" where
  "decodePacket pkt = do {
     r \<leftarrow> ParseIPv4Header pkt;
     case r of
       Inl e \<Rightarrow> Some None
     | Inr ip \<Rightarrow>
         if Protocol ip \<noteq> 6 then Some None
         else do {
           s \<leftarrow> TCPSegment ip pkt;
           case s of
             None \<Rightarrow> Some None
           | Some seg \<Rightarrow>
               if TCPChecksum (SrcAddr ip) (DstAddr ip) seg \<noteq> 0 then Some None
               else do {
                 hr \<leftarrow> ParseTCPHeader seg;
                 case hr of
                   Inl e \<Rightarrow> Some None
                 | Inr h \<Rightarrow> do {
                     payload \<leftarrow> goSlice seg (unat (DataOffset h) * 4) (length seg);
                     Some (Some (ip, h, payload)) }
               } } }"

lemma decodePacket_no_panic: "decodePacket pkt \<noteq> None"
proof -
  obtain r where r: "ParseIPv4Header pkt = Some r" using ParseIPv4Header_no_panic by blast
  show ?thesis
  proof (cases r)
    case (Inr ip)
    obtain s where s: "TCPSegment ip pkt = Some s" using TCPSegment_no_panic by blast
    show ?thesis
    proof (cases s)
      case (Some seg)
      obtain hr where hr: "ParseTCPHeader seg = Some hr" using ParseTCPHeader_no_panic by blast
      show ?thesis
        by (cases hr) (use r s hr Inr Some ParseTCPHeader_Inr [of seg] in
            \<open>auto simp: decodePacket_def goSlice_def\<close>)
    qed (use r s Inr in \<open>simp add: decodePacket_def\<close>)
  qed (use r in \<open>simp add: decodePacket_def\<close>)
qed

subsection \<open>Option areas\<close>

definition goodOpts :: "byte list \<Rightarrow> bool" where
  "goodOpts b \<longleftrightarrow> 4 dvd length b \<and> length b \<le> 40 \<and> (\<exists>o'. ParseTCPOptions b = Some (Inr o'))"

lemma goodOpts_Nil: "goodOpts []"
  by (simp add: goodOpts_def ParseTCPOptions_def parseOpts.simps)

lemma goodOpts_Marshal:
  assumes "length (optionBytes o') \<le> 37" "length (SACKBlocks o') \<le> 31"
  shows "goodOpts (MarshalOptions o')"
  using assms length_MarshalOptions [of o'] ParseTCPOptions_Marshal [OF assms(2)]
  by (auto simp: goodOpts_def)

lemma length_sackBlocks: "length (sackBlocks c m) \<le> m"
  by (simp add: sackBlocks_def Let_def)

lemma goodOpts_ackOptions: "goodOpts (fst (ackOptions c))"
proof -
  have s: "length (sackBlocks c' 4) \<le> 4" "length (sackBlocks c' 3) \<le> 3" for c'
    by (rule length_sackBlocks)+
  show ?thesis
    using s [of c] s [of "tick c"]
    by (auto simp: ackOptions_def Let_def tsNow_def maxSackBlocks_def goodOpts_Nil noOptions_def
        length_optionBytes case_prod_unfold split: if_splits intro!: goodOpts_Marshal)
qed

lemma goodOpts_synOptions: "goodOpts (fst (synOptionBytes c a))"
  by (simp add: synOptionBytes_def Let_def tsNow_def noOptions_def length_optionBytes
      goodOpts_Marshal)

lemma goodOpts_timestamp:
  "goodOpts (MarshalOptions (noOptions\<lparr>HasTimestamp := True, TSVal := v\<rparr>))"
  "goodOpts (MarshalOptions (noOptions\<lparr>HasTimestamp := True, TSVal := v, TSecr := w\<rparr>))"
  by (simp_all add: noOptions_def length_optionBytes goodOpts_Marshal)

subsection \<open>The round trip\<close>

definition wireLimit :: nat where
  "wireLimit = 65000"

lemma tcpSegmentOf_bytes:
  "tcpSegmentOf c f s a p o' =
     tcpBytes (tcpHeaderOf c f s a o') (TCPChecksum (epIP (localEP c)) (epIP (remoteEP c))
       (tcpBytes (tcpHeaderOf c f s a o') 0 @ p)) @ p"
  by (simp add: tcpSegmentOf_def Let_def MarshalTCP_bytes tcpBytes_put)
    (simp add: tcpHeaderOf_def)

lemma length_tcpSegmentOf [simp, codec]:
  "length (tcpSegmentOf c f s a p o') = 20 + length o' + length p"
  by (simp add: tcpSegmentOf_bytes) (simp add: tcpHeaderOf_def)

lemma TCPChecksum_segment:
  assumes "length o' \<le> 40" "length p \<le> wireLimit"
  shows "TCPChecksum (epIP (localEP c)) (epIP (remoteEP c)) (tcpSegmentOf c f s a p o') = 0"
proof -
  let ?h = "tcpHeaderOf c f s a o'"
  have len: "length (tcpBytes ?h 0 @ p) = 20 + length o' + length p"
    by (simp add: tcpHeaderOf_def)
  have "TCPChecksum (epIP (localEP c)) (epIP (remoteEP c))
      (PutBe16 (tcpBytes ?h 0 @ p) 16 (TCPChecksum (epIP (localEP c)) (epIP (remoteEP c))
        (tcpBytes ?h 0 @ p))) = 0"
    using assms len by (intro TCPChecksum_filled) (auto simp: wordAt_tcpBytes wireLimit_def)
  then show ?thesis by (simp add: tcpSegmentOf_bytes tcpBytes_put)
qed

text \<open>The header the receiver sees.\<close>

definition seenHeader :: "Conn \<Rightarrow> Flags \<Rightarrow> u32 \<Rightarrow> u32 \<Rightarrow> byte list \<Rightarrow> byte list \<Rightarrow> TCPHeader" where
  "seenHeader c f s a p o' =
     wireHeader (tcpHeaderOf c f s a o') (TCPChecksum (epIP (localEP c)) (epIP (remoteEP c))
       (tcpBytes (tcpHeaderOf c f s a o') 0 @ p))"

lemma seenHeader_fields [simp]:
  "SrcPort (seenHeader c f s a p o') = portsSrc c" "DstPort (seenHeader c f s a p o') = portsDst c"
  "SeqNum (seenHeader c f s a p o') = s" "AckNum (seenHeader c f s a p o') = a"
  "HdrFlags (seenHeader c f s a p o') = f AND 0x3F" "Options (seenHeader c f s a p o') = o'"
  "Window (seenHeader c f s a p o') = windowField c f"
  "DataOffset (seenHeader c f s a p o') = DataOffsetForOptions (length o')"
  by (simp_all add: seenHeader_def wireHeader_def tcpHeaderOf_def)

lemma decode_packetOf:
  assumes "4 dvd length o'" "length o' \<le> 40" "length p \<le> wireLimit"
  shows "decodePacket (packetOf c f s a p o') =
    Some (Some ((ipHeaderOf c (tcpSegmentOf c f s a p o'))\<lparr>Version := 4, IHL := 5\<rparr>,
      seenHeader c f s a p o', p))"
proof -
  let ?seg = "tcpSegmentOf c f s a p o'"
  let ?ip = "(ipHeaderOf c ?seg)\<lparr>Version := 4, IHL := 5\<rparr>"
  have pkt: "packetOf c f s a p o' = MarshalIPv4 (ipHeaderOf c ?seg) @ ?seg @ []"
    by (simp add: packetOf_def Let_def)
  have ipf: "Protocol ?ip = 6" "SrcAddr ?ip = epIP (localEP c)" "DstAddr ?ip = epIP (remoteEP c)"
    by (simp_all add: ipHeaderOf_def)
  have "TotalLength ?ip = of_nat (20 + length ?seg)" by (simp add: ipHeaderOf_def)
  moreover have "20 + length ?seg < 2 ^ 16" using assms by (simp add: wireLimit_def)
  ultimately have "unat (TotalLength ?ip) = 20 + length ?seg"
    by (simp only: unat_of_nat) simp
  then have seg: "TCPSegment ?ip (packetOf c f s a p o') = Some (Some ?seg)"
    unfolding pkt by (intro TCPSegment_Marshal) simp_all
  have hdr: "ParseTCPHeader ?seg = Some (Inr (seenHeader c f s a p o'))"
    unfolding tcpSegmentOf_bytes seenHeader_def using assms
    by (intro ParseTCPHeader_tcpBytes) (simp_all add: tcpHeaderOf_def)
  have off: "unat (DataOffset (seenHeader c f s a p o')) * 4 = 20 + length o'"
    using DataOffsetForOptions_field(2) [OF assms(1,2)] by simp
  have slice: "goSlice ?seg (20 + length o') (length ?seg) = Some p"
    by (simp add: tcpSegmentOf_bytes goSlice_def) (simp add: tcpHeaderOf_def)
  have "ParseIPv4Header (packetOf c f s a p o') = Some (Inr ?ip)"
    unfolding pkt by (rule ParseIPv4Header_Marshal)
  then show ?thesis
    unfolding decodePacket_def using ipf seg hdr slice TCPChecksum_segment [OF assms(2,3)]
    by (simp only: bind.bind_lunit sum.case option.case off if_False not_True_eq_False simp_thms)
qed

subsection \<open>Every packet of a connection is one its peer accepts\<close>

definition wellPacket :: "Conn \<Rightarrow> byte list \<Rightarrow> bool" where
  "wellPacket c pkt =
     (case decodePacket pkt of
        Some (Some (ip, h, p)) \<Rightarrow>
          SrcAddr ip = epIP (localEP c) \<and> DstAddr ip = epIP (remoteEP c) \<and>
          SrcPort h = portsSrc c \<and> DstPort h = portsDst c \<and>
          (case ParseTCPOptions (Options h) of Some (Inr o') \<Rightarrow> True | _ \<Rightarrow> False)
      | _ \<Rightarrow> False)"

lemma wellPacket_cong:
  assumes "localEP d = localEP c" "remoteEP d = remoteEP c" "portsSrc d = portsSrc c"
    "portsDst d = portsDst c"
  shows "wellPacket d = wellPacket c"
  using assms by (simp add: wellPacket_def [abs_def] cong: option.case_cong)

lemma wellPacket_packetOf:
  assumes "goodOpts o'" "length p \<le> wireLimit"
  shows "wellPacket c (packetOf c f s a p o')"
  using assms decode_packetOf [of o' p c f s a]
  by (auto simp: wellPacket_def goodOpts_def ipHeaderOf_def)

text \<open>
  \<open>wireOk\<close>: the packets written so far are well formed, and what waits for
  retransmission is short enough for the next one to be.
\<close>

definition wireOk :: "Conn \<Rightarrow> bool" where
  "wireOk c \<longleftrightarrow> (\<forall>pkt\<in>set (outp c). wellPacket c pkt) \<and>
     (\<forall>r\<in>set (retxQueue c). length (rsPayload r) \<le> wireLimit)"

lemma wireOk_NewConn: "wireOk (NewConn clock l r)"
  by (simp add: wireOk_def NewConn_def)

lemma wireOk_cong:
  assumes "wireOk c" "outp d = outp c" "retxQueue d = retxQueue c" "localEP d = localEP c"
    "remoteEP d = remoteEP c" "portsSrc d = portsSrc c" "portsDst d = portsDst c"
  shows "wireOk d"
  using assms wellPacket_cong [of d c] by (simp add: wireOk_def)

lemma packetOf_tick [simp]: "packetOf (tick c) f s a p o' = packetOf c f s a p o'"
  by (simp add: packetOf_def tcpSegmentOf_def tcpHeaderOf_def windowField_def ipHeaderOf_def Let_def)

lemma writeSegOpts_outp:
  "\<exists>o''. outp (writeSegOpts c f s a p o') = outp c @ [packetOf c f s a p o''] \<and>
     (goodOpts o' \<longrightarrow> goodOpts o'')"
  by (auto simp: writeSegOpts_def Let_def tsNow_def goodOpts_timestamp)

lemma wireOk_writeSegOpts:
  assumes "wireOk c" "goodOpts o'" "length p \<le> wireLimit"
  shows "wireOk (writeSegOpts c f s a p o')"
proof -
  obtain o'' where d: "outp (writeSegOpts c f s a p o') = outp c @ [packetOf c f s a p o'']"
    "goodOpts o''"
    using writeSegOpts_outp [of c f s a p o'] assms(2) by blast
  have "wellPacket (writeSegOpts c f s a p o') = wellPacket c" by (intro wellPacket_cong; simp)
  then show ?thesis
    using assms d(1) wellPacket_packetOf [OF d(2) assms(3)] by (auto simp: wireOk_def)
qed

section \<open>Properties\<close>

text \<open>
  C19: the wire format round trip. The packet that \<open>writeSegOpts\<close> builds is
  read back by the receive path as the same endpoints, sequence number, acknowledgement,
  flags, options and payload.
\<close>

theorem packet_roundtrip:
  assumes "4 dvd length opts" "length opts \<le> 40" "length payload \<le> 65000"
  shows "case decodePacket (packetOf c f sq ak payload opts) of
      Some (Some (ip, h, p)) \<Rightarrow>
        SrcAddr ip = epIP (localEP c) \<and> DstAddr ip = epIP (remoteEP c) \<and>
        SrcPort h = portsSrc c \<and> DstPort h = portsDst c \<and> SeqNum h = sq \<and> AckNum h = ak \<and>
        HdrFlags h = f AND 0x3F \<and> Options h = opts \<and> p = payload
    | _ \<Rightarrow> False"
  using assms by (simp add: decode_packetOf wireLimit_def ipHeaderOf_def)

theorem packet_roundtrip_witness:
  "case decodePacket (packetOf demoConn FlagACK 1 2 [3, 4, 5] []) of
      Some (Some (ip, h, p)) \<Rightarrow> SeqNum h = 1 \<and> AckNum h = 2 \<and> p = [3, 4, 5]
    | _ \<Rightarrow> False"
  using packet_roundtrip [where opts = "[]" and payload = "[3, 4, 5]" and c = demoConn and f = FlagACK and sq = 1 and ak = 2] by (auto split: option.splits)

end
