(* ===== verification/Tcp_Recv.thy ===== *)
theory Tcp_Recv
  imports Tcp_Wire
begin

unbundle bit_operations_syntax

section \<open>Receiving data (the receiving half of tcp/transport/data.go and flowcontrol.go)\<close>

text \<open>
  \<open>acceptText\<close> with its parts: trimming a segment to the window, holding segments that came
  early (\<open>oooSegs\<close>), draining them when the gap closes, the window, the delayed ACK, and
  the user call \<open>Recv\<close>. The loop of \<^theory_text>\<open>drainOoo\<close> is \<open>drainLoop\<close>; it ends because each
  turn consumes one held segment (\<open>drainStep_removes\<close>).
\<close>

definition segEnd :: "segFragment \<Rightarrow> u32" where
  "segEnd s = fragSeq s + of_nat (length (fragData s))"

definition trimToWindow :: "Conn \<Rightarrow> u32 \<Rightarrow> byte list \<Rightarrow> segFragment" where
  "trimToWindow c sq payload =
     (let e = sq + of_nat (length payload); skip = rcv_nxt c - sq in
      if SeqLT sq (rcv_nxt c) \<and> skip \<ge> of_nat (length payload)
      then \<lparr>fragSeq = rcv_nxt c, fragData = []\<rparr>
      else
        (let (sq, payload) = (if SeqLT sq (rcv_nxt c) then (rcv_nxt c, drop (unat skip) payload)
                              else (sq, payload));
             winEnd = rcv_nxt c + rcv_wnd c;
             over = e - winEnd
         in if SeqGT e winEnd \<and> over \<ge> of_nat (length payload)
            then \<lparr>fragSeq = sq, fragData = []\<rparr>
            else
              (let payload = (if SeqGT e winEnd
                              then take (unat (of_nat (length payload) - over)) payload else payload)
               in \<lparr>fragSeq = sq, fragData = payload\<rparr>)))"

definition insertIndex :: "segFragment list \<Rightarrow> u32 \<Rightarrow> nat" where
  "insertIndex ss sq = length (takeWhile (\<lambda>s. SeqLT (fragSeq s) sq) ss)"

definition insertOoo :: "Conn \<Rightarrow> segFragment \<Rightarrow> Conn" where
  "insertOoo c frag =
     (let c = c\<lparr>lastOooSeq := fragSeq frag\<rparr>;
          i = insertIndex (oooSegs c) (fragSeq frag)
      in if i < length (oooSegs c) \<and> fragSeq (oooSegs c ! i) = fragSeq frag \<and>
            length (fragData (oooSegs c ! i)) \<ge> length (fragData frag)
         then c
         else c\<lparr>oooSegs := take i (oooSegs c) @ [frag] @ drop i (oooSegs c)\<rparr>)"

definition removeFullyConsumedOoo :: "Conn \<Rightarrow> Conn" where
  "removeFullyConsumedOoo c =
     c\<lparr>oooSegs := filter (\<lambda>s. \<not> SeqLEQ (segEnd s) (rcv_nxt c)) (oooSegs c)\<rparr>"

text \<open>The inner loop of \<^theory_text>\<open>drainOoo\<close>: the first held segment that covers RCV.NXT.\<close>

definition coverOoo :: "Conn \<Rightarrow> segFragment option" where
  "coverOoo c =
     find (\<lambda>s. \<not> SeqLEQ (segEnd s) (rcv_nxt c) \<and> SeqLEQ (fragSeq s) (rcv_nxt c)) (oooSegs c)"

definition drainStep :: "Conn \<Rightarrow> segFragment \<Rightarrow> Conn" where
  "drainStep c s =
     (let skip = rcv_nxt c - fragSeq s;
          newData = drop (unat skip) (fragData s);
          c = c\<lparr>rcvBuf := rcvBuf c @ newData\<rparr>;
          c = c\<lparr>rcv_nxt := rcv_nxt c + of_nat (length newData)\<rparr>
      in removeFullyConsumedOoo c)"

text \<open>
  A segment that ends after RCV.NXT and begins at or before it has its RCV.NXT-th byte: the
  slice \<^theory_text>\<open>s.data[skip:]\<close> of the code is in range, and takes at least one byte.
\<close>

lemma cover_skip:
  assumes "\<not> SeqLEQ (segEnd s) n" "SeqLEQ (fragSeq s) n"
  shows "unat (n - fragSeq s) < length (fragData s)"
proof (rule ccontr)
  assume "\<not> ?thesis"
  then have l: "length (fragData s) \<le> dist (fragSeq s) n" by (simp add: dist_def)
  have d: "dist (fragSeq s) n < 2147483648" using assms(2) by (simp add: SeqLEQ_dist)
  have "dist (fragSeq s + of_nat (length (fragData s))) (fragSeq s + of_nat (dist (fragSeq s) n)) =
      dist (fragSeq s) n - length (fragData s)"
    using l d by (intro dist_pos) linarith+
  then have "dist (segEnd s) n < 2147483648" using d by (simp only: add_dist segEnd_def)
  with assms(1) show False by (simp add: SeqLEQ_dist)
qed

lemma drainStep_nxt:
  assumes "unat (rcv_nxt c - fragSeq s) < length (fragData s)"
  shows "rcv_nxt (drainStep c s) = segEnd s"
proof -
  let ?k = "unat (rcv_nxt c - fragSeq s)"
  have "(of_nat (length (fragData s) - ?k) :: u32) = of_nat (length (fragData s)) - (rcv_nxt c - fragSeq s)"
    using assms by simp
  then show ?thesis by (simp add: drainStep_def removeFullyConsumedOoo_def segEnd_def Let_def)
qed

lemma coverOoo_Some:
  assumes "coverOoo c = Some s"
  shows "s \<in> set (oooSegs c)" "\<not> SeqLEQ (segEnd s) (rcv_nxt c)" "SeqLEQ (fragSeq s) (rcv_nxt c)"
  using assms by (auto simp: coverOoo_def find_Some_iff)

lemma drainStep_removes:
  assumes "coverOoo c = Some s"
  shows "length (oooSegs (drainStep c s)) < length (oooSegs c)"
proof -
  note s = coverOoo_Some [OF assms]
  have n: "rcv_nxt (drainStep c s) = segEnd s"
    by (rule drainStep_nxt [OF cover_skip [OF s(2,3)]])
  have "oooSegs (drainStep c s) =
      filter (\<lambda>s'. \<not> SeqLEQ (segEnd s') (rcv_nxt (drainStep c s))) (oooSegs c)"
    by (simp add: drainStep_def removeFullyConsumedOoo_def Let_def)
  moreover have "length (filter (\<lambda>s'. \<not> SeqLEQ (segEnd s') (segEnd s)) (oooSegs c)) < length (oooSegs c)"
    using s(1) by (intro length_filter_less [of s]) simp_all
  ultimately show ?thesis by (simp add: n)
qed

function drainLoop :: "Conn \<Rightarrow> Conn" where
  "drainLoop c =
     (case coverOoo c of
        None \<Rightarrow> c
      | Some s \<Rightarrow> drainLoop (drainStep c s))"
  by pat_completeness auto
termination
  by (relation "measure (\<lambda>c. length (oooSegs c))") (simp_all add: drainStep_removes)

definition drainOoo :: "Conn \<Rightarrow> Conn" where
  "drainOoo c = removeFullyConsumedOoo (drainLoop c)"

definition consumeRcvWindow :: "Conn \<Rightarrow> u32 \<Rightarrow> Conn" where
  "consumeRcvWindow c n =
     (if rcv_wnd c > n then c\<lparr>rcv_wnd := rcv_wnd c - n\<rparr> else c\<lparr>rcv_wnd := 0\<rparr>)"

definition onDelayableSegment :: "Conn \<Rightarrow> Conn" where
  "onDelayableSegment c =
     (let c = c\<lparr>delAckCount := delAckCount c + 1\<rparr> in
      if delAckCount c \<ge> 2 then sendDelayedAck c
      else if \<not> delAckArmed c
      then tick (c\<lparr>delAckArmed := True, delAckDeadline := now c + delAckTimeout\<rparr>)
      else c)"

definition fireDelayedAck :: "Conn \<Rightarrow> Conn" where
  "fireDelayedAck c = sendDelayedAck c"

definition recomputeRcvWindow :: "Conn \<Rightarrow> Conn" where
  "recomputeRcvWindow c =
     (let used = of_nat (length (rcvBuf c))
      in c\<lparr>rcv_wnd := advertiseWindow (rcvBuffCap c) used (rcv_wnd c) (effSndMSS c)\<rparr>)"

text \<open>
  \<open>takeText\<close> is \<^theory_text>\<open>acceptText\<close> between the trimming and the ACK: the data goes to
  the receive buffer or is held, and the window shrinks by what RCV.NXT gained.
\<close>

definition takeText :: "Conn \<Rightarrow> segFragment \<Rightarrow> Conn" where
  "takeText c data =
     (let before = rcv_nxt c;
          c = (if fragSeq data = rcv_nxt c then
                 drainOoo (c\<lparr>rcvBuf := rcvBuf c @ fragData data,
                             rcv_nxt := rcv_nxt c + of_nat (length (fragData data))\<rparr>)
               else insertOoo c data)
      in consumeRcvWindow c (rcv_nxt c - before))"

definition acceptText :: "Conn \<Rightarrow> TCPHeader \<Rightarrow> byte list \<Rightarrow> Conn" where
  "acceptText c h payload =
     (if payload = [] then c
      else
        (let data = trimToWindow c (SeqNum h) payload in
         if fragData data = [] then sendAck c
         else
           (let inOrder = (fragSeq data = rcv_nxt c);
                c = takeText c data;
                full = (of_nat (length (fragData data)) \<ge> effSndMSS c)
            in if inOrder \<and> oooSegs c = [] \<and> full then onDelayableSegment c else sendAck c)))"

definition finReached :: "Conn \<Rightarrow> bool" where
  "finReached c = (peerFin c \<and> SeqLEQ (peerFinSeq c) (rcv_nxt c))"

datatype recvError = EOF

text \<open>
  \<open>Recv\<close> into a buffer of \<open>n\<close> bytes: the bytes copied, or the error.
\<close>

definition Recv :: "Conn \<Rightarrow> nat \<Rightarrow> (recvError + byte list) \<times> Conn" where
  "Recv c n =
     (if rcvBuf c = [] then (if finReached c then (Inl EOF, c) else (Inr [], c))
      else
        (let got = take n (rcvBuf c);
             c = c\<lparr>rcvBuf := drop n (rcvBuf c)\<rparr>;
             old = rcv_wnd c;
             c = recomputeRcvWindow c
         in (Inr got, if rcv_wnd c > old \<and> synchronized (state c) then sendAck c else c)))"

subsection \<open>Frames\<close>

lemma drainStep_recvOnly: "recvOnly c (drainStep c s)"
  by (simp add: recvOnly_def drainStep_def removeFullyConsumedOoo_def Let_def)

lemma drainLoop_recvOnly: "recvOnly c (drainLoop c)"
proof (induction c rule: drainLoop.induct)
  case (1 c)
  show ?case
  proof (cases "coverOoo c")
    case None
    then show ?thesis by (subst drainLoop.simps) simp
  next
    case (Some s)
    from recvOnly_trans [OF drainStep_recvOnly "1.IH" [OF Some]] Some
    show ?thesis by (subst drainLoop.simps) simp
  qed
qed

lemma removeFullyConsumedOoo_recvOnly: "recvOnly c (removeFullyConsumedOoo c)"
  by (simp add: recvOnly_def removeFullyConsumedOoo_def)

lemma drainOoo_recvOnly: "recvOnly c (drainOoo c)"
  unfolding drainOoo_def by (rule recvOnly_trans [OF drainLoop_recvOnly removeFullyConsumedOoo_recvOnly])

lemmas drainOoo_frame [simp, frame] = recvOnlyD [OF drainOoo_recvOnly]

lemma takeText_recvOnly: "recvOnly c (takeText c d)"
  by (simp add: recvOnly_def takeText_def insertOoo_def consumeRcvWindow_def Let_def)

lemmas takeText_frame [simp, frame] = recvOnlyD [OF takeText_recvOnly]

lemma onDelayableSegment_recvOnly: "recvOnly c (onDelayableSegment c)"
  by (simp add: recvOnly_def onDelayableSegment_def sendDelayedAck_def Let_def)

lemmas onDelayableSegment_frame [simp, frame] = recvOnlyD [OF onDelayableSegment_recvOnly]

lemma onDelayableSegment_fields [simp, frame]:
  "rcvBuf (onDelayableSegment c) = rcvBuf c" "oooSegs (onDelayableSegment c) = oooSegs c"
  "lastOooSeq (onDelayableSegment c) = lastOooSeq c" "rcv_nxt (onDelayableSegment c) = rcv_nxt c"
  "rcv_wnd (onDelayableSegment c) = rcv_wnd c" "retxQueue (onDelayableSegment c) = retxQueue c"
  "curRTO (onDelayableSegment c) = curRTO c"
  "challengeCount (onDelayableSegment c) = challengeCount c"
  by (simp_all add: onDelayableSegment_def sendDelayedAck_def Let_def)

text \<open>What a record update of the receive side leaves of the queues of the sender.\<close>

lemma drainLoop_queue:
  "retxQueue (drainLoop c) = retxQueue c \<and> outp (drainLoop c) = outp c \<and>
   curRTO (drainLoop c) = curRTO c \<and> challengeCount (drainLoop c) = challengeCount c \<and>
   delAckCount (drainLoop c) = delAckCount c \<and> delAckArmed (drainLoop c) = delAckArmed c \<and>
   rcv_wnd (drainLoop c) = rcv_wnd c"
proof (induction c rule: drainLoop.induct)
  case (1 c)
  then show ?case
    by (subst (1 2 3 4 5 6 7) drainLoop.simps)
      (auto simp: drainStep_def removeFullyConsumedOoo_def Let_def split: option.splits)
qed

lemma drainOoo_fields [simp, frame]:
  "retxQueue (drainOoo c) = retxQueue c" "outp (drainOoo c) = outp c"
  "curRTO (drainOoo c) = curRTO c" "challengeCount (drainOoo c) = challengeCount c"
  "delAckCount (drainOoo c) = delAckCount c" "delAckArmed (drainOoo c) = delAckArmed c"
  "rcv_wnd (drainOoo c) = rcv_wnd c"
  using drainLoop_queue [of c] by (simp_all add: drainOoo_def removeFullyConsumedOoo_def)

lemma takeText_fields [simp, frame]:
  "retxQueue (takeText c d) = retxQueue c" "outp (takeText c d) = outp c"
  "curRTO (takeText c d) = curRTO c" "challengeCount (takeText c d) = challengeCount c"
  "delAckCount (takeText c d) = delAckCount c" "delAckArmed (takeText c d) = delAckArmed c"
  by (simp_all add: takeText_def insertOoo_def consumeRcvWindow_def Let_def)

lemma acceptText_recvOnly: "recvOnly c (acceptText c h p)"
  by (simp add: acceptText_def Let_def outputOnly_recvOnly [OF sendAck_outputOnly]
      recvOnly_trans [OF takeText_recvOnly onDelayableSegment_recvOnly]
      recvOnly_trans [OF takeText_recvOnly outputOnly_recvOnly [OF sendAck_outputOnly]])

lemmas acceptText_frame [simp, frame] = recvOnlyD [OF acceptText_recvOnly]

lemma acceptText_fields [simp, frame]:
  "retxQueue (acceptText c h p) = retxQueue c" "curRTO (acceptText c h p) = curRTO c"
  "challengeCount (acceptText c h p) = challengeCount c"
  by (simp_all add: acceptText_def Let_def)

text \<open>What \<open>acceptText\<close> does to the receive side, whatever ACK it sends.\<close>

definition rcvSide :: "Conn \<Rightarrow> byte list \<times> segFragment list \<times> u32 \<times> u32 \<times> u32" where
  "rcvSide c = (rcvBuf c, oooSegs c, lastOooSeq c, rcv_nxt c, rcv_wnd c)"

lemma rcvSide_acceptText:
  "rcvSide (acceptText c h p) =
     (let d = trimToWindow c (SeqNum h) p in
      if p = [] \<or> fragData d = [] then rcvSide c else rcvSide (takeText c d))"
  by (simp add: acceptText_def rcvSide_def Let_def)

lemma Recv_recvOnly: "recvOnly c (snd (Recv c n))"
proof -
  have "recvOnly c (recomputeRcvWindow (c\<lparr>rcvBuf := b\<rparr>))" for b
    by (simp add: recvOnly_def recomputeRcvWindow_def)
  note r = this
  then show ?thesis
    by (auto simp: Recv_def Let_def intro: recvOnly_trans [OF r outputOnly_recvOnly [OF sendAck_outputOnly]])
qed

lemmas Recv_frame [simp, frame] = recvOnlyD [OF Recv_recvOnly]

lemma Recv_fields [simp, frame]:
  "retxQueue (snd (Recv c n)) = retxQueue c" "curRTO (snd (Recv c n)) = curRTO c"
  "challengeCount (snd (Recv c n)) = challengeCount c"
  "oooSegs (snd (Recv c n)) = oooSegs c" "rcv_nxt (snd (Recv c n)) = rcv_nxt c"
  by (simp_all add: Recv_def recomputeRcvWindow_def Let_def)

end
