(* ===== verification/Tcp_Reassembly.thy ===== *)
theory Tcp_Reassembly
  imports Tcp_Recv
begin

section \<open>Reassembly refines the peer's byte stream\<close>

text \<open>
  The specification of the receiving half: the peer's bytes are a stream
  \<open>S :: nat \<Rightarrow> byte\<close>, position \<open>q\<close> carrying the sequence number \<open>b + q\<close>. A segment is
  \<open>genuine\<close> when its payload is a piece of the stream at its sequence number, whatever its
  order, overlap or repetition, as long as it is within half the sequence space of RCV.NXT.
  \<open>rcvOK b S p c\<close> abstracts a connection to the position \<open>p\<close> up to which the stream has been
  received in order; the lemmas show that \<open>acceptText\<close> only ever appends the next bytes of
  the stream, and that the right edge of the window stays where it was announced.
\<close>

definition chunk :: "(nat \<Rightarrow> byte) \<Rightarrow> nat \<Rightarrow> nat \<Rightarrow> byte list" where
  "chunk S q n = map S [q..<q + n]"

lemma length_chunk [simp]: "length (chunk S q n) = n"
  by (simp add: chunk_def)

lemma chunk_0 [simp]: "chunk S q 0 = []"
  by (simp add: chunk_def)

lemma chunk_append: "chunk S q n @ chunk S (q + n) m = chunk S q (n + m)"
  by (simp add: chunk_def flip: map_append)
    (metis add.assoc le_add1 upt_add_eq_append)

lemma drop_chunk: "k \<le> n \<Longrightarrow> drop k (chunk S q n) = chunk S (q + k) (n - k)"
  by (simp add: chunk_def drop_map)

lemma take_chunk: "k \<le> n \<Longrightarrow> take k (chunk S q n) = chunk S q k"
  by (simp add: chunk_def take_map)

definition genuine :: "u32 \<Rightarrow> (nat \<Rightarrow> byte) \<Rightarrow> nat \<Rightarrow> u32 \<Rightarrow> byte list \<Rightarrow> nat \<Rightarrow> bool" where
  "genuine b S p sq payload q \<longleftrightarrow>
     sq = b + of_nat q \<and> payload = chunk S q (length payload) \<and>
     p < q + 1073741824 \<and> q + length payload < p + 1073741824"

definition fragOK :: "u32 \<Rightarrow> (nat \<Rightarrow> byte) \<Rightarrow> nat \<Rightarrow> nat \<Rightarrow> segFragment \<Rightarrow> bool" where
  "fragOK b S lo e s \<longleftrightarrow>
     (\<exists>q. fragSeq s = b + of_nat q \<and> fragData s = chunk S q (length (fragData s)) \<and>
          lo \<le> q \<and> q + length (fragData s) \<le> e)"

text \<open>
  Everything held lies beyond RCV.NXT and inside the window, and is a piece of the stream.
\<close>

definition rcvOK :: "u32 \<Rightarrow> (nat \<Rightarrow> byte) \<Rightarrow> nat \<Rightarrow> Conn \<Rightarrow> bool" where
  "rcvOK b S p c \<longleftrightarrow>
     rcv_nxt c = b + of_nat p \<and> unat (rcv_wnd c) \<le> 1073741824 \<and>
     (\<forall>s\<in>set (oooSegs c). fragOK b S (Suc p) (p + unat (rcv_wnd c)) s)"

lemma rcvOK_side: "rcvSide d = rcvSide c \<Longrightarrow> rcvOK b S p d = rcvOK b S p c"
  by (simp add: rcvSide_def rcvOK_def)

subsection \<open>Trimming\<close>

lemma u32_of_nat_le:
  assumes "m < 4294967296" "n < 4294967296"
  shows "of_nat m \<le> (of_nat n :: u32) \<longleftrightarrow> m \<le> n"
  using assms by (simp add: word_le_nat_alt unat_u32_of_nat)

lemma trim_seen:
  "SeqLT sq (rcv_nxt c) \<Longrightarrow> of_nat (length payload) \<le> rcv_nxt c - sq \<Longrightarrow>
     trimToWindow c sq payload = \<lparr>fragSeq = rcv_nxt c, fragData = []\<rparr>"
  by (simp add: trimToWindow_def Let_def)

definition cutRight :: "u32 \<Rightarrow> u32 \<Rightarrow> segFragment \<Rightarrow> segFragment" where
  "cutRight e winEnd s =
     (if \<not> SeqGT e winEnd then s
      else if e - winEnd \<ge> of_nat (length (fragData s)) then s\<lparr>fragData := []\<rparr>
      else s\<lparr>fragData := take (unat (of_nat (length (fragData s)) - (e - winEnd))) (fragData s)\<rparr>)"

lemma trim_left:
  "SeqLT sq (rcv_nxt c) \<Longrightarrow> \<not> of_nat (length payload) \<le> rcv_nxt c - sq \<Longrightarrow>
     trimToWindow c sq payload = cutRight (sq + of_nat (length payload)) (rcv_nxt c + rcv_wnd c)
       \<lparr>fragSeq = rcv_nxt c, fragData = drop (unat (rcv_nxt c - sq)) payload\<rparr>"
  by (simp add: trimToWindow_def cutRight_def Let_def)

lemma trim_right:
  "\<not> SeqLT sq (rcv_nxt c) \<Longrightarrow>
     trimToWindow c sq payload = cutRight (sq + of_nat (length payload)) (rcv_nxt c + rcv_wnd c)
       \<lparr>fragSeq = sq, fragData = payload\<rparr>"
  by (simp add: trimToWindow_def cutRight_def Let_def)

text \<open>
  The right cut of a piece of the stream that ends at \<open>r\<close>, with the window ending at \<open>e\<close>.
\<close>

lemma cutRight_chunk:
  assumes "lo \<le> r" "r < e + 2147483648" "e < r + 2147483648" "r - lo < 1073741824"
  shows "cutRight (b + of_nat r) (b + of_nat e) \<lparr>fragSeq = x, fragData = chunk S lo (r - lo)\<rparr> =
    \<lparr>fragSeq = x, fragData = chunk S lo (min r e - lo)\<rparr>"
proof -
  have gt: "SeqGT (b + of_nat r) (b + of_nat e) \<longleftrightarrow> e < r"
    unfolding SeqGT_def using assms by (intro SeqLT_pos) linarith+
  show ?thesis
  proof (cases "e < r")
    case False
    with gt show ?thesis by (simp add: cutRight_def min_def)
  next
    case True
    then have over: "b + of_nat r - (b + of_nat e) = (of_nat (r - e) :: u32)" by simp
    have le: "of_nat (r - lo) \<le> (of_nat (r - e) :: u32) \<longleftrightarrow> r - lo \<le> r - e"
      using assms True by (intro u32_of_nat_le) linarith+
    show ?thesis
    proof (cases "e \<le> lo")
      case e: True
      then have "r - lo \<le> r - e" by linarith
      with gt True le over e show ?thesis unfolding cutRight_def by (simp only: segFragment.simps
          length_chunk if_True not_True_eq_False if_False) simp
    next
      case False
      then have "(of_nat (r - lo) - of_nat (r - e) :: u32) = of_nat (e - lo)"
        using True by simp
      moreover have "unat (of_nat (e - lo) :: u32) = e - lo"
        using assms True by (intro unat_u32_of_nat) linarith
      moreover have "\<not> r - lo \<le> r - e" using False assms(1) True by linarith
      ultimately show ?thesis
        unfolding cutRight_def using gt True le over False assms(1)
        by (simp only: segFragment.simps length_chunk if_True not_True_eq_False if_False)
          (simp add: take_chunk)
    qed
  qed
qed

lemma trimToWindow_genuine:
  assumes nxt: "rcv_nxt c = b + of_nat p" and w: "unat (rcv_wnd c) \<le> 1073741824"
    and g: "genuine b S p sq payload q"
  defines "lo \<equiv> max q p" and "hi \<equiv> min (q + length payload) (p + unat (rcv_wnd c))"
  shows "trimToWindow c sq payload = \<lparr>fragSeq = b + of_nat lo, fragData = chunk S lo (hi - lo)\<rparr>"
proof -
  let ?n = "length payload" and ?w = "unat (rcv_wnd c)"
  have sq: "sq = b + of_nat q" and pl: "payload = chunk S q ?n"
    and near: "p < q + 1073741824" "q + ?n < p + 1073741824"
    using g by (simp_all add: genuine_def)
  have e: "sq + of_nat ?n = b + of_nat (q + ?n)" by (simp add: sq)
  have we: "rcv_nxt c + rcv_wnd c = b + of_nat (p + ?w)" by (simp add: nxt)
  have lt: "SeqLT sq (rcv_nxt c) \<longleftrightarrow> q < p"
    unfolding sq nxt using near by (intro SeqLT_pos) linarith+
  have skip: "rcv_nxt c - sq = of_nat (p - q)" if "q < p" using that by (simp add: sq nxt)
  have le: "of_nat ?n \<le> (of_nat (p - q) :: u32) \<longleftrightarrow> ?n \<le> p - q"
    using near by (intro u32_of_nat_le) linarith+
  consider (old) "q < p" "q + ?n \<le> p" | (left) "q < p" "p < q + ?n" | (right) "p \<le> q"
    by linarith
  then show ?thesis
  proof cases
    case old
    then have "of_nat ?n \<le> rcv_nxt c - sq" unfolding skip [OF old(1)] le by linarith
    then have "trimToWindow c sq payload = \<lparr>fragSeq = rcv_nxt c, fragData = []\<rparr>"
      using old lt by (intro trim_seen) simp_all
    with old show ?thesis by (simp add: nxt lo_def hi_def)
  next
    case left
    have "unat (of_nat (p - q) :: u32) = p - q" using near by (intro unat_u32_of_nat) linarith
    moreover have "drop (p - q) payload = chunk S p (q + ?n - p)"
      using left by (subst pl) (simp add: drop_chunk add.commute)
    ultimately have "trimToWindow c sq payload = cutRight (b + of_nat (q + ?n)) (b + of_nat (p + ?w))
        \<lparr>fragSeq = rcv_nxt c, fragData = chunk S p (q + ?n - p)\<rparr>"
      using trim_left [of sq c payload] left lt skip le unfolding e we by simp
    then show ?thesis
      using cutRight_chunk [of p "q + ?n" "p + ?w" b "rcv_nxt c" S] left near w
      by (simp add: lo_def hi_def nxt)
  next
    case right
    then have "trimToWindow c sq payload = cutRight (b + of_nat (q + ?n)) (b + of_nat (p + ?w))
        \<lparr>fragSeq = sq, fragData = chunk S q (q + ?n - q)\<rparr>"
      using trim_right [of sq c payload] lt pl unfolding e we by simp
    then show ?thesis
      using cutRight_chunk [of q "q + ?n" "p + ?w" b sq S] right near w
      by (simp add: lo_def hi_def sq)
  qed
qed

subsection \<open>Draining\<close>

text \<open>
  The state inside \<open>drainOoo\<close>: RCV.NXT has moved to \<open>p\<close>, the fragments lie between the
  \<open>p0\<close> of before and the right edge \<open>e\<close>.
\<close>

definition draining :: "u32 \<Rightarrow> (nat \<Rightarrow> byte) \<Rightarrow> nat \<Rightarrow> nat \<Rightarrow> nat \<Rightarrow> Conn \<Rightarrow> bool" where
  "draining b S p0 e p c \<longleftrightarrow>
     rcv_nxt c = b + of_nat p \<and> p0 \<le> p \<and> p \<le> e \<and> e - p0 \<le> 1073741824 \<and>
     (\<forall>s\<in>set (oooSegs c). fragOK b S p0 e s)"

lemma segEnd_pos:
  assumes "fragSeq s = b + of_nat q"
  shows "segEnd s = b + of_nat (q + length (fragData s))"
  by (simp add: segEnd_def assms)

lemma drainStep_draining:
  assumes d: "draining b S p0 e p c" and s: "coverOoo c = Some s"
  obtains p' where "p < p'" "draining b S p0 e p' (drainStep c s)"
    "rcvBuf (drainStep c s) = rcvBuf c @ chunk S p (p' - p)"
proof -
  note cov = coverOoo_Some [OF s]
  have nxt: "rcv_nxt c = b + of_nat p" and pe: "p0 \<le> p" "p \<le> e" "e - p0 \<le> 1073741824"
    using d by (simp_all add: draining_def)
  obtain q where q: "fragSeq s = b + of_nat q" "fragData s = chunk S q (length (fragData s))"
    "p0 \<le> q" "q + length (fragData s) \<le> e"
    using d cov(1) by (auto simp: draining_def fragOK_def)
  let ?p' = "q + length (fragData s)"
  have qp: "q \<le> p"
    using cov(3) unfolding q(1) nxt by (subst (asm) SeqLEQ_pos) (use q pe in linarith)+
  have pp: "p < ?p'"
    using cov(2) unfolding segEnd_pos [OF q(1)] nxt
    by (subst (asm) SeqLEQ_pos) (use q pe in linarith)+
  have skip: "unat (rcv_nxt c - fragSeq s) = p - q"
    using dist_pos [OF qp, of b] pe q(3) by (simp add: dist_def nxt q(1))
  have "rcv_nxt (drainStep c s) = b + of_nat ?p'"
    using drainStep_nxt [OF cover_skip [OF cov(2,3)]] segEnd_pos [OF q(1)] by simp
  moreover have "set (oooSegs (drainStep c s)) \<subseteq> set (oooSegs c)"
    by (auto simp: drainStep_def removeFullyConsumedOoo_def Let_def)
  ultimately have "draining b S p0 e ?p' (drainStep c s)"
    using d pp q(4) unfolding draining_def by (auto dest: less_imp_le)
  moreover have "drop (p - q) (fragData s) = chunk S p (?p' - p)"
    using qp pp by (subst q(2)) (simp add: drop_chunk add.commute)
  then have "rcvBuf (drainStep c s) = rcvBuf c @ chunk S p (?p' - p)"
    by (simp add: drainStep_def removeFullyConsumedOoo_def Let_def skip)
  ultimately show ?thesis using pp that by blast
qed

lemma chunk_join: "p \<le> p' \<Longrightarrow> p' \<le> p'' \<Longrightarrow> chunk S p (p' - p) @ chunk S p' (p'' - p') = chunk S p (p'' - p)"
  using chunk_append [of S p "p' - p" "p'' - p'"] by simp

lemma drainLoop_draining:
  "draining b S p0 e p c \<Longrightarrow>
     \<exists>p'\<ge>p. draining b S p0 e p' (drainLoop c) \<and>
       rcvBuf (drainLoop c) = rcvBuf c @ chunk S p (p' - p) \<and> coverOoo (drainLoop c) = None"
proof (induction c arbitrary: p rule: drainLoop.induct)
  case (1 c)
  show ?case
  proof (cases "coverOoo c")
    case None
    then have eq: "drainLoop c = c" by (subst drainLoop.simps) simp
    with None "1.prems" show ?thesis unfolding eq by (intro exI [of _ p]) simp
  next
    case (Some s)
    obtain p1 where p1: "p < p1" "draining b S p0 e p1 (drainStep c s)"
      "rcvBuf (drainStep c s) = rcvBuf c @ chunk S p (p1 - p)"
      using drainStep_draining [OF "1.prems" Some] .
    obtain p' where p': "p1 \<le> p'" "draining b S p0 e p' (drainLoop (drainStep c s))"
      "rcvBuf (drainLoop (drainStep c s)) = rcvBuf (drainStep c s) @ chunk S p1 (p' - p1)"
      "coverOoo (drainLoop (drainStep c s)) = None"
      using "1.IH" [OF Some p1(2)] by blast
    have eq: "drainLoop c = drainLoop (drainStep c s)" using Some by (subst drainLoop.simps) simp
    show ?thesis
      unfolding eq using p1 p' chunk_join [of p p1 p' S]
      by (intro exI [of _ p']) simp
  qed
qed

lemma drainOoo_draining:
  assumes "draining b S p0 e p c" and "unat (rcv_wnd c) = w"
  obtains p' where "p \<le> p'" "p' \<le> e" "rcv_nxt (drainOoo c) = b + of_nat p'"
    "rcvBuf (drainOoo c) = rcvBuf c @ chunk S p (p' - p)"
    "\<forall>s\<in>set (oooSegs (drainOoo c)). fragOK b S (Suc p') e s"
proof -
  obtain p' where p': "p \<le> p'" "draining b S p0 e p' (drainLoop c)"
    "rcvBuf (drainLoop c) = rcvBuf c @ chunk S p (p' - p)" "coverOoo (drainLoop c) = None"
    using drainLoop_draining [OF assms(1)] by blast
  have nxt: "rcv_nxt (drainLoop c) = b + of_nat p'" and pe: "p0 \<le> p'" "p' \<le> e" "e - p0 \<le> 1073741824"
    using p'(2) by (simp_all add: draining_def)
  have "fragOK b S (Suc p') e s" if s: "s \<in> set (oooSegs (drainOoo c))" for s
  proof -
    have s': "s \<in> set (oooSegs (drainLoop c))" "\<not> SeqLEQ (segEnd s) (rcv_nxt (drainLoop c))"
      using s by (auto simp: drainOoo_def removeFullyConsumedOoo_def)
    then have "\<not> SeqLEQ (fragSeq s) (rcv_nxt (drainLoop c))"
      using p'(4) by (auto simp: coverOoo_def find_None_iff)
    moreover obtain q where q: "fragSeq s = b + of_nat q" "p0 \<le> q"
      "fragData s = chunk S q (length (fragData s))" "q + length (fragData s) \<le> e"
      using p'(2) s'(1) by (auto simp: draining_def fragOK_def)
    ultimately have "p' < q"
      unfolding q(1) nxt by (subst (asm) SeqLEQ_pos) (use q pe in linarith)+
    with q show ?thesis unfolding fragOK_def by (intro exI [of _ q]) simp
  qed
  moreover have "rcv_nxt (drainOoo c) = b + of_nat p'" "rcvBuf (drainOoo c) = rcvBuf c @ chunk S p (p' - p)"
    using nxt p'(3) by (simp_all add: drainOoo_def removeFullyConsumedOoo_def)
  ultimately show ?thesis using p'(1) pe that by blast
qed

subsection \<open>Holding and taking text\<close>

lemma insertOoo_set: "set (oooSegs (insertOoo c s)) \<subseteq> insert s (set (oooSegs c))"
  by (auto simp: insertOoo_def Let_def dest: in_set_takeD in_set_dropD)

lemma insertOoo_fields [simp]:
  "rcv_nxt (insertOoo c s) = rcv_nxt c" "rcvBuf (insertOoo c s) = rcvBuf c"
  "rcv_wnd (insertOoo c s) = rcv_wnd c"
  by (simp_all add: insertOoo_def Let_def)

lemma consumeRcvWindow_fields [simp]:
  "rcv_nxt (consumeRcvWindow c n) = rcv_nxt c" "rcvBuf (consumeRcvWindow c n) = rcvBuf c"
  "oooSegs (consumeRcvWindow c n) = oooSegs c"
  by (simp_all add: consumeRcvWindow_def)

lemma consumeRcvWindow_wnd:
  "unat n \<le> unat (rcv_wnd c) \<Longrightarrow>
     unat (rcv_wnd (consumeRcvWindow c n)) = unat (rcv_wnd c) - unat n"
  by (auto simp: consumeRcvWindow_def unat_u32_diff word_less_nat_alt)

lemma fragOK_mono: "fragOK b S lo e s \<Longrightarrow> lo' \<le> lo \<Longrightarrow> fragOK b S lo' e s"
  unfolding fragOK_def by (meson order_trans)

text \<open>
  A trimmed genuine segment: the stream is received up to a position at or after both \<open>p\<close>
  and, when it closed the gap, its own end; the right edge of the window does not move.
\<close>

lemma takeText_genuine:
  assumes ok: "rcvOK b S p c"
    and lo: "p \<le> lo" "lo < hi" "hi \<le> p + unat (rcv_wnd c)"
  defines "d \<equiv> takeText c \<lparr>fragSeq = b + of_nat lo, fragData = chunk S lo (hi - lo)\<rparr>"
  obtains p' where "p \<le> p'" "rcvOK b S p' d" "rcvBuf d = rcvBuf c @ chunk S p (p' - p)"
    "p' + unat (rcv_wnd d) = p + unat (rcv_wnd c)" "lo = p \<Longrightarrow> hi \<le> p'"
proof -
  let ?s = "\<lparr>fragSeq = b + of_nat lo, fragData = chunk S lo (hi - lo)\<rparr>"
  let ?w = "unat (rcv_wnd c)" and ?e = "p + unat (rcv_wnd c)"
  have nxt: "rcv_nxt c = b + of_nat p" and w: "?w \<le> 1073741824"
    and fr: "\<forall>s\<in>set (oooSegs c). fragOK b S (Suc p) ?e s"
    using ok by (simp_all add: rcvOK_def)
  have eqp: "fragSeq ?s = rcv_nxt c \<longleftrightarrow> lo = p"
    unfolding nxt segFragment.simps by (rule pos_eq_iff) (use lo w in linarith)+
  define m where "m = (if lo = p then drainOoo (c\<lparr>rcvBuf := rcvBuf c @ chunk S lo (hi - lo),
      rcv_nxt := rcv_nxt c + of_nat (hi - lo)\<rparr>) else insertOoo c ?s)"
  have d: "d = consumeRcvWindow m (rcv_nxt m - rcv_nxt c)"
    unfolding d_def takeText_def Let_def m_def eqp by simp
  have "\<exists>p'. p \<le> p' \<and> p' \<le> ?e \<and> rcv_nxt m = b + of_nat p' \<and>
      rcvBuf m = rcvBuf c @ chunk S p (p' - p) \<and>
      (\<forall>s\<in>set (oooSegs m). fragOK b S (Suc p') ?e s) \<and> (lo = p \<longrightarrow> hi \<le> p')"
  proof (cases "lo = p")
    case True
    let ?c = "c\<lparr>rcvBuf := rcvBuf c @ chunk S lo (hi - lo),
      rcv_nxt := rcv_nxt c + of_nat (hi - lo)\<rparr>"
    have "draining b S p ?e hi ?c"
      using True lo w fr by (auto simp: draining_def nxt intro: fragOK_mono)
    then obtain p' where p': "hi \<le> p'" "p' \<le> ?e" "rcv_nxt (drainOoo ?c) = b + of_nat p'"
      "rcvBuf (drainOoo ?c) = rcvBuf ?c @ chunk S hi (p' - hi)"
      "\<forall>s\<in>set (oooSegs (drainOoo ?c)). fragOK b S (Suc p') ?e s"
      by (rule drainOoo_draining [OF _ refl])
    then show ?thesis
      using True lo chunk_join [of p hi p' S] by (intro exI [of _ p']) (simp add: m_def)
  next
    case False
    have "fragOK b S (Suc p) ?e ?s"
      unfolding fragOK_def using False lo by (intro exI [of _ lo]) simp
    then show ?thesis
      using False nxt fr insertOoo_set [of c ?s] by (intro exI [of _ p]) (auto simp: m_def)
  qed
  then obtain p' where p': "p \<le> p'" "p' \<le> ?e" "rcv_nxt m = b + of_nat p'"
    "rcvBuf m = rcvBuf c @ chunk S p (p' - p)"
    "\<forall>s\<in>set (oooSegs m). fragOK b S (Suc p') ?e s" "lo = p \<Longrightarrow> hi \<le> p'" by blast
  have wm: "rcv_wnd m = rcv_wnd c" by (simp add: m_def)
  have adv: "unat (rcv_nxt m - rcv_nxt c) = p' - p"
    using dist_pos [OF p'(1), of b] p'(2) w by (simp add: dist_def p'(3) nxt)
  have wd: "unat (rcv_wnd d) = ?w - (p' - p)"
    unfolding d using consumeRcvWindow_wnd [of "rcv_nxt m - rcv_nxt c" m] adv p'(2) by (simp add: wm)
  then have edge: "p' + unat (rcv_wnd d) = ?e" using p'(1,2) by linarith
  have "unat (rcv_wnd d) \<le> 1073741824" using wd w by linarith
  then have "rcvOK b S p' d"
    unfolding rcvOK_def edge using p'(3,5) by (simp add: d)
  then show ?thesis using p'(1,4,6) edge that by (simp add: d)
qed

text \<open>\<open>acceptText\<close> on any genuine segment.\<close>

lemma acceptText_genuine:
  assumes ok: "rcvOK b S p c" and g: "genuine b S p (SeqNum h) payload q"
  obtains p' where "p \<le> p'" "rcvOK b S p' (acceptText c h payload)"
    "rcvBuf (acceptText c h payload) = rcvBuf c @ chunk S p (p' - p)"
    "p' + unat (rcv_wnd (acceptText c h payload)) = p + unat (rcv_wnd c)"
    "q \<le> p \<Longrightarrow> min (q + length payload) (p + unat (rcv_wnd c)) \<le> p'"
proof -
  let ?lo = "max q p" and ?hi = "min (q + length payload) (p + unat (rcv_wnd c))"
  have nxt: "rcv_nxt c = b + of_nat p" and w: "unat (rcv_wnd c) \<le> 1073741824"
    using ok by (simp_all add: rcvOK_def)
  have trim: "trimToWindow c (SeqNum h) payload =
      \<lparr>fragSeq = b + of_nat ?lo, fragData = chunk S ?lo (?hi - ?lo)\<rparr>"
    by (rule trimToWindow_genuine [OF nxt w g])
  have len: "fragData (trimToWindow c (SeqNum h) payload) = [] \<longleftrightarrow> ?hi \<le> ?lo"
    unfolding trim by (simp flip: length_0_conv)
  show ?thesis
  proof (cases "payload = [] \<or> ?hi \<le> ?lo")
    case True
    then have side: "rcvSide (acceptText c h payload) = rcvSide c"
      using rcvSide_acceptText [of c h payload] len by (auto simp: Let_def)
    then have f: "rcvBuf (acceptText c h payload) = rcvBuf c"
      "rcv_wnd (acceptText c h payload) = rcv_wnd c" by (simp_all add: rcvSide_def)
    show ?thesis
      by (rule that [of p]) (use True ok f rcvOK_side [OF side] in auto)
  next
    case False
    let ?d = "takeText c (trimToWindow c (SeqNum h) payload)"
    have side: "rcvSide (acceptText c h payload) = rcvSide ?d"
      using False rcvSide_acceptText [of c h payload] len by (auto simp: Let_def)
    then have f: "rcvBuf (acceptText c h payload) = rcvBuf ?d"
      "rcv_wnd (acceptText c h payload) = rcv_wnd ?d" by (simp_all add: rcvSide_def)
    have lo: "p \<le> ?lo" "?lo < ?hi" "?hi \<le> p + unat (rcv_wnd c)" using False by linarith+
    obtain p' where p': "p \<le> p'" "rcvOK b S p' ?d" "rcvBuf ?d = rcvBuf c @ chunk S p (p' - p)"
      "p' + unat (rcv_wnd ?d) = p + unat (rcv_wnd c)" "?lo = p \<Longrightarrow> ?hi \<le> p'"
      unfolding trim by (rule takeText_genuine [OF ok lo]) blast
    show ?thesis
      by (rule that [of p']) (use p' f rcvOK_side [OF side] in \<open>auto simp: max_def\<close>)
  qed
qed

subsection \<open>Reading\<close>

text \<open>
  \<open>bufOK\<close>: unread data and the announced window together fit the receive buffer, so no
  peer that respects the window can overrun it.
\<close>

definition bufOK :: "Conn \<Rightarrow> bool" where
  "bufOK c \<longleftrightarrow> length (rcvBuf c) + unat (rcv_wnd c) \<le> unat (rcvBuffCap c)"

lemma recvOnly_cap: "recvOnly c d \<Longrightarrow> rcvBuffCap d = rcvBuffCap c"
  by (simp add: rcvBuffCap_def recvOnlyD)

lemma Recv_fields_data:
  assumes "rcvBuf c \<noteq> []"
  shows "rcvBuf (snd (Recv c n)) = drop n (rcvBuf c)"
    "\<exists>m. rcv_wnd (snd (Recv c n)) = advertiseWindow (rcvBuffCap c) (of_nat (length (drop n (rcvBuf c)))) (rcv_wnd c) m"
  using assms(1) by (auto simp: Recv_def recomputeRcvWindow_def rcvBuffCap_def Let_def)

lemma Recv_window:
  assumes "bufOK c"
  shows "bufOK (snd (Recv c n)) \<and> unat (rcv_wnd c) \<le> unat (rcv_wnd (snd (Recv c n)))"
proof (cases "rcvBuf c = []")
  case True
  then show ?thesis using assms by (simp add: Recv_def)
next
  case False
  let ?l = "length (drop n (rcvBuf c))" and ?cap = "unat (rcvBuffCap c)"
  obtain m where w: "rcv_wnd (snd (Recv c n)) =
      advertiseWindow (rcvBuffCap c) (of_nat ?l) (rcv_wnd c) m"
    using Recv_fields_data(2) [OF False] by blast
  have fit: "unat (rcv_wnd c) + ?l \<le> ?cap"
    using assms unfolding bufOK_def length_drop by linarith
  have "?l < 4294967296" using fit unat_u32_less [of "rcvBuffCap c"] by linarith
  then have u: "unat (of_nat ?l :: u32) = ?l" by (rule unat_u32_of_nat)
  have "unat (rcv_wnd (snd (Recv c n))) + ?l \<le> ?cap"
    using advertiseWindow_fits [of "rcv_wnd c" "of_nat ?l" "rcvBuffCap c" m] fit
    unfolding w u by blast
  moreover have "unat (rcv_wnd c) \<le> unat (rcv_wnd (snd (Recv c n)))"
    unfolding w using advertiseWindow_ge word_le_nat_alt by blast
  ultimately show ?thesis
    unfolding bufOK_def recvOnly_cap [OF Recv_recvOnly] Recv_fields_data(1) [OF False]
    by linarith
qed

definition received :: "recvError + byte list \<Rightarrow> byte list" where
  "received r = (case r of Inl e \<Rightarrow> [] | Inr bs \<Rightarrow> bs)"

lemma Recv_data: "received (fst (Recv c n)) @ rcvBuf (snd (Recv c n)) = rcvBuf c"
  by (simp add: Recv_def received_def recomputeRcvWindow_def Let_def)

lemma Recv_rcvOK:
  assumes "rcvOK b S p c" "bufOK c" "unat (rcvBuffCap c) \<le> 1073741824"
  shows "rcvOK b S p (snd (Recv c n))"
proof -
  have w: "unat (rcv_wnd c) \<le> unat (rcv_wnd (snd (Recv c n)))"
    using Recv_window [OF assms(2)] by blast
  have "bufOK (snd (Recv c n))" using Recv_window [OF assms(2)] by blast
  then have "unat (rcv_wnd (snd (Recv c n))) \<le> 1073741824"
    using assms(3) recvOnly_cap [OF Recv_recvOnly, of c n] by (simp add: bufOK_def)
  then show ?thesis
    using assms(1) w by (auto simp: rcvOK_def fragOK_def) (meson add_left_mono order_trans)
qed

lemma acceptText_bufOK:
  assumes "rcvOK b S p c" "genuine b S p (SeqNum h) payload q" "bufOK c"
  shows "bufOK (acceptText c h payload)"
proof -
  obtain p' where p': "p \<le> p'" "rcvBuf (acceptText c h payload) = rcvBuf c @ chunk S p (p' - p)"
    "p' + unat (rcv_wnd (acceptText c h payload)) = p + unat (rcv_wnd c)"
    by (rule acceptText_genuine [OF assms(1,2)])
  have "rcvBuffCap (acceptText c h payload) = rcvBuffCap c"
    by (rule recvOnly_cap [OF acceptText_recvOnly])
  then show ?thesis using p' assms(3) by (simp add: bufOK_def)
qed

subsection \<open>Any interleaving of segments and reads\<close>

datatype rcvEvent = Text TCPHeader "byte list" | Read nat

text \<open>
  The connection, the position of RCV.NXT in the stream, and what \<open>Recv\<close> has returned.
\<close>

fun rcvStep :: "Conn \<times> nat \<times> byte list \<Rightarrow> rcvEvent \<Rightarrow> Conn \<times> nat \<times> byte list" where
  "rcvStep (c, p, out) (Text h payload) =
     (let d = acceptText c h payload in (d, p + dist (rcv_nxt c) (rcv_nxt d), out))"
| "rcvStep (c, p, out) (Read n) = (let (r, d) = Recv c n in (d, p, out @ received r))"

fun genuineRun :: "u32 \<Rightarrow> (nat \<Rightarrow> byte) \<Rightarrow> Conn \<times> nat \<times> byte list \<Rightarrow> rcvEvent list \<Rightarrow> bool" where
  "genuineRun b S st [] = True"
| "genuineRun b S st (e # es) =
     ((case e of Text h payload \<Rightarrow> \<exists>q. genuine b S (fst (snd st)) (SeqNum h) payload q
               | Read n \<Rightarrow> True) \<and> genuineRun b S (rcvStep st e) es)"

text \<open>The invariant of a run, with the right edge of the window.\<close>

definition rcvRunOK :: "u32 \<Rightarrow> (nat \<Rightarrow> byte) \<Rightarrow> nat \<Rightarrow> Conn \<times> nat \<times> byte list \<Rightarrow> bool" where
  "rcvRunOK b S p0 st \<longleftrightarrow>
     (case st of (c, p, out) \<Rightarrow> rcvOK b S p c \<and> bufOK c \<and>
        unat (rcvBuffCap c) \<le> 1073741824 \<and> p0 \<le> p \<and> out @ rcvBuf c = chunk S p0 (p - p0))"

definition rightEdge :: "Conn \<times> nat \<times> byte list \<Rightarrow> nat" where
  "rightEdge st = fst (snd st) + unat (rcv_wnd (fst st))"

lemma rcvStep_OK:
  assumes "rcvRunOK b S p0 st"
    and "case e of Text h payload \<Rightarrow> \<exists>q. genuine b S (fst (snd st)) (SeqNum h) payload q
                 | Read n \<Rightarrow> True"
  shows "rcvRunOK b S p0 (rcvStep st e) \<and> rightEdge st \<le> rightEdge (rcvStep st e)"
proof -
  obtain c p out where st: "st = (c, p, out)" by (cases st)
  have i: "rcvOK b S p c" "bufOK c" "unat (rcvBuffCap c) \<le> 1073741824" "p0 \<le> p"
    "out @ rcvBuf c = chunk S p0 (p - p0)"
    using assms(1) by (simp_all add: rcvRunOK_def st)
  show ?thesis
  proof (cases e)
    case (Text h payload)
    then obtain q where g: "genuine b S p (SeqNum h) payload q" using assms(2) st by auto
    let ?d = "acceptText c h payload"
    obtain p' where p': "p \<le> p'" "rcvOK b S p' ?d" "rcvBuf ?d = rcvBuf c @ chunk S p (p' - p)"
      "p' + unat (rcv_wnd ?d) = p + unat (rcv_wnd c)"
      by (rule acceptText_genuine [OF i(1) g])
    have "unat (rcv_wnd c) \<le> 1073741824" using i(1) by (simp add: rcvOK_def)
    then have near: "p' - p < 4294967296" using p'(1,4) by linarith
    have "rcv_nxt c = b + of_nat p" "rcv_nxt ?d = b + of_nat p'"
      using i(1) p'(2) by (simp_all add: rcvOK_def)
    then have pos: "p + dist (rcv_nxt c) (rcv_nxt ?d) = p'"
      using dist_pos [OF p'(1) near] p'(1) by simp
    have "out @ rcvBuf ?d = chunk S p0 (p' - p0)"
      unfolding p'(3) append_assoc [symmetric] i(5) by (rule chunk_join [OF i(4) p'(1)])
    moreover have "bufOK ?d" by (rule acceptText_bufOK [OF i(1) g i(2)])
    moreover have "rcvBuffCap ?d = rcvBuffCap c" by (rule recvOnly_cap [OF acceptText_recvOnly])
    ultimately show ?thesis
      using Text st p' i pos by (simp add: rcvRunOK_def rightEdge_def Let_def)
  next
    case (Read n)
    let ?d = "snd (Recv c n)"
    have "(out @ received (fst (Recv c n))) @ rcvBuf ?d = chunk S p0 (p - p0)"
      using Recv_data [of c n] i(5) by simp
    moreover have "rcvBuffCap ?d = rcvBuffCap c" by (rule recvOnly_cap [OF Recv_recvOnly])
    ultimately show ?thesis
      using Read st i Recv_window [OF i(2), of n] Recv_rcvOK [OF i(1,2,3), of n]
      by (simp add: rcvRunOK_def rightEdge_def case_prod_unfold Let_def)
  qed
qed

lemma rcvRun_OK:
  "rcvRunOK b S p0 st \<Longrightarrow> genuineRun b S st es \<Longrightarrow>
     rcvRunOK b S p0 (foldl rcvStep st es) \<and> rightEdge st \<le> rightEdge (foldl rcvStep st es)"
proof (induction es arbitrary: st)
  case (Cons e es)
  then have s: "rcvRunOK b S p0 (rcvStep st e)" "rightEdge st \<le> rightEdge (rcvStep st e)"
    "genuineRun b S (rcvStep st e) es"
    using rcvStep_OK [of b S p0 st e] by simp_all
  then show ?case using Cons.IH [OF s(1,3)] by simp
qed simp

section \<open>Properties\<close>

text \<open>
  C10: the receiving half refines the peer's byte stream. However segments that carry pieces
  of the stream arrive (reordered, overlapping, repeated) and however reads are interleaved
  with them, what \<open>Recv\<close> has returned followed by what is still buffered is the
  stream from the starting position to the position of RCV.NXT, without a gap, a repetition
  or a foreign byte; and the right edge of the receive window never shrinks.
\<close>

theorem reassembly_refines_stream:
  assumes "rcvOK b S p c" "bufOK c" "unat (rcvBuffCap c) \<le> 1073741824" "rcvBuf c = []"
    and "genuineRun b S (c, p, []) es"
  shows "case foldl rcvStep (c, p, []) es of (d, q, out) \<Rightarrow>
    p \<le> q \<and> rcv_nxt d = b + of_nat q \<and> out @ rcvBuf d = chunk S p (q - p) \<and>
    p + unat (rcv_wnd c) \<le> q + unat (rcv_wnd d)"
proof -
  have "rcvRunOK b S p (c, p, [])" using assms(1-4) by (simp add: rcvRunOK_def)
  from rcvRun_OK [OF this assms(5)] show ?thesis
    by (auto simp: rcvRunOK_def rcvOK_def rightEdge_def split: prod.splits)
qed

theorem reassembly_refines_stream_witness:
  "case foldl rcvStep (demoConn\<lparr>rcv_nxt := 1000, rcv_wnd := 65535\<rparr>, 0, [])
       [Text (demoHeader FlagACK 1000 0) [0, 1, 2], Read 2] of (d, q, out) \<Rightarrow>
     out @ rcvBuf d = chunk of_nat 0 q"
proof -
  have "genuine 1000 of_nat 0 1000 [0, 1, 2] 0" by (simp add: genuine_def chunk_def)
  then have "genuineRun 1000 of_nat (demoConn\<lparr>rcv_nxt := 1000, rcv_wnd := 65535\<rparr>, 0, [])
      [Text (demoHeader FlagACK 1000 0) [0, 1, 2], Read 2]" by (auto simp: demoHeader_def)
  from reassembly_refines_stream [OF _ _ _ _ this] show ?thesis
    by (auto simp: rcvOK_def bufOK_def demoConn_def NewConn_def rcvBuffCap_def defaultRcvWindow_def
        maxWindow_def)
qed

text \<open>
  The receive window is honest. If window and buffered bytes fit into the receive buffer,
  they still do after a read of any size, and the read never takes back window that was
  announced.
\<close>

theorem recv_window_fits_and_grows:
  assumes "length (rcvBuf c) + unat (rcv_wnd c) \<le> unat (rcvBuffCap c)"
  shows "let d = snd (Recv c n) in
    length (rcvBuf d) + unat (rcv_wnd d) \<le> unat (rcvBuffCap d) \<and> unat (rcv_wnd c) \<le> unat (rcv_wnd d)"
  using Recv_window [of c n] assms by (simp add: bufOK_def Let_def)

theorem recv_window_fits_and_grows_witness:
  "unat (rcv_wnd (snd (Recv (demoConn\<lparr>rcvBuf := [1, 2, 3], rcv_wnd := 100\<rparr>) 2))) \<ge> 100"
  using recv_window_fits_and_grows [of "demoConn\<lparr>rcvBuf := [1, 2, 3], rcv_wnd := 100\<rparr>" 2]
  by (simp add: demoConn_def NewConn_def rcvBuffCap_def defaultRcvWindow_def maxWindow_def Let_def)

end
