(* ===== verification/Tcp_Delivery.thy ===== *)
theory Tcp_Delivery
  imports Tcp_Reassembly "HOL-Library.Sublist"
begin

section \<open>Nothing that arrived is lost\<close>

text \<open>
  The other half of the receiver's specification. \<open>Tcp_Reassembly\<close> shows that what is delivered
  is a piece of the stream; here a position that has arrived stays arrived (\<open>arrived\<close>: below
  RCV.NXT, or inside a held segment) through holding, draining, trimming and reading. So
  once every position up to some point has arrived, in whatever order, RCV.NXT has passed that
  point.
\<close>

definition arrived :: "u32 \<Rightarrow> Conn \<Rightarrow> nat \<Rightarrow> nat \<Rightarrow> bool" where
  "arrived b c p x \<longleftrightarrow> x < p \<or> held (oooSegs c) (b + of_nat x)"

lemma arrived_mono: "arrived b c p x \<Longrightarrow> p \<le> p' \<Longrightarrow> set (oooSegs c) \<subseteq> set (oooSegs d) \<Longrightarrow> arrived b d p' x"
  by (auto simp: arrived_def held_def)

lemma arrived_side: "oooSegs d = oooSegs c \<Longrightarrow> arrived b d p x = arrived b c p x"
  by (simp add: arrived_def)

text \<open>The position of a held byte.\<close>

lemma fragOK_position:
  assumes "fragOK b S lo e s" "b + of_nat x = fragSeq s + of_nat j" "j < length (fragData s)"
    and "lo \<le> x + 1073741824" "x \<le> e" "e \<le> lo + 1073741824"
  obtains q where "fragSeq s = b + of_nat q" "lo \<le> q" "q + length (fragData s) \<le> e" "x = q + j"
proof -
  obtain q where q: "fragSeq s = b + of_nat q" "lo \<le> q" "q + length (fragData s) \<le> e"
    using assms(1) by (auto simp: fragOK_def)
  have "b + of_nat x = b + of_nat (q + j)" using assms(2) by (simp add: q(1))
  then have "x = q + j" by (subst (asm) pos_eq_iff) (use q assms in linarith)+
  with q that show ?thesis by blast
qed

subsection \<open>Draining\<close>

lemma removed_arrived:
  assumes d: "rcv_nxt c = b + of_nat p'" "\<forall>s\<in>set (oooSegs c). fragOK b S p0 e s" "p0 \<le> p'" "p' \<le> e"
      "e - p0 \<le> 1073741824"
    and x: "arrived b c p x" "p0 \<le> p" "p \<le> p'" "x < e"
  shows "arrived b (removeFullyConsumedOoo c) p' x"
proof (cases "x < p'")
  case False
  then obtain s j where s: "s \<in> set (oooSegs c)" "j < length (fragData s)" "b + of_nat x = fragSeq s + of_nat j"
    using x(1,3) by (auto simp: arrived_def held_def)
  obtain q where q: "fragSeq s = b + of_nat q" "p0 \<le> q" "q + length (fragData s) \<le> e" "x = q + j"
  proof (rule fragOK_position [OF bspec [OF d(2) s(1)] s(3,2)])
    show "p0 \<le> x + 1073741824" "x \<le> e" "e \<le> p0 + 1073741824" using False d(3-5) x(4) by linarith+
  qed blast
  have "\<not> SeqLEQ (segEnd s) (rcv_nxt c)"
    unfolding segEnd_pos [OF q(1)] d(1) by (subst SeqLEQ_pos) (use q False s(2) d in linarith)+
  then have "s \<in> set (oooSegs (removeFullyConsumedOoo c))"
    using s(1) by (simp add: removeFullyConsumedOoo_def)
  with s show ?thesis by (auto simp: arrived_def held_def)
qed (simp add: arrived_def)

lemma drainStep_arrived:
  assumes d: "draining b S p0 e p c" and s: "coverOoo c = Some s"
    and x: "arrived b c p x" "x < e" and p': "draining b S p0 e p' (drainStep c s)" "p \<le> p'"
  shows "arrived b (drainStep c s) p' x"
proof -
  let ?c = "c\<lparr>rcvBuf := rcvBuf c @ drop (unat (rcv_nxt c - fragSeq s)) (fragData s),
    rcv_nxt := rcv_nxt (drainStep c s)\<rparr>"
  have e: "oooSegs (drainStep c s) = oooSegs (removeFullyConsumedOoo ?c)"
    by (simp add: drainStep_def removeFullyConsumedOoo_def Let_def)
  have "arrived b (removeFullyConsumedOoo ?c) p' x"
    by (rule removed_arrived [of _ b p' S p0 e p])
      (use d p' x in \<open>simp_all add: draining_def arrived_def\<close>)
  then show ?thesis by (simp only: arrived_side [OF e])
qed

lemma drainLoop_arrived:
  "draining b S p0 e p c \<Longrightarrow> arrived b c p x \<Longrightarrow> x < e \<Longrightarrow>
     draining b S p0 e p' (drainLoop c) \<Longrightarrow> arrived b (drainLoop c) p' x"
proof (induction c arbitrary: p rule: drainLoop.induct)
  case (1 c)
  show ?case
  proof (cases "coverOoo c")
    case None
    then have eq: "drainLoop c = c" by (subst drainLoop.simps) simp
    have "b + of_nat p = b + of_nat p'" using "1.prems"(1,4) unfolding eq draining_def by simp
    then have "p = p'"
      by (subst (asm) pos_eq_iff) (use "1.prems"(1,4) in \<open>unfold draining_def, linarith+\<close>)
    with "1.prems"(2) show ?thesis unfolding eq by simp
  next
    case (Some s)
    obtain p1 where p1: "p < p1" "draining b S p0 e p1 (drainStep c s)"
      by (rule drainStep_draining [OF "1.prems"(1) Some])
    have eq: "drainLoop c = drainLoop (drainStep c s)" using Some by (subst drainLoop.simps) simp
    have "arrived b (drainStep c s) p1 x"
      by (rule drainStep_arrived [OF "1.prems"(1) Some "1.prems"(2,3) p1(2)]) (use p1(1) in linarith)
    from "1.IH" [OF Some p1(2) this "1.prems"(3)] show ?thesis
      using "1.prems"(4) unfolding eq by blast
  qed
qed

lemma drainOoo_arrived:
  assumes d: "draining b S p0 e p c" and x: "arrived b c p x" "x < e"
    and p': "rcv_nxt (drainOoo c) = b + of_nat p'" "p \<le> p'" "p' \<le> e"
  shows "arrived b (drainOoo c) p' x"
proof -
  obtain p1 where p1: "p \<le> p1" "draining b S p0 e p1 (drainLoop c)"
    using drainLoop_draining [OF d] by blast
  have "b + of_nat p' = b + of_nat p1"
    using p1(2) p'(1) by (simp add: drainOoo_def removeFullyConsumedOoo_def draining_def)
  then have "p' = p1"
    by (subst (asm) pos_eq_iff) (use d p1 p' in \<open>unfold draining_def, linarith+\<close>)
  then have n: "draining b S p0 e p' (drainLoop c)" "arrived b (drainLoop c) p' x"
    using p1(2) drainLoop_arrived [OF d x p1(2)] by simp_all
  then show ?thesis
    unfolding drainOoo_def by (intro removed_arrived [of _ b p' S p0 e p']) (use x in \<open>simp_all add: draining_def\<close>)
qed

subsection \<open>Holding and taking text\<close>

lemma insertOoo_keeps: "set (oooSegs c) \<subseteq> set (oooSegs (insertOoo c s))"
proof -
  have "set (oooSegs c) = set (take i (oooSegs c)) \<union> set (drop i (oooSegs c))" for i
    by (metis append_take_drop_id set_append)
  then show ?thesis by (auto simp: insertOoo_def Let_def)
qed

lemma insertOoo_holds:
  assumes "j < length (fragData s)"
  shows "held (oooSegs (insertOoo c s)) (fragSeq s + of_nat j)"
proof -
  let ?i = "insertIndex (oooSegs c) (fragSeq s)" and ?o = "oooSegs c"
  let ?same = "?i < length ?o \<and> fragSeq (?o ! ?i) = fragSeq s \<and> length (fragData s) \<le> length (fragData (?o ! ?i))"
  show ?thesis
  proof (cases ?same)
    case True
    then have "oooSegs (insertOoo c s) = ?o" by (simp add: insertOoo_def Let_def)
    moreover have "?o ! ?i \<in> set ?o" "j < length (fragData (?o ! ?i))" using True assms by simp_all
    ultimately show ?thesis using True unfolding held_def by metis
  next
    case False
    then have "s \<in> set (oooSegs (insertOoo c s))" unfolding insertOoo_def Let_def by auto
    with assms show ?thesis unfolding held_def by blast
  qed
qed

text \<open>A trimmed genuine segment: what has arrived stays, and its own bytes have arrived.\<close>

lemma takeText_arrived:
  assumes ok: "rcvOK b S p c"
    and lo: "p \<le> lo" "lo < hi" "hi \<le> p + unat (rcv_wnd c)" and xe: "x < p + unat (rcv_wnd c)"
  defines "d \<equiv> takeText c \<lparr>fragSeq = b + of_nat lo, fragData = chunk S lo (hi - lo)\<rparr>"
  assumes p': "rcvOK b S p' d" "p \<le> p'" "p' + unat (rcv_wnd d) = p + unat (rcv_wnd c)"
    and x: "arrived b c p x \<or> lo \<le> x \<and> x < hi"
  shows "arrived b d p' x"
proof -
  let ?s = "\<lparr>fragSeq = b + of_nat lo, fragData = chunk S lo (hi - lo)\<rparr>"
  let ?w = "unat (rcv_wnd c)" and ?e = "p + unat (rcv_wnd c)"
  have nxt: "rcv_nxt c = b + of_nat p" and w: "?w \<le> 1073741824"
    and fr: "\<forall>s\<in>set (oooSegs c). fragOK b S (Suc p) ?e s"
    using ok by (simp_all add: rcvOK_def)
  have eqp: "fragSeq ?s = rcv_nxt c \<longleftrightarrow> lo = p"
    unfolding nxt segFragment.simps by (rule pos_eq_iff) (use lo w in linarith)+
  show ?thesis
  proof (cases "lo = p")
    case True
    let ?c = "c\<lparr>rcvBuf := rcvBuf c @ chunk S lo (hi - lo),
      rcv_nxt := rcv_nxt c + of_nat (hi - lo)\<rparr>"
    have d: "oooSegs d = oooSegs (drainOoo ?c)" "rcv_nxt d = rcv_nxt (drainOoo ?c)"
      unfolding d_def takeText_def Let_def eqp using True by simp_all
    have dr: "draining b S p ?e hi ?c"
      using True lo w fr by (auto simp: draining_def nxt intro: fragOK_mono)
    obtain p1 where p1: "hi \<le> p1" "p1 \<le> ?e" "rcv_nxt (drainOoo ?c) = b + of_nat p1"
      by (rule drainOoo_draining [OF dr refl])
    have "b + of_nat p1 = b + of_nat p'" using p'(1) p1(3) d(2) by (simp add: rcvOK_def)
    then have e: "p1 = p'"
      by (subst (asm) pos_eq_iff) (use p1 p'(2,3) w lo in linarith)+
    have "arrived b ?c hi x" using x lo True by (auto simp: arrived_def)
    then have "arrived b (drainOoo ?c) p' x"
      by (rule drainOoo_arrived [OF dr _ xe]) (use p1 e in simp_all)
    then show ?thesis by (simp only: arrived_side [OF d(1)])
  next
    case False
    have d: "oooSegs d = oooSegs (insertOoo c ?s)" "rcv_nxt d = rcv_nxt c"
      unfolding d_def takeText_def Let_def eqp using False by simp_all
    from x show ?thesis
    proof
      assume "arrived b c p x"
      then show ?thesis by (rule arrived_mono) (use p'(2) insertOoo_keeps d(1) in auto)
    next
      assume "lo \<le> x \<and> x < hi"
      then have "b + of_nat x = fragSeq ?s + of_nat (x - lo)" "x - lo < length (fragData ?s)"
        by (simp_all add: diff_less_mono)
      then show ?thesis using insertOoo_holds [of "x - lo" ?s c] d(1) unfolding arrived_def by metis
    qed
  qed
qed

text \<open>The byte at position \<open>x\<close> is in the payload.\<close>

definition carries :: "u32 \<Rightarrow> u32 \<Rightarrow> byte list \<Rightarrow> nat \<Rightarrow> bool" where
  "carries b sq payload x \<longleftrightarrow> (\<exists>j<length payload. sq + of_nat j = b + of_nat x)"

lemma acceptText_arrived:
  assumes ok: "rcvOK b S p c" and g: "genuine b S p (SeqNum h) payload q"
    and xe: "x < p + unat (rcv_wnd c)"
    and p': "rcvOK b S p' (acceptText c h payload)" "p \<le> p'"
      "p' + unat (rcv_wnd (acceptText c h payload)) = p + unat (rcv_wnd c)"
    and x: "arrived b c p x \<or> carries b (SeqNum h) payload x"
  shows "arrived b (acceptText c h payload) p' x"
proof (cases "x < p")
  case True
  then show ?thesis using p'(2) by (simp add: arrived_def)
next
  case px: False
  let ?lo = "max q p" and ?hi = "min (q + length payload) (p + unat (rcv_wnd c))"
  have nxt: "rcv_nxt c = b + of_nat p" and w: "unat (rcv_wnd c) \<le> 1073741824"
    using ok by (simp_all add: rcvOK_def)
  have gq: "SeqNum h = b + of_nat q" "p < q + 1073741824" "q + length payload < p + 1073741824"
    using g by (simp_all add: genuine_def)
  have trim: "trimToWindow c (SeqNum h) payload =
      \<lparr>fragSeq = b + of_nat ?lo, fragData = chunk S ?lo (?hi - ?lo)\<rparr>"
    by (rule trimToWindow_genuine [OF nxt w g])
  have len: "fragData (trimToWindow c (SeqNum h) payload) = [] \<longleftrightarrow> ?hi \<le> ?lo"
    unfolding trim by (simp flip: length_0_conv)
  have inside: "?lo \<le> x \<and> x < ?hi" if "carries b (SeqNum h) payload x"
  proof -
    obtain j where j: "j < length payload" "b + of_nat (q + j) = b + of_nat x"
      using \<open>carries b (SeqNum h) payload x\<close> by (auto simp: carries_def gq(1) add.assoc)
    then have "q + j = x" by (subst (asm) pos_eq_iff) (use gq xe px w in linarith)+
    then show ?thesis using j(1) px xe by simp
  qed
  show ?thesis
  proof (cases "payload = [] \<or> ?hi \<le> ?lo")
    case True
    then have side: "rcvSide (acceptText c h payload) = rcvSide c"
      using rcvSide_acceptText [of c h payload] len by (auto simp: Let_def)
    then have "oooSegs (acceptText c h payload) = oooSegs c" by (simp add: rcvSide_def)
    moreover have "\<not> carries b (SeqNum h) payload x"
    proof
      assume c: "carries b (SeqNum h) payload x"
      from inside [OF this] have "?lo < ?hi" by linarith
      moreover have "payload \<noteq> []" using c by (auto simp: carries_def)
      ultimately show False using True by (metis linorder_not_less)
    qed
    ultimately show ?thesis using x p'(2) arrived_mono [of b c p x p'] by simp
  next
    case False
    let ?d = "takeText c (trimToWindow c (SeqNum h) payload)"
    have side: "rcvSide (acceptText c h payload) = rcvSide ?d"
      using False rcvSide_acceptText [of c h payload] len by (auto simp: Let_def)
    then have f: "oooSegs (acceptText c h payload) = oooSegs ?d"
      "rcv_wnd (acceptText c h payload) = rcv_wnd ?d" by (simp_all add: rcvSide_def)
    have lo: "p \<le> ?lo" "?lo < ?hi" "?hi \<le> p + unat (rcv_wnd c)" using False by linarith+
    have "arrived b ?d p' x"
      unfolding trim
      by (rule takeText_arrived [OF ok lo xe])
        (use p' f(2) rcvOK_side [OF side] x inside in \<open>auto simp: trim\<close>)
    then show ?thesis by (simp only: arrived_side [OF f(1)])
  qed
qed

text \<open>A position that has arrived below the edge, with all before it: RCV.NXT has passed it.\<close>

lemma gap_not_arrived:
  assumes "rcvOK b S p c"
  shows "\<not> arrived b c p p"
proof
  assume "arrived b c p p"
  then obtain s j where s: "s \<in> set (oooSegs c)" "j < length (fragData s)" "b + of_nat p = fragSeq s + of_nat j"
    by (auto simp: arrived_def held_def)
  have f: "fragOK b S (Suc p) (p + unat (rcv_wnd c)) s" "unat (rcv_wnd c) \<le> 1073741824"
    using assms s(1) by (simp_all add: rcvOK_def)
  show False
    by (rule fragOK_position [OF f(1) s(3,2)]) (use f(2) in linarith)+
qed

lemma all_arrived:
  assumes "rcvOK b S p c" "\<And>x. x < n \<Longrightarrow> arrived b c p x"
  shows "n \<le> p"
  using assms(2) [of p] gap_not_arrived [OF assms(1)] by fastforce

subsection \<open>Runs\<close>

text \<open>The bytes of the stream that a run of segments and reads brings.\<close>

definition offered :: "u32 \<Rightarrow> rcvEvent list \<Rightarrow> nat \<Rightarrow> bool" where
  "offered b es x \<longleftrightarrow> (\<exists>e\<in>set es. case e of Text h payload \<Rightarrow> carries b (SeqNum h) payload x | Read n \<Rightarrow> False)"

lemma Recv_ooo: "oooSegs (snd (Recv c n)) = oooSegs c"
  by (simp add: Recv_def recomputeRcvWindow_def Let_def)

lemma rcvStep_arrived:
  assumes i: "rcvRunOK b S p0 st"
    and e: "case e of Text h payload \<Rightarrow> \<exists>q. genuine b S (fst (snd st)) (SeqNum h) payload q | Read n \<Rightarrow> True"
    and x: "x < rightEdge st" "arrived b (fst st) (fst (snd st)) x \<or> offered b [e] x"
  shows "arrived b (fst (rcvStep st e)) (fst (snd (rcvStep st e))) x"
proof -
  obtain c p out where st: "st = (c, p, out)" by (cases st)
  note n = rcvStep_OK [OF i e]
  show ?thesis
  proof (cases e)
    case (Read n)
    then show ?thesis
      using x(2) by (simp add: st offered_def case_prod_unfold Let_def arrived_side [OF Recv_ooo])
  next
    case (Text h payload)
    obtain q where g: "genuine b S p (SeqNum h) payload q" using e st Text by auto
    let ?d = "acceptText c h payload" and ?p = "p + dist (rcv_nxt c) (rcv_nxt (acceptText c h payload))"
    have r: "rcvStep st e = (?d, ?p, out)" by (simp add: st Text Let_def)
    have n1: "rcvRunOK b S p0 (?d, ?p, out)" using n unfolding r by blast
    have ok: "rcvOK b S p c" "rcvOK b S ?p ?d"
      using i n1 unfolding st rcvRunOK_def prod.case by blast+
    obtain p' where p': "p \<le> p'" "rcvOK b S p' ?d" "p' + unat (rcv_wnd ?d) = p + unat (rcv_wnd c)"
      by (rule acceptText_genuine [OF ok(1) g])
    have "b + of_nat ?p = b + of_nat p'" using ok(2) p'(2) by (simp add: rcvOK_def)
    moreover have "dist (rcv_nxt c) (rcv_nxt ?d) = p' - p"
    proof -
      have "unat (rcv_wnd c) \<le> 1073741824" using ok(1) by (simp add: rcvOK_def)
      then have "p' - p < 4294967296" using p'(1,3) by linarith
      then show ?thesis using dist_pos [OF p'(1), of b] ok(1) p'(2) by (simp add: rcvOK_def)
    qed
    ultimately have "?p = p'" using p'(1) by simp
    then show ?thesis
      unfolding r fst_conv snd_conv
      using acceptText_arrived [OF ok(1) g _ p'(2,1,3), of x] x
      by (simp add: st rightEdge_def Text offered_def)
  qed
qed

lemma offered_Cons: "offered b (e # es) x \<longleftrightarrow> offered b [e] x \<or> offered b es x"
  by (simp add: offered_def)

lemma rcvRun_arrived:
  "rcvRunOK b S p0 st \<Longrightarrow> genuineRun b S st es \<Longrightarrow> x < rightEdge st \<Longrightarrow>
     arrived b (fst st) (fst (snd st)) x \<or> offered b es x \<Longrightarrow>
     arrived b (fst (foldl rcvStep st es)) (fst (snd (foldl rcvStep st es))) x"
proof (induction es arbitrary: st)
  case (Cons e es)
  have e: "case e of Text h payload \<Rightarrow> \<exists>q. genuine b S (fst (snd st)) (SeqNum h) payload q | Read n \<Rightarrow> True"
    and g: "genuineRun b S (rcvStep st e) es"
    using Cons.prems(2) unfolding genuineRun.simps by blast+
  have s: "rcvRunOK b S p0 (rcvStep st e)" "rightEdge st \<le> rightEdge (rcvStep st e)"
    using rcvStep_OK [OF Cons.prems(1) e] by blast+
  have "arrived b (fst (rcvStep st e)) (fst (snd (rcvStep st e))) x \<or> offered b es x"
    using Cons.prems(4) rcvStep_arrived [OF Cons.prems(1) e Cons.prems(3)]
    offered_Cons [of b e es x] by blast
  from Cons.IH [OF s(1) g less_le_trans [OF Cons.prems(3) s(2)] this] show ?case
    by (simp only: foldl_Cons)
qed (simp add: offered_def)

text \<open>
  The result: what the window announced and the network brought, in any order and with any
  repetition, is delivered.
\<close>

lemma run_complete:
  assumes i: "rcvRunOK b S p0 (c, p, out)" and g: "genuineRun b S (c, p, out) es"
    and n: "n \<le> p + unat (rcv_wnd c)" and all: "\<And>x. p \<le> x \<Longrightarrow> x < n \<Longrightarrow> offered b es x"
  shows "n \<le> fst (snd (foldl rcvStep (c, p, out) es))"
proof -
  let ?st = "foldl rcvStep (c, p, out) es"
  have "rcvOK b S (fst (snd ?st)) (fst ?st)"
    using rcvRun_OK [OF i g] by (auto simp: rcvRunOK_def case_prod_unfold)
  moreover have "arrived b (fst ?st) (fst (snd ?st)) x" if "x < n" for x
  proof (rule rcvRun_arrived [OF i g])
    show "x < rightEdge (c, p, out)" using that n by (simp add: rightEdge_def)
    show "arrived b (fst (c, p, out)) (fst (snd (c, p, out))) x \<or> offered b es x"
      using that all [of x] by (cases "p \<le> x") (simp_all add: arrived_def)
  qed
  ultimately show ?thesis by (rule all_arrived)
qed

lemma chunk_prefix: "m \<le> n \<Longrightarrow> prefix (chunk S p m) (chunk S p n)"
proof -
  assume "m \<le> n"
  then have "[p..<p + n] = [p..<p + m] @ [p + m..<p + n]" using upt_add_eq_append [of p "p + m" "n - m"] by simp
  then show ?thesis by (simp add: chunk_def)
qed

section \<open>Properties\<close>

text \<open>
  C11: reassembly is complete. Let genuine segments arrive in any order, cut in any way,
  repeated and overlapping, with reads in between. Once every byte from the starting
  position up to \<open>N\<close> has been in one of them, and \<open>N\<close> lies inside
  the window announced at the start, all of it has been delivered or waits in the receive
  buffer, in order: no byte that arrived is dropped while it waits for an earlier one (the
  peer has to send nothing twice). With \<open>reassembly_refines_stream\<close>, which says
  that nothing else is delivered, this fixes what a reader gets.
\<close>

theorem delivery_complete:
  assumes "rcvOK b S p c" "bufOK c" "unat (rcvBuffCap c) \<le> 1073741824" "rcvBuf c = []"
    and "genuineRun b S (c, p, []) es"
    and "N \<le> p + unat (rcv_wnd c)" "\<forall>x. p \<le> x \<and> x < N \<longrightarrow> offered b es x"
  shows "case foldl rcvStep (c, p, []) es of (d, q, out) \<Rightarrow> prefix (chunk S p (N - p)) (out @ rcvBuf d)"
proof -
  have i: "rcvRunOK b S p (c, p, [])" using assms(1-4) by (simp add: rcvRunOK_def)
  obtain d q out where r: "foldl rcvStep (c, p, []) es = (d, q, out)" by (metis surj_pair)
  have "N \<le> q" using run_complete [OF i assms(5,6)] assms(7) by (simp add: r)
  moreover have "out @ rcvBuf d = chunk S p (q - p)"
    using rcvRun_OK [OF i assms(5)] by (auto simp: rcvRunOK_def r)
  ultimately show ?thesis by (simp add: r chunk_prefix)
qed

theorem delivery_complete_witness:
  "case foldl rcvStep (demoConn\<lparr>rcv_nxt := 1000, rcv_wnd := 65535\<rparr>, 0, [])
       [Text (demoHeader FlagACK 1003 0) [3, 4], Read 7, Text (demoHeader FlagACK 1000 0) [0, 1, 2, 3]] of (d, q, out) \<Rightarrow>
     prefix [0, 1, 2, 3, 4] (out @ rcvBuf d)"
proof -
  let ?c = "demoConn\<lparr>rcv_nxt := 1000, rcv_wnd := 65535\<rparr>"
  let ?es = "[Text (demoHeader FlagACK 1003 0) [3, 4], Read 7, Text (demoHeader FlagACK 1000 0) [0, 1, 2, 3]]"
  have "genuine 1000 of_nat 0 1003 [3, 4] 3" "genuine 1000 of_nat 0 1000 [0, 1, 2, 3] 0"
    by (simp_all add: genuine_def chunk_def)
  moreover have "rcv_nxt (acceptText ?c (demoHeader FlagACK 1003 0) [3, 4]) = 1000" by code_simp
  ultimately have g: "genuineRun 1000 of_nat (?c, 0, []) ?es"
    by (auto simp: demoHeader_def dist_def case_prod_unfold Let_def)
  have o: "\<forall>x. 0 \<le> x \<and> x < 5 \<longrightarrow> offered 1000 ?es x"
  proof (intro allI impI)
    fix x :: nat
    assume "0 \<le> x \<and> x < 5"
    then consider "x < 4" | "x = 4" by linarith
    then show "offered 1000 ?es x"
    proof cases
      case 1
      then have "carries 1000 1000 [0, 1, 2, 3] x" unfolding carries_def by (intro exI [of _ x]) simp
      then show ?thesis by (simp add: offered_def demoHeader_def)
    next
      case 2
      then have "carries 1000 1003 [3, 4] x" unfolding carries_def by (intro exI [of _ 1]) simp
      then show ?thesis by (simp add: offered_def demoHeader_def)
    qed
  qed
  have e: "[0, 1, 2, 3, 4] = chunk of_nat 0 (5 - 0)" by code_simp
  show ?thesis unfolding e
    by (rule delivery_complete [OF _ _ _ _ g _ o])
      (simp_all add: rcvOK_def bufOK_def demoConn_def NewConn_def rcvBuffCap_def defaultRcvWindow_def maxWindow_def)
qed

end
