(* ===== verification/Tcp_Send.thy ===== *)
theory Tcp_Send
  imports Tcp_Wire
begin

unbundle bit_operations_syntax

section \<open>Sending data (the sending half of tcp/transport/data.go and flowcontrol.go)\<close>

text \<open>
  The two timers of the sender, \<open>flushSend\<close> with its loop, the zero-window probe and the
  override of the silly-window rule, and the user calls \<open>Send\<close>, \<open>SetNoDelay\<close> and
  \<open>SetRcvBuffer\<close>. The loop of \<open>flushSend\<close> is \<open>flushLoop\<close>; its termination proof is the
  argument that the code relies on: each turn moves SND.NXT by at least one byte, and never
  past SND.UNA + cwnd.
\<close>

subsection \<open>The persist and override timers\<close>

definition disarmOverride :: "Conn \<Rightarrow> Conn" where
  "disarmOverride c = c\<lparr>overrideArmed := False\<rparr>"

definition armOverride :: "Conn \<Rightarrow> Conn" where
  "armOverride c =
     (if overrideArmed c then c
      else tick (c\<lparr>overrideArmed := True, overrideDeadline := now c + overrideTimeout\<rparr>))"

definition persistInterval :: "nat \<Rightarrow> duration" where
  "persistInterval n =
     (let d = wrap64 (persistInitial * 2 ^ n)
      in if d > persistMax \<or> d \<le> 0 then persistMax else d)"

definition armPersist :: "Conn \<Rightarrow> Conn" where
  "armPersist c =
     (let c = disarmOverride c in
      if persistArmed c then c
      else tick (c\<lparr>persistArmed := True,
                  persistDeadline := now c + persistInterval (persistBackoff c)\<rparr>))"

definition disarmPersist :: "Conn \<Rightarrow> Conn" where
  "disarmPersist c = c\<lparr>persistArmed := False, persistBackoff := 0\<rparr>"

subsection \<open>flushSend\<close>

definition inflight :: "Conn \<Rightarrow> nat" where
  "inflight c = unat (snd_nxt c - snd_una c)"

definition sendUsable :: "Conn \<Rightarrow> u32" where
  "sendUsable c =
     (let usable = snd_una c + snd_wnd c - snd_nxt c;
          usable = (if SeqGT (snd_nxt c) (snd_una c + snd_wnd c) then 0 else usable);
          flight = snd_nxt c - snd_una c;
          cwndRoom = (if cwnd (cong c) > flight then cwnd (cong c) - flight else 0)
      in if cwndRoom < usable then cwndRoom else usable)"

definition segmentSize :: "u32 \<Rightarrow> u32 \<Rightarrow> u32" where
  "segmentSize d usable =
     (let n = d;
          n = (if n > usable then usable else n);
          n = (if n > defaultMSS then defaultMSS else n)
      in n)"

definition emitSegment :: "Conn \<Rightarrow> nat \<Rightarrow> u32 \<Rightarrow> u32 \<Rightarrow> Conn" where
  "emitSegment c off d usable =
     (let n = segmentSize d usable;
          payload = take (unat n) (drop off (sndBuf c));
          c = sendData c (FlagPSH OR FlagACK) (snd_nxt c) (rcv_nxt c) payload
      in disarmOverride (c\<lparr>snd_nxt := snd_nxt c + n\<rparr>))"

lemma emitSegment_sendOnly: "sendOnly c (emitSegment c off d u)"
  by (simp add: sendOnly_def emitSegment_def disarmOverride_def Let_def)

lemmas emitSegment_frame [simp, frame] = sendOnlyD [OF emitSegment_sendOnly]

lemma snd_nxt_emitSegment [simp, frame]:
  "snd_nxt (emitSegment c off d u) = snd_nxt c + segmentSize d u"
  by (simp add: emitSegment_def disarmOverride_def Let_def)

lemma unat_segmentSize: "unat (segmentSize d u) = min (min (unat d) (unat u)) 1360"
  by (auto simp: segmentSize_def Let_def defaultMSS_def word_less_nat_alt)

lemma sendUsable_room:
  "unat (sendUsable c) \<le> unat (cwnd (cong c)) - inflight c"
proof (cases "cwnd (cong c) > snd_nxt c - snd_una c")
  case True
  then have "unat (cwnd (cong c) - (snd_nxt c - snd_una c)) = unat (cwnd (cong c)) - inflight c"
    unfolding inflight_def by (intro unat_sub) simp
  with True show ?thesis by (auto simp: sendUsable_def Let_def word_less_nat_alt word_le_nat_alt)
next
  case False
  then show ?thesis by (auto simp: sendUsable_def Let_def word_less_nat_alt)
qed

text \<open>
  Within a window of less than half the sequence space the usable window is the classic one:
  the smaller of what the peer's window and the congestion window leave beyond the flight.
\<close>

lemma sendUsable_min:
  assumes "unat (snd_wnd c) < 2147483648" "inflight c < 2147483648"
  shows "unat (sendUsable c) =
    min (unat (snd_wnd c) - inflight c) (unat (cwnd (cong c)) - inflight c)"
proof -
  let ?w = "snd_una c + snd_wnd c"
  have nxt: "snd_nxt c = snd_una c + of_nat (inflight c)"
    by (simp add: inflight_def)
  have w: "?w = snd_una c + of_nat (unat (snd_wnd c))" by simp
  have gt: "SeqGT (snd_nxt c) ?w \<longleftrightarrow> unat (snd_wnd c) < inflight c"
    unfolding SeqGT_def nxt w using assms by (intro SeqLT_pos) linarith+
  have us: "unat (?w - snd_nxt c) = unat (snd_wnd c) - inflight c" if "inflight c \<le> unat (snd_wnd c)"
    using dist_pos [OF that, of "snd_una c"] assms unfolding dist_def nxt w by simp
  have room: "unat (cwnd (cong c) - (snd_nxt c - snd_una c)) = unat (cwnd (cong c)) - inflight c"
    if "snd_nxt c - snd_una c < cwnd (cong c)"
    unfolding inflight_def using that by (intro unat_sub) simp
  show ?thesis
    using gt us room
    by (auto simp: sendUsable_def Let_def word_less_nat_alt inflight_def min_def not_less)
qed

lemma inflight_emitSegment:
  assumes "unat (segmentSize d (sendUsable c)) \<noteq> 0"
  shows "inflight (emitSegment c off d (sendUsable c)) =
      inflight c + unat (segmentSize d (sendUsable c))"
    "inflight c + unat (segmentSize d (sendUsable c)) \<le> unat (cwnd (cong c))"
proof -
  let ?n = "segmentSize d (sendUsable c)"
  show le: "inflight c + unat ?n \<le> unat (cwnd (cong c))"
    using sendUsable_room [of c] assms unat_segmentSize [of d "sendUsable c"] by linarith
  have "snd_nxt c + ?n - snd_una c = (snd_nxt c - snd_una c) + ?n" by simp
  then have "inflight (emitSegment c off d (sendUsable c)) = (inflight c + unat ?n) mod 4294967296"
    by (simp only: inflight_def snd_nxt_emitSegment emitSegment_frame unat_u32_add)
  then show "inflight (emitSegment c off d (sendUsable c)) = inflight c + unat ?n"
    using le unat_u32_less [of "cwnd (cong c)"] by simp
qed

lemma canSend_segmentSize:
  "canSend d u m mw idle nd \<Longrightarrow> unat (segmentSize d u) \<noteq> 0"
  using canSend_nonzero [of d u m mw idle nd]
  by (auto simp: unat_segmentSize minU32_def word_less_nat_alt unat_gt_0 split: if_splits)

text \<open>
  \<open>idle\<close> is fixed before the loop, as in the code.
\<close>

function (domintros) flushLoop :: "bool \<Rightarrow> Conn \<Rightarrow> Conn" where
  "flushLoop idle c =
     (let off = inflight c in
      if off \<ge> length (sndBuf c) then disarmPersist (disarmOverride c)
      else
        (let d = of_nat (length (sndBuf c) - off) in
         if snd_wnd c = 0 then armPersist c
         else
           (let usable = sendUsable c in
            if \<not> canSend d usable (effSndMSS c) (maxSndWnd c) idle (nagleDisabled c)
            then armOverride c
            else flushLoop idle (emitSegment c off d usable))))"
  by pat_completeness auto
termination
proof (relation "measure (\<lambda>(idle, c). 4294967296 - inflight c)")
  fix idle c off d usable
  assume h: "off = inflight c" "\<not> length (sndBuf c) \<le> off"
    "d = of_nat (length (sndBuf c) - off)" "snd_wnd c \<noteq> 0" "usable = sendUsable c"
    "\<not> \<not> canSend d usable (effSndMSS c) (maxSndWnd c) idle (nagleDisabled c)"
  then have n: "unat (segmentSize d (sendUsable c)) \<noteq> 0" by (auto dest: canSend_segmentSize)
  from inflight_emitSegment(1) [OF n, of off] inflight_emitSegment(2) [OF n] n h unat_u32_less [of "cwnd (cong c)"]
  show "((idle, emitSegment c off d usable), idle, c) \<in> measure (\<lambda>(idle, c). 4294967296 - inflight c)"
    by (simp add: h(5))
qed simp

definition flushSend :: "Conn \<Rightarrow> Conn" where
  "flushSend c = flushLoop (snd_nxt c = snd_una c) c"

subsection \<open>Probe and override\<close>

definition probePersist :: "Conn \<Rightarrow> Conn" where
  "probePersist c =
     (let off = inflight c in
      if off \<ge> length (sndBuf c) \<or> snd_wnd c \<noteq> 0 then c
      else
        (let payload = [sndBuf c ! off];
             c = sendData c (FlagPSH OR FlagACK) (snd_nxt c) (rcv_nxt c) payload;
             c = c\<lparr>snd_nxt := snd_nxt c + 1\<rparr>;
             c = c\<lparr>persistBackoff := persistBackoff c + 1\<rparr>
         in tick (c\<lparr>persistDeadline := now c + persistInterval (persistBackoff c)\<rparr>)))"

definition fireOverride :: "Conn \<Rightarrow> Conn" where
  "fireOverride c =
     (let off = inflight c in
      if off \<ge> length (sndBuf c) then disarmOverride c
      else
        (let usable = sendUsable c in
         if usable = 0 then disarmOverride c
         else emitSegment c off (of_nat (length (sndBuf c) - off)) usable))"

subsection \<open>Acknowledged data and the user calls\<close>

definition releaseAckedSend :: "Conn \<Rightarrow> u32 \<Rightarrow> Conn" where
  "releaseAckedSend c oldUna =
     (let acked = unat (snd_una c - oldUna) in
      if acked \<le> 0 then c
      else
        (let acked = (if acked > length (sndBuf c) then length (sndBuf c) else acked)
         in c\<lparr>sndBuf := drop acked (sndBuf c)\<rparr>))"

datatype sendError = ErrNotEstablished | ErrConnClosed

definition Send :: "Conn \<Rightarrow> byte list \<Rightarrow> (sendError + nat) \<times> Conn" where
  "Send c data =
     (if state c \<in> {Established, CloseWait}
      then (Inr (length data), flushSend (c\<lparr>sndBuf := sndBuf c @ data\<rparr>))
      else if state c = Closed then (Inl ErrConnClosed, c)
      else if state c \<in> {FinWait1, FinWait2, Closing, LastAck, TimeWait}
      then (Inl ErrConnClosed, c)
      else (Inl ErrNotEstablished, c))"

definition SetNoDelay :: "Conn \<Rightarrow> bool \<Rightarrow> Conn" where
  "SetNoDelay c disable = c\<lparr>nagleDisabled := disable\<rparr>"

definition SetRcvBuffer :: "Conn \<Rightarrow> u32 \<Rightarrow> Conn" where
  "SetRcvBuffer c n =
     (let c = c\<lparr>rcvBuffTotal := n\<rparr>
      in if rcv_wnd c > n then c\<lparr>rcv_wnd := n\<rparr> else c)"

subsection \<open>Frames\<close>

lemma timers_sendOnly:
  "sendOnly c (disarmOverride c)" "sendOnly c (armOverride c)" "sendOnly c (armPersist c)"
  "sendOnly c (disarmPersist c)"
  by (simp_all add: sendOnly_def disarmOverride_def armOverride_def armPersist_def
      disarmPersist_def Let_def)

lemmas disarmOverride_frame [simp, frame] = sendOnlyD [OF timers_sendOnly(1)]
lemmas armOverride_frame [simp, frame] = sendOnlyD [OF timers_sendOnly(2)]
lemmas armPersist_frame [simp, frame] = sendOnlyD [OF timers_sendOnly(3)]
lemmas disarmPersist_frame [simp, frame] = sendOnlyD [OF timers_sendOnly(4)]

lemma timers_fields [simp, frame]:
  "snd_nxt (disarmOverride c) = snd_nxt c" "snd_nxt (armOverride c) = snd_nxt c"
  "snd_nxt (armPersist c) = snd_nxt c" "snd_nxt (disarmPersist c) = snd_nxt c"
  "retxQueue (disarmOverride c) = retxQueue c" "retxQueue (armOverride c) = retxQueue c"
  "retxQueue (armPersist c) = retxQueue c" "retxQueue (disarmPersist c) = retxQueue c"
  "outp (disarmOverride c) = outp c" "outp (armOverride c) = outp c"
  "outp (armPersist c) = outp c" "outp (disarmPersist c) = outp c"
  "lastAckSent (disarmOverride c) = lastAckSent c" "lastAckSent (armOverride c) = lastAckSent c"
  "lastAckSent (armPersist c) = lastAckSent c" "lastAckSent (disarmPersist c) = lastAckSent c"
  "delAckArmed (disarmOverride c) = delAckArmed c" "delAckArmed (armOverride c) = delAckArmed c"
  "delAckArmed (armPersist c) = delAckArmed c" "delAckArmed (disarmPersist c) = delAckArmed c"
  "delAckCount (disarmOverride c) = delAckCount c" "delAckCount (armOverride c) = delAckCount c"
  "delAckCount (armPersist c) = delAckCount c" "delAckCount (disarmPersist c) = delAckCount c"
  "challengeCount (disarmOverride c) = challengeCount c"
  "challengeCount (armOverride c) = challengeCount c"
  "challengeCount (armPersist c) = challengeCount c"
  "challengeCount (disarmPersist c) = challengeCount c"
  by (simp_all add: disarmOverride_def armOverride_def armPersist_def disarmPersist_def Let_def)

lemma emitSegment_fields [simp, frame]:
  "challengeCount (emitSegment c off d u) = challengeCount c"
  "delAckArmed (emitSegment c off d u) = delAckArmed c"
  "delAckCount (emitSegment c off d u) = delAckCount c"
  by (simp_all add: emitSegment_def Let_def)

text \<open>One unfolding of the loop as a case distinction, for the induction proofs.\<close>

lemma flushLoop_cases:
  obtains
    "flushLoop idle c = disarmPersist (disarmOverride c)" "length (sndBuf c) \<le> inflight c"
  | "flushLoop idle c = armPersist c" "inflight c < length (sndBuf c)" "snd_wnd c = 0"
  | "flushLoop idle c = armOverride c" "inflight c < length (sndBuf c)" "snd_wnd c \<noteq> 0"
    "\<not> canSend (of_nat (length (sndBuf c) - inflight c)) (sendUsable c) (effSndMSS c)
       (maxSndWnd c) idle (nagleDisabled c)"
  | d where "d = of_nat (length (sndBuf c) - inflight c)"
    "flushLoop idle c = flushLoop idle (emitSegment c (inflight c) d (sendUsable c))"
    "inflight c < length (sndBuf c)" "snd_wnd c \<noteq> 0"
    "canSend d (sendUsable c) (effSndMSS c) (maxSndWnd c) idle (nagleDisabled c)"
proof -
  note eq = flushLoop.simps [of idle c, unfolded Let_def]
  consider "length (sndBuf c) \<le> inflight c"
    | "inflight c < length (sndBuf c)" "snd_wnd c = 0"
    | "inflight c < length (sndBuf c)" "snd_wnd c \<noteq> 0"
      "\<not> canSend (of_nat (length (sndBuf c) - inflight c)) (sendUsable c) (effSndMSS c)
         (maxSndWnd c) idle (nagleDisabled c)"
    | "inflight c < length (sndBuf c)" "snd_wnd c \<noteq> 0"
      "canSend (of_nat (length (sndBuf c) - inflight c)) (sendUsable c) (effSndMSS c)
         (maxSndWnd c) idle (nagleDisabled c)"
    by linarith
  then show ?thesis
  proof cases
    case 1
    show ?thesis by (rule that(1)) (subst eq, use 1 in simp_all)
  next
    case 2
    show ?thesis by (rule that(2)) (subst eq, use 2 in simp_all)
  next
    case 3
    show ?thesis by (rule that(3)) (subst eq, use 3 in simp_all)
  next
    case 4
    show ?thesis by (rule that(4) [OF refl]) (subst eq, use 4 in simp_all)
  qed
qed

text \<open>
  The induction the proofs about the loop share: a reflexive and transitive relation that
  holds across each way to stop and across each segment holds across the loop.
\<close>

lemma flushLoop_rel:
  assumes trans: "\<And>a b d. R a b \<Longrightarrow> R b d \<Longrightarrow> R a d"
    and stop: "\<And>c. R c (disarmPersist (disarmOverride c))" "\<And>c. R c (armPersist c)"
      "\<And>c. R c (armOverride c)"
    and emit: "\<And>c d. inflight c < length (sndBuf c) \<Longrightarrow> snd_wnd c \<noteq> 0 \<Longrightarrow>
      d = of_nat (length (sndBuf c) - inflight c) \<Longrightarrow> unat (segmentSize d (sendUsable c)) \<noteq> 0 \<Longrightarrow>
      R c (emitSegment c (inflight c) d (sendUsable c))"
  shows "R c (flushLoop idle c)"
proof (induction idle c rule: flushLoop.induct)
  case (1 idle c)
  show ?case
  proof (cases rule: flushLoop_cases [of idle c])
    case (4 d)
    have n: "unat (segmentSize d (sendUsable c)) \<noteq> 0" using 4(5) by (rule canSend_segmentSize)
    have "R (emitSegment c (inflight c) d (sendUsable c))
        (flushLoop idle (emitSegment c (inflight c) d (sendUsable c)))"
      using "1.IH" [OF refl _ 4(1) _ refl] 4 by simp
    then show ?thesis
      unfolding 4(2) using trans [OF emit [OF 4(3,4,1) n]] by blast
  qed (simp_all add: stop)
qed

lemma flushSend_rel:
  assumes "\<And>a b d. R a b \<Longrightarrow> R b d \<Longrightarrow> R a d"
    and "\<And>c. R c (disarmPersist (disarmOverride c))" "\<And>c. R c (armPersist c)"
      "\<And>c. R c (armOverride c)"
    and "\<And>c d. inflight c < length (sndBuf c) \<Longrightarrow> snd_wnd c \<noteq> 0 \<Longrightarrow>
      d = of_nat (length (sndBuf c) - inflight c) \<Longrightarrow> unat (segmentSize d (sendUsable c)) \<noteq> 0 \<Longrightarrow>
      R c (emitSegment c (inflight c) d (sendUsable c))"
  shows "R c (flushSend c)"
  unfolding flushSend_def by (rule flushLoop_rel [of R]) (use assms in blast)+

lemma flushSend_sendOnly: "sendOnly c (flushSend c)"
proof (rule flushSend_rel [of sendOnly])
  show "\<And>a b d. sendOnly a b \<Longrightarrow> sendOnly b d \<Longrightarrow> sendOnly a d" by (rule sendOnly_trans)
qed (auto intro: timers_sendOnly emitSegment_sendOnly
    sendOnly_trans [OF timers_sendOnly(1) timers_sendOnly(4)])

lemmas flushSend_frame [simp, frame] = sendOnlyD [OF flushSend_sendOnly]

lemma flushSend_fields [simp, frame]:
  "challengeCount (flushSend c) = challengeCount c" "delAckArmed (flushSend c) = delAckArmed c"
  "delAckCount (flushSend c) = delAckCount c"
  using flushSend_rel [of "\<lambda>c d. challengeCount d = challengeCount c \<and>
    delAckArmed d = delAckArmed c \<and> delAckCount d = delAckCount c" c] by simp_all

lemma probePersist_sendOnly: "sendOnly c (probePersist c)"
  by (simp add: sendOnly_def probePersist_def Let_def)

lemmas probePersist_frame [simp, frame] = sendOnlyD [OF probePersist_sendOnly]

lemma fireOverride_sendOnly: "sendOnly c (fireOverride c)"
  by (simp add: fireOverride_def Let_def timers_sendOnly emitSegment_sendOnly)

lemmas fireOverride_frame [simp, frame] = sendOnlyD [OF fireOverride_sendOnly]

subsection \<open>The persist interval and the limit of a flush\<close>

lemma persistInterval_eq: "persistInterval n = min (60 * second) (2 ^ n * second)"
proof (cases "n < 27")
  case True
  then have "(2::int) ^ n \<le> 2 ^ 26" by (intro power_increasing) auto
  moreover have p: "(0::int) < 2 ^ n" by simp
  ultimately have "0 \<le> second * 2 ^ n" "second * 2 ^ n < 2 ^ 63"
    by (simp_all add: second_def)
  then have "- (2 ^ 63) \<le> second * 2 ^ n" "second * 2 ^ n < 2 ^ 63" by simp_all
  then have "wrap64 (second * 2 ^ n) = second * 2 ^ n" by (rule wrap64_id)
  moreover note p
  ultimately show ?thesis
    by (simp add: persistInterval_def persistInitial_def persistMax_def Let_def second_def mult.commute)
next
  case False
  let ?d = "wrap64 (second * 2 ^ n)"
  have "(2::int) ^ 36 dvd 2 ^ (n + 9)" using False by (intro le_imp_power_dvd) simp
  moreover have "second * 2 ^ n = 1953125 * 2 ^ (n + 9)" by (simp add: second_def power_add)
  ultimately have "(2::int) ^ 36 dvd second * 2 ^ n + 2 ^ 63" by (auto intro!: dvd_add dvd_mult le_imp_power_dvd)
  then have "(2::int) ^ 36 dvd (second * 2 ^ n + 2 ^ 63) mod 2 ^ 64"
    by (intro dvd_mod) (auto intro: le_imp_power_dvd)
  then have dv: "(2::int) ^ 36 dvd ?d" unfolding wrap64_def by (intro dvd_diff) (auto intro: le_imp_power_dvd)
  have "?d > 60 * second \<or> ?d \<le> 0"
  proof (rule ccontr)
    assume "\<not> ?thesis"
    then have "0 < ?d" "?d \<le> 60000000000" by (simp_all add: second_def)
    with zdvd_imp_le [OF dv] show False by simp
  qed
  then have l: "persistInterval n = 60 * second"
    by (auto simp: persistInterval_def persistInitial_def persistMax_def Let_def)
  have "(2::int) ^ 6 \<le> 2 ^ n" using False by (intro power_increasing) auto
  then show ?thesis unfolding l by (simp add: second_def)
qed

lemma emit_limit:
  assumes n: "unat (segmentSize d (sendUsable c)) \<noteq> 0"
    and w: "unat (snd_wnd c) < 2147483648" "inflight c < 2147483648"
  shows "inflight (emitSegment c off d (sendUsable c)) \<le> min (unat (snd_wnd c)) (unat (cwnd (cong c)))"
  using sendUsable_min [OF w] inflight_emitSegment(1) [OF n, of off] unat_segmentSize [of d "sendUsable c"] n
  by linarith

lemma flushSend_limit:
  assumes "unat (snd_wnd c) < 2147483648" "inflight c < 2147483648"
  shows "inflight (flushSend c) \<le> max (inflight c) (min (unat (snd_wnd c)) (unat (cwnd (cong c))))"
proof -
  define R where "R = (\<lambda>c d :: Conn. snd_wnd d = snd_wnd c \<and> cong d = cong c \<and>
    (unat (snd_wnd c) < 2147483648 \<and> inflight c < 2147483648 \<longrightarrow>
     inflight d \<le> max (inflight c) (min (unat (snd_wnd c)) (unat (cwnd (cong c))))))"
  have "R c (flushSend c)"
  proof (rule flushSend_rel [of R])
    fix a b d assume "R a b" "R b d"
    then have e: "snd_wnd b = snd_wnd a" "cong b = cong a" "snd_wnd d = snd_wnd b" "cong d = cong b"
      by (simp_all add: R_def)
    have "inflight d \<le> max (inflight a) (min (unat (snd_wnd a)) (unat (cwnd (cong a))))"
      if h: "unat (snd_wnd a) < 2147483648" "inflight a < 2147483648"
    proof -
      have b: "inflight b \<le> max (inflight a) (min (unat (snd_wnd a)) (unat (cwnd (cong a))))"
        using \<open>R a b\<close> h unfolding R_def by blast
      then have "inflight b < 2147483648" using h by linarith
      then have "inflight d \<le> max (inflight b) (min (unat (snd_wnd b)) (unat (cwnd (cong b))))"
        using \<open>R b d\<close> h e unfolding R_def by metis
      then show ?thesis using b unfolding e by linarith
    qed
    then show "R a d" using e by (simp add: R_def)
  next
    fix c d assume "unat (segmentSize d (sendUsable c)) \<noteq> 0"
    from emit_limit [OF this, of "inflight c"]
    show "R c (emitSegment c (inflight c) d (sendUsable c))" by (auto simp: R_def)
  qed (simp_all add: R_def inflight_def)
  then show ?thesis using assms by (simp add: R_def)
qed

subsection \<open>No unsent data without a running timer\<close>

text \<open>How the loop leaves the connection: everything sent, or the timer armed that goes on.\<close>

definition settled :: "bool \<Rightarrow> Conn \<Rightarrow> bool" where
  "settled idle d \<longleftrightarrow>
     (if length (sndBuf d) \<le> inflight d then \<not> persistArmed d \<and> \<not> overrideArmed d
      else if snd_wnd d = 0 then persistArmed d \<and> \<not> overrideArmed d
      else overrideArmed d \<and>
        \<not> canSend (of_nat (length (sndBuf d) - inflight d)) (sendUsable d) (effSndMSS d)
            (maxSndWnd d) idle (nagleDisabled d))"

lemma stop_reads:
  "inflight (disarmPersist (disarmOverride c)) = inflight c"
  "inflight (armPersist c) = inflight c" "inflight (armOverride c) = inflight c"
  "sendUsable (armOverride c) = sendUsable c" "effSndMSS (armOverride c) = effSndMSS c"
  "persistArmed (armPersist c)" "\<not> overrideArmed (armPersist c)" "overrideArmed (armOverride c)"
  "\<not> persistArmed (disarmPersist (disarmOverride c))"
  "\<not> overrideArmed (disarmPersist (disarmOverride c))"
  by (simp_all add: inflight_def armPersist_def armOverride_def disarmPersist_def disarmOverride_def
      sendUsable_def effSndMSS_def tick_def Let_def)

lemma flushLoop_settled: "settled idle (flushLoop idle c)"
proof (induction idle c rule: flushLoop.induct)
  case (1 idle c)
  show ?case
  proof (cases rule: flushLoop_cases [of idle c])
    case 1
    then show ?thesis unfolding settled_def by (simp add: stop_reads)
  next
    case 2
    then show ?thesis unfolding settled_def by (simp add: stop_reads)
  next
    case 3
    have "settled idle (armOverride c)"
      unfolding settled_def stop_reads timers_sendOnly armOverride_frame
      using 3(2-4) stop_reads by simp
    then show ?thesis using 3(1) by simp
  next
    case (4 d)
    then show ?thesis using "1.IH" [OF refl _ 4(1) _ refl] by simp
  qed
qed

section \<open>Properties\<close>

text \<open>
  C20: a flush respects both windows. After \<open>flushSend\<close> the bytes in flight are
  at most the smaller of the peer's window and the congestion window, unless they already
  were more before.
\<close>

theorem flush_respects_windows:
  assumes "unat (snd_wnd c) < 2147483648" "inflight c < 2147483648"
  shows "inflight (flushSend c) \<le> max (inflight c) (min (unat (snd_wnd c)) (unat (cwnd (cong c))))"
  by (rule flushSend_limit [OF assms])

theorem flush_respects_windows_witness:
  "inflight (flushSend (demoConn\<lparr>snd_wnd := 3, sndBuf := [1, 2, 3, 4, 5]\<rparr>)) \<le> 3"
  using flush_respects_windows [of "demoConn\<lparr>snd_wnd := 3, sndBuf := [1, 2, 3, 4, 5]\<rparr>"]
  by (simp add: demoConn_def NewConn_def inflight_def)

text \<open>
  C21: no data gets stuck. \<open>flushSend\<close> returns for every state, and leaves
  either nothing unsent and both timers off, or a zero window and the persist timer running,
  or data that \<open>canSend\<close> holds back and the override timer running.
\<close>

theorem flush_leaves_no_data_stuck:
  "let d = flushSend c in
     if length (sndBuf d) \<le> inflight d then \<not> persistArmed d \<and> \<not> overrideArmed d
     else if snd_wnd d = 0 then persistArmed d \<and> \<not> overrideArmed d
     else overrideArmed d \<and>
       \<not> canSend (of_nat (length (sndBuf d) - inflight d)) (sendUsable d) (effSndMSS d)
           (maxSndWnd d) (snd_nxt c = snd_una c) (nagleDisabled d)"
  using flushLoop_settled [of "snd_nxt c = snd_una c" c]
  unfolding settled_def flushSend_def Let_def .

end
