(* ===== verification/Tcp_Timers.thy ===== *)
theory Tcp_Timers
  imports Tcp_Send Tcp_Recv
begin

unbundle bit_operations_syntax

section \<open>Timers (the timer half of statemachine.go, flowcontrol.go and keepalive.go)\<close>

text \<open>
  \<open>Tick\<close> and what it drives: the retransmission queue with its RTT samples and back-off, the
  persist, override and delayed-ACK timers, keep-alive, and the 2MSL timer.
\<close>

subsection \<open>RTT samples\<close>

definition sampleRTT :: "Conn \<Rightarrow> time \<Rightarrow> Conn" where
  "sampleRTT c sentAt =
     (let r = milliseconds (timeSub (now c) sentAt);
          c = tick c;
          r = (if r < 1 then 1 else r);
          rms = word_of_int r
      in if \<not> rttValid c then c\<lparr>rtt := initEst rms clockGranMS, rttValid := True\<rparr>
         else c\<lparr>rtt := UpdateEst (rtt c) rms\<rparr>)"

definition sampleRTTFromTimestamp :: "Conn \<Rightarrow> u32 \<Rightarrow> Conn" where
  "sampleRTTFromTimestamp c tsecr =
     (let (t, c) = tsNow c;
          r = t - tsecr;
          r = (if r = 0 then 1 else r)
      in if \<not> rttValid c then c\<lparr>rtt := initEst r clockGranMS, rttValid := True\<rparr>
         else c\<lparr>rtt := UpdateEst (rtt c) r\<rparr>)"

subsection \<open>The retransmission queue\<close>

definition backoffRTO :: "duration \<Rightarrow> duration" where
  "backoffRTO cur =
     (let curMS = word_of_int (milliseconds cur); capMS = word_of_int (milliseconds maxRTO)
      in int (unat (backoff capMS curMS)) * millisecond)"

text \<open>
  The loop of \<^theory_text>\<open>ackRetxQueue\<close> recurses on the queue, which is the list argument; the
  Boolean is \<^theory_text>\<open>removed\<close>.
\<close>

fun ackPop :: "u32 \<Rightarrow> retxSeg list \<Rightarrow> bool \<Rightarrow> Conn \<Rightarrow> bool \<times> Conn" where
  "ackPop ack [] removed c = (removed, c)"
| "ackPop ack (s # q) removed c =
     (if \<not> SeqLEQ (rsSeq s + seqLen s) ack then (removed, c)
      else
        (let c = (if \<not> rsRetransmitted s \<and> \<not> tsOK c then sampleRTT c (rsSentAt s) else c)
         in ackPop ack q True (c\<lparr>retxQueue := q\<rparr>)))"

definition ackRetxQueue :: "Conn \<Rightarrow> u32 \<Rightarrow> Conn" where
  "ackRetxQueue c ack =
     (let (removed, c) = ackPop ack (retxQueue c) False c in
      if \<not> removed then c
      else
        (case retxQueue c of
           [] \<Rightarrow> c\<lparr>curRTO := 0\<rparr>
         | s # q \<Rightarrow>
             (let c = c\<lparr>curRTO := currentRTO c\<rparr>
              in tick (c\<lparr>retxQueue := (s\<lparr>rsSentAt := now c\<rparr>) # q\<rparr>))))"

definition checkRetransmit :: "Conn \<Rightarrow> Conn" where
  "checkRetransmit c =
     (case retxQueue c of
        [] \<Rightarrow> c
      | front # q \<Rightarrow>
          (let deadline = rsSentAt front + curRTO c;
               t = now c;
               c = tick c
           in if t < deadline then c
              else if rsRetries front \<ge> maxRetransmits
              then c\<lparr>state := Closed, retxQueue := [], curRTO := 0\<rparr>
              else
                (let flightSize = snd_nxt c - snd_una c;
                     c = c\<lparr>cong := onRtoTimeout (cong c) flightSize\<rparr>;
                     c = writeSeg c (rsFlags front) (rsSeq front) (rcv_nxt c) (rsPayload front);
                     front = front\<lparr>rsRetries := rsRetries front + 1, rsRetransmitted := True,
                                   rsSentAt := now c\<rparr>;
                     c = tick (c\<lparr>retxQueue := front # q\<rparr>)
                 in c\<lparr>curRTO := backoffRTO (curRTO c)\<rparr>)))"

definition fastRetransmit :: "Conn \<Rightarrow> Conn" where
  "fastRetransmit c =
     (case retxQueue c of
        [] \<Rightarrow> c
      | front # q \<Rightarrow>
          (let c = writeSeg c (rsFlags front) (rsSeq front) (rcv_nxt c) (rsPayload front)
           in tick (c\<lparr>retxQueue := (front\<lparr>rsRetransmitted := True, rsSentAt := now c\<rparr>) # q\<rparr>)))"

subsection \<open>Flow-control timers and keep-alive\<close>

definition checkFlowTimers :: "Conn \<Rightarrow> Conn" where
  "checkFlowTimers c =
     (let t = now c;
          c = tick c;
          c = (if persistArmed c \<and> \<not> t < persistDeadline c then probePersist c else c);
          c = (if overrideArmed c \<and> \<not> t < overrideDeadline c then fireOverride c else c);
          c = (if delAckArmed c \<and> \<not> t < delAckDeadline c then fireDelayedAck c else c)
      in c)"

definition SetKeepAlive :: "Conn \<Rightarrow> bool \<Rightarrow> duration \<Rightarrow> Conn" where
  "SetKeepAlive c enabled idle =
     (let idle = (if idle \<le> 0 then defaultKeepaliveIdle else idle)
      in tick (c\<lparr>keepaliveEnabled := enabled, keepaliveIdle := idle, lastRecvTime := now c,
                keepaliveProbes := 0\<rparr>))"

definition sendKeepAliveProbe :: "Conn \<Rightarrow> Conn" where
  "sendKeepAliveProbe c =
     (let c = writeSeg c FlagACK (snd_nxt c - 1) (rcv_nxt c) [];
          c = c\<lparr>keepaliveProbes := keepaliveProbes c + 1\<rparr>
      in tick (c\<lparr>lastRecvTime := now c\<rparr>))"

definition checkKeepAlive :: "Conn \<Rightarrow> Conn" where
  "checkKeepAlive c =
     (if \<not> keepaliveEnabled c \<or> \<not> synchronized (state c) then c
      else if snd_una c \<noteq> snd_nxt c then c
      else
        (let t = now c; c = tick c in
         if timeSub t (lastRecvTime c) < keepaliveIdle c then c
         else if keepaliveProbes c \<ge> keepaliveMaxProbes
         then c\<lparr>state := Closed, retxQueue := [], curRTO := 0\<rparr>
         else sendKeepAliveProbe c))"

subsection \<open>TIME-WAIT and Tick\<close>

definition SetMSL :: "Conn \<Rightarrow> duration \<Rightarrow> Conn" where
  "SetMSL c d = c\<lparr>timeWaitDuration := wrap64 (2 * d)\<rparr>"

definition restartTimeWait :: "Conn \<Rightarrow> Conn" where
  "restartTimeWait c = tick (c\<lparr>timeWaitDeadline := now c + timeWaitDuration c\<rparr>)"

definition enterTimeWait :: "Conn \<Rightarrow> Conn" where
  "enterTimeWait c = restartTimeWait (c\<lparr>state := TimeWait\<rparr>)"

definition checkTimeWait :: "Conn \<Rightarrow> Conn" where
  "checkTimeWait c =
     (if state c = TimeWait then
        (let t = now c; c = tick c
         in if \<not> t < timeWaitDeadline c then c\<lparr>state := Closed\<rparr> else c)
      else c)"

definition Tick :: "Conn \<Rightarrow> Conn" where
  "Tick c = checkKeepAlive (checkFlowTimers (checkRetransmit (checkTimeWait c)))"

subsection \<open>Frames\<close>

lemma sampleRTT_queueOnly: "queueOnly c (sampleRTT c t)"
  by (simp add: queueOnly_def sampleRTT_def Let_def)

lemmas sampleRTT_frame [simp, frame] = queueOnlyD [OF sampleRTT_queueOnly]

lemma sampleRTT_fields [simp, frame]:
  "retxQueue (sampleRTT c t) = retxQueue c" "curRTO (sampleRTT c t) = curRTO c"
  "rttValid (sampleRTT c t)"
  by (simp_all add: sampleRTT_def Let_def)

lemma sampleRTTFromTimestamp_queueOnly: "queueOnly c (sampleRTTFromTimestamp c t)"
  by (simp add: queueOnly_def sampleRTTFromTimestamp_def tsNow_def Let_def)

lemmas sampleRTTFromTimestamp_frame [simp, frame] = queueOnlyD [OF sampleRTTFromTimestamp_queueOnly]

lemma sampleRTTFromTimestamp_fields [simp, frame]:
  "retxQueue (sampleRTTFromTimestamp c t) = retxQueue c"
  "curRTO (sampleRTTFromTimestamp c t) = curRTO c"
  by (simp_all add: sampleRTTFromTimestamp_def tsNow_def Let_def)

lemma retxQueue_update_queueOnly: "queueOnly c (c\<lparr>retxQueue := q\<rparr>)"
  by (simp add: queueOnly_def)

lemma ackPop_queueOnly: "queueOnly c (snd (ackPop ack q r c))"
proof (induction q arbitrary: r c)
  case (Cons s q)
  let ?c = "(if \<not> rsRetransmitted s \<and> \<not> tsOK c then sampleRTT c (rsSentAt s) else c)\<lparr>retxQueue := q\<rparr>"
  have "queueOnly c ?c"
    using queueOnly_trans [OF sampleRTT_queueOnly retxQueue_update_queueOnly]
      retxQueue_update_queueOnly by simp
  then have "queueOnly c (snd (ackPop ack q True ?c))" by (rule queueOnly_trans [OF _ Cons.IH])
  then show ?case unfolding ackPop.simps Let_def by (simp only: snd_conv queueOnly_refl split: if_split) simp
qed simp

text \<open>
  What stays in the queue: the entries from the first one that the ACK does not cover.
\<close>

fun unacked :: "u32 \<Rightarrow> retxSeg list \<Rightarrow> retxSeg list" where
  "unacked ack [] = []"
| "unacked ack (s # q) = (if SeqLEQ (rsSeq s + seqLen s) ack then unacked ack q else s # q)"

lemma ackPop_queue:
  "retxQueue c = q \<Longrightarrow> retxQueue (snd (ackPop ack q r c)) = unacked ack q"
  by (induction ack q r c rule: ackPop.induct) (simp_all add: Let_def)

lemma ackPop_removed:
  "fst (ackPop ack q r c) \<longleftrightarrow> r \<or> unacked ack q \<noteq> q"
proof (induction ack q r c rule: ackPop.induct)
  case (2 ack s q removed c)
  have "length (unacked ack q) \<le> length q" by (induction q) auto
  then have "unacked ack q \<noteq> s # q" by auto
  with 2 show ?case by (simp add: Let_def)
qed simp

lemma ackRetxQueue_queueOnly: "queueOnly c (ackRetxQueue c ack)"
  using ackPop_queueOnly [of c ack "retxQueue c" False]
  by (auto simp: ackRetxQueue_def case_prod_unfold Let_def queueOnly_def split: list.splits)

lemmas ackRetxQueue_frame [simp, frame] = queueOnlyD [OF ackRetxQueue_queueOnly]

text \<open>The queue after an ACK: only the first remaining entry is stamped anew.\<close>

lemma ackRetxQueue_queue:
  "\<exists>t. retxQueue (ackRetxQueue c ack) =
     (case unacked ack (retxQueue c) of
        [] \<Rightarrow> [] | s # q \<Rightarrow> s\<lparr>rsSentAt := t\<rparr> # q)"
proof -
  have q: "retxQueue (snd (ackPop ack (retxQueue c) False c)) = unacked ack (retxQueue c)"
    by (rule ackPop_queue) simp
  show ?thesis
  proof (cases "unacked ack (retxQueue c)")
    case Nil
    then show ?thesis using q
      by (auto simp: ackRetxQueue_def case_prod_unfold Let_def)
  next
    case (Cons s r)
    show ?thesis
    proof (cases "fst (ackPop ack (retxQueue c) False c)")
      case True
      with Cons q show ?thesis
        by (auto simp: ackRetxQueue_def case_prod_unfold Let_def)
    next
      case False
      with Cons q show ?thesis
        by (intro exI [of _ "rsSentAt s"]) (simp add: ackRetxQueue_def case_prod_unfold Let_def)
    qed
  qed
qed

lemma checkRetransmit_retxOnly: "retxOnly c (checkRetransmit c)"
  by (simp add: retxOnly_def checkRetransmit_def writeSeg_def Let_def split: list.splits)

lemmas checkRetransmit_frame [simp, frame] = retxOnlyD [OF checkRetransmit_retxOnly]

lemma checkRetransmit_state: "state (checkRetransmit c) = state c \<or> state (checkRetransmit c) = Closed"
  by (simp add: checkRetransmit_def writeSeg_def Let_def split: list.splits)

lemma fastRetransmit_retxOnly: "retxOnly c (fastRetransmit c)"
  by (simp add: retxOnly_def fastRetransmit_def writeSeg_def Let_def split: list.splits)

lemmas fastRetransmit_frame [simp, frame] = retxOnlyD [OF fastRetransmit_retxOnly]

lemma fastRetransmit_fields [simp, frame]:
  "state (fastRetransmit c) = state c" "cong (fastRetransmit c) = cong c"
  "curRTO (fastRetransmit c) = curRTO c" "keepaliveProbes (fastRetransmit c) = keepaliveProbes c"
  "lastRecvTime (fastRetransmit c) = lastRecvTime c"
  by (simp_all add: fastRetransmit_def writeSeg_def Let_def split: list.splits)

lemma fireDelayedAck_outputOnly: "outputOnly c (fireDelayedAck c)"
  by (simp add: fireDelayedAck_def sendDelayedAck_def sendAck_outputOnly)

lemmas fireDelayedAck_frame [simp, frame] = outputOnlyD [OF fireDelayedAck_outputOnly]

lemma checkFlowTimers_sendOnly: "sendOnly c (checkFlowTimers c)"
  by (simp add: checkFlowTimers_def Let_def sendOnly_def)

lemmas checkFlowTimers_frame [simp, frame] = sendOnlyD [OF checkFlowTimers_sendOnly]

lemma sendKeepAliveProbe_retxOnly: "retxOnly c (sendKeepAliveProbe c)"
  by (simp add: retxOnly_def sendKeepAliveProbe_def writeSeg_def Let_def)

lemmas sendKeepAliveProbe_frame [simp, frame] = retxOnlyD [OF sendKeepAliveProbe_retxOnly]

lemma sendKeepAliveProbe_fields [simp, frame]:
  "state (sendKeepAliveProbe c) = state c" "cong (sendKeepAliveProbe c) = cong c"
  "retxQueue (sendKeepAliveProbe c) = retxQueue c" "curRTO (sendKeepAliveProbe c) = curRTO c"
  "keepaliveProbes (sendKeepAliveProbe c) = keepaliveProbes c + 1"
  by (simp_all add: sendKeepAliveProbe_def writeSeg_def Let_def)

lemma checkKeepAlive_retxOnly: "retxOnly c (checkKeepAlive c)"
  by (simp add: retxOnly_def checkKeepAlive_def Let_def)

lemmas checkKeepAlive_frame [simp, frame] = retxOnlyD [OF checkKeepAlive_retxOnly]

lemma checkKeepAlive_state: "state (checkKeepAlive c) = state c \<or> state (checkKeepAlive c) = Closed"
  by (simp add: checkKeepAlive_def Let_def)

subsection \<open>Repeated backoff\<close>

lemma backoffRTO_eq:
  assumes "0 \<le> d" "d \<le> 1000000000"
  shows "backoffRTO (d * millisecond) = min 60000 (2 * d) * millisecond"
proof -
  have m: "milliseconds (d * millisecond) = d" by (rule milliseconds_of [OF assms(1)])
  have cap: "milliseconds maxRTO = 60000" by (simp add: milliseconds_def maxRTO_def second_def)
  have u: "unat (word_of_int d :: u32) = nat d" using assms by (simp add: unat_eq_nat_uint uint_word_of_int)
  have "unat (backoff (word_of_int 60000) (word_of_int d)) = min 60000 (2 * nat d)"
    using unat_backoff [of "word_of_int d" "word_of_int 60000"] u assms by simp
  moreover have "int (min 60000 (2 * nat d)) = min 60000 (2 * d)" using assms by linarith
  ultimately have "uint (backoff (word_of_int 60000) (word_of_int d)) = min 60000 (2 * d)"
    by (metis uint_nat)
  then show ?thesis unfolding backoffRTO_def Let_def m cap by simp
qed

lemma backoffRTO_iter:
  assumes "0 \<le> d" "d \<le> 60000"
  shows "(backoffRTO ^^ n) (d * millisecond) = min 60000 (2 ^ n * d) * millisecond"
proof (induction n)
  case 0
  then show ?case using assms by simp
next
  case (Suc n)
  have "0 \<le> min 60000 (2 ^ n * d)" "min 60000 (2 ^ n * d) \<le> 1000000000" using assms by auto
  then have "(backoffRTO ^^ Suc n) (d * millisecond) = min 60000 (2 * min 60000 (2 ^ n * d)) * millisecond"
    using backoffRTO_eq Suc by simp
  also have "min 60000 (2 * min 60000 (2 ^ n * d)) = min 60000 (2 ^ Suc n * d)" by simp
  finally show ?case .
qed

subsection \<open>Bounded retries\<close>

text \<open>
  The retransmission timer and the keep-alive timer share a contract: a step taken when the timer
  is due uses up one of a bounded number of tries and leaves the state alone, or, when none is
  left, closes the connection.
\<close>

locale bounded_retry =
  fixes attempt :: "Conn \<Rightarrow> Conn" and due :: "Conn \<Rightarrow> bool" and used :: "Conn \<Rightarrow> nat" and limit :: nat
  assumes again: "due c \<Longrightarrow> used c < limit \<Longrightarrow>
      used (attempt c) = Suc (used c) \<and> state (attempt c) = state c"
    and give_up: "due c \<Longrightarrow> limit \<le> used c \<Longrightarrow> state (attempt c) = Closed"
begin

lemma survives:
  "(\<And>j. j < k \<Longrightarrow> due ((attempt ^^ j) c)) \<Longrightarrow> used c + k \<le> limit \<Longrightarrow>
     used ((attempt ^^ k) c) = used c + k \<and> state ((attempt ^^ k) c) = state c"
proof (induction k)
  case (Suc k)
  then have i: "used ((attempt ^^ k) c) = used c + k" "state ((attempt ^^ k) c) = state c"
    by simp_all
  have "due ((attempt ^^ k) c)" using Suc.prems(1) [of k] by simp
  from again [OF this] show ?case using i Suc.prems(2) by simp
qed simp

lemma closes:
  assumes "\<And>j. j \<le> k \<Longrightarrow> due ((attempt ^^ j) c)" "used c + k = limit"
  shows "state ((attempt ^^ Suc k) c) = Closed"
proof -
  have "used ((attempt ^^ k) c) = limit" using survives [of k c] assms by simp
  moreover have "due ((attempt ^^ k) c)" using assms(1) by simp
  ultimately show ?thesis using give_up [of "(attempt ^^ k) c"] by simp
qed

end

definition retxDue :: "Conn \<Rightarrow> bool" where
  "retxDue c = (case retxQueue c of [] \<Rightarrow> False | s # q \<Rightarrow> rsSentAt s + curRTO c \<le> now c)"

definition retxUsed :: "Conn \<Rightarrow> nat" where
  "retxUsed c = (case retxQueue c of [] \<Rightarrow> 0 | s # q \<Rightarrow> rsRetries s)"

definition keepDue :: "Conn \<Rightarrow> bool" where
  "keepDue c \<longleftrightarrow> keepaliveEnabled c \<and> synchronized (state c) \<and> snd_una c = snd_nxt c \<and>
     keepaliveIdle c \<le> timeSub (now c) (lastRecvTime c)"

interpretation retx: bounded_retry checkRetransmit retxDue retxUsed maxRetransmits
  by unfold_locales
    (auto simp: retxDue_def retxUsed_def checkRetransmit_def writeSeg_def Let_def split: list.splits)

interpretation keep: bounded_retry checkKeepAlive keepDue keepaliveProbes keepaliveMaxProbes
  by unfold_locales (auto simp: keepDue_def checkKeepAlive_def Let_def)

lemma checkRetransmit_due:
  assumes "retxDue c" "retxUsed c < maxRetransmits"
  shows "\<exists>s q t. retxQueue c = s # q \<and>
    retxQueue (checkRetransmit c) = s\<lparr>rsRetries := Suc (rsRetries s), rsRetransmitted := True, rsSentAt := t\<rparr> # q \<and>
    curRTO (checkRetransmit c) = backoffRTO (curRTO c) \<and>
    cong (checkRetransmit c) = onRtoTimeout (cong c) (snd_nxt c - snd_una c)"
  using assms
  by (auto simp: retxDue_def retxUsed_def checkRetransmit_def writeSeg_def Let_def split: list.splits)

lemma retx_rto:
  "(\<And>j. j < k \<Longrightarrow> retxDue ((checkRetransmit ^^ j) c)) \<Longrightarrow> retxUsed c + k \<le> maxRetransmits \<Longrightarrow>
     curRTO ((checkRetransmit ^^ k) c) = (backoffRTO ^^ k) (curRTO c)"
proof (induction k)
  case (Suc k)
  have "retxUsed ((checkRetransmit ^^ k) c) = retxUsed c + k"
    using retx.survives [of k c] Suc.prems by simp
  then show ?case
    using checkRetransmit_due [of "(checkRetransmit ^^ k) c"] Suc by auto
qed simp


subsection \<open>TIME-WAIT ends when it should\<close>

lemma Tick_timeWait:
  assumes "state c = TimeWait" "retxQueue c = []" "\<not> keepaliveEnabled c"
  shows "state (Tick c) = (if now c < timeWaitDeadline c then TimeWait else Closed)"
    "timeWaitDeadline (Tick c) = timeWaitDeadline c"
proof -
  let ?t = "checkTimeWait c"
  have t: "retxQueue ?t = []" "\<not> keepaliveEnabled ?t" "timeWaitDeadline ?t = timeWaitDeadline c"
    "state ?t = (if now c < timeWaitDeadline c then TimeWait else Closed)"
    using assms by (simp_all add: checkTimeWait_def Let_def)
  have "checkRetransmit ?t = ?t" using t by (simp add: checkRetransmit_def)
  moreover have "checkKeepAlive (checkFlowTimers ?t) = checkFlowTimers ?t"
    using t by (simp add: checkKeepAlive_def)
  ultimately have "Tick c = checkFlowTimers ?t" by (simp add: Tick_def)
  then show "state (Tick c) = (if now c < timeWaitDeadline c then TimeWait else Closed)"
    "timeWaitDeadline (Tick c) = timeWaitDeadline c" using t by simp_all
qed

subsection \<open>Slow clocks keep a timer due\<close>

text \<open>
  When the clock advances by at least \<open>d\<close> between any two of its readings, a timer whose
  interval stays within \<open>d\<close> is due again at every call.
\<close>

definition slowClock :: "duration \<Rightarrow> Conn \<Rightarrow> bool" where
  "slowClock d c \<longleftrightarrow> (\<forall>n. clk c n + d \<le> clk c (Suc n))"

lemma backoffRTO_le: "backoffRTO cur \<le> maxRTO"
proof -
  have cap: "milliseconds maxRTO = 60000" by (simp add: milliseconds_def maxRTO_def second_def)
  have "unat (backoff (word_of_int 60000) x) \<le> 60000" for x
    by (simp add: backoff_def unat_minU32)
  then have "int (unat (backoff (word_of_int 60000) x)) \<le> 60000" for x
    using of_nat_mono by fastforce
  then have "int (unat (backoff (word_of_int (milliseconds maxRTO)) x)) \<le> 60000" for x
    unfolding cap .
  then show ?thesis by (simp add: backoffRTO_def maxRTO_def second_def millisecond_def Let_def)
qed

lemma checkRetransmit_due_again:
  assumes "slowClock maxRTO c" "retxDue c" "retxUsed c < maxRetransmits"
  shows "retxDue (checkRetransmit c)"
proof -
  have "clk c n + backoffRTO x \<le> clk c (Suc n)" for n x
    using assms(1) backoffRTO_le [of x] by (smt (verit) slowClock_def)
  with assms(2,3) show ?thesis
    by (auto simp: retxDue_def retxUsed_def checkRetransmit_def writeSeg_def now_def tick_def Let_def
        split: list.splits)
qed

lemma retxDue_iter:
  "slowClock maxRTO c \<Longrightarrow> retxDue c \<Longrightarrow> retxUsed c + k \<le> maxRetransmits \<Longrightarrow>
     j \<le> k \<Longrightarrow> retxDue ((checkRetransmit ^^ j) c)"
proof (induction k arbitrary: j)
  case (Suc k)
  then have d: "retxDue ((checkRetransmit ^^ i) c)" if "i \<le> k" for i using that by simp
  have u: "retxUsed ((checkRetransmit ^^ k) c) = retxUsed c + k"
    using retx.survives [of k c] Suc.prems(3) d by simp
  have "clk ((checkRetransmit ^^ k) c) = clk c" by (induction k) simp_all
  then have "retxDue (checkRetransmit ((checkRetransmit ^^ k) c))"
    using checkRetransmit_due_again [of "(checkRetransmit ^^ k) c"] d [of k] u Suc.prems(1,3)
    by (simp add: slowClock_def)
  with d show ?case using Suc.prems(4) by (cases "j = Suc k") simp_all
qed simp

lemma checkKeepAlive_due_again:
  assumes "slowClock (keepaliveIdle c) c" "keepaliveIdle c \<le> maxDuration" "keepDue c"
    "keepaliveProbes c < keepaliveMaxProbes"
  shows "keepDue (checkKeepAlive c) \<and> keepaliveIdle (checkKeepAlive c) = keepaliveIdle c"
proof -
  have "keepaliveIdle c \<le> timeSub (clk c (Suc n)) (clk c n)" for n
    using assms(1,2) by (auto simp: slowClock_def timeSub_def algebra_simps le_max_iff_disj)
  with assms(3,4) show ?thesis
    by (auto simp: keepDue_def checkKeepAlive_def sendKeepAliveProbe_def writeSeg_def now_def tick_def
        Let_def)
qed

lemma keepDue_iter:
  "slowClock (keepaliveIdle c) c \<Longrightarrow> keepaliveIdle c \<le> maxDuration \<Longrightarrow> keepDue c \<Longrightarrow>
     keepaliveProbes c + k \<le> keepaliveMaxProbes \<Longrightarrow> j \<le> k \<Longrightarrow> keepDue ((checkKeepAlive ^^ j) c)"
proof (induction k arbitrary: j)
  case (Suc k)
  then have d: "keepDue ((checkKeepAlive ^^ i) c)" if "i \<le> k" for i using that by simp
  have u: "keepaliveProbes ((checkKeepAlive ^^ k) c) = keepaliveProbes c + k"
    using keep.survives [of k c] Suc.prems(4) d by simp
  have i: "clk ((checkKeepAlive ^^ k) c) = clk c \<and> keepaliveIdle ((checkKeepAlive ^^ k) c) = keepaliveIdle c"
    by (induction k) simp_all
  then have "keepDue (checkKeepAlive ((checkKeepAlive ^^ k) c))"
    using checkKeepAlive_due_again [of "(checkKeepAlive ^^ k) c"] d [of k] u Suc.prems(1,2,4)
    by (simp add: slowClock_def)
  with d show ?case using Suc.prems(5) by (cases "j = Suc k") simp_all
qed simp

section \<open>Properties\<close>





text \<open>
  TIME-WAIT lasts 2 MSL. A connection that entered TIME-WAIT with nothing queued and without
  keep-alive is closed by the next tick exactly if the clock then has advanced by the
  TIME-WAIT duration; before that the tick leaves it in TIME-WAIT with the same deadline.
\<close>

theorem time_wait_lasts_2msl:
  assumes "retxQueue c = []" "\<not> keepaliveEnabled c"
  shows "let d = enterTimeWait c in
    state (Tick d) = (if clk c (Suc (ticks c)) < clk c (ticks c) + timeWaitDuration c then TimeWait else Closed) \<and>
    timeWaitDeadline (Tick d) = clk c (ticks c) + timeWaitDuration c"
  using Tick_timeWait [of "enterTimeWait c"] assms
  by (simp add: enterTimeWait_def restartTimeWait_def now_def tick_def Let_def)

theorem time_wait_lasts_2msl_witness:
  "state (Tick (enterTimeWait demoConn)) = TimeWait"
  using time_wait_lasts_2msl [of demoConn]
  by (simp add: demoConn_def NewConn_def defaultTimeWaitDuration_def msl_def second_def Let_def)

end
