(* ===== verification/Tcp_Machine.thy ===== *)
theory Tcp_Machine
  imports Tcp_Timers
begin

unbundle bit_operations_syntax

section \<open>The state machine (tcp/transport/statemachine.go)\<close>

text \<open>
  The user calls \<open>ActiveOpen\<close>, \<open>PassiveOpen\<close>, \<open>Close\<close> and the segment handler \<open>onSegment\<close>
  with its four paths, in the order the code checks them.
\<close>

subsection \<open>What can be observed\<close>

definition connState :: "Conn \<Rightarrow> State" where "connState c = state c"
definition ReachedEstablished :: "Conn \<Rightarrow> bool" where "ReachedEstablished c = reachedEstablished c"
definition connOrigin :: "Conn \<Rightarrow> Origin" where "connOrigin c = origin c"
definition SndUna :: "Conn \<Rightarrow> u32" where "SndUna c = snd_una c"
definition SndNxt :: "Conn \<Rightarrow> u32" where "SndNxt c = snd_nxt c"
definition RcvNxt :: "Conn \<Rightarrow> u32" where "RcvNxt c = rcv_nxt c"
definition RttSampled :: "Conn \<Rightarrow> bool" where "RttSampled c = rttValid c"
definition CurRTOms :: "Conn \<Rightarrow> int" where "CurRTOms c = milliseconds (curRTO c)"
definition SrttMS :: "Conn \<Rightarrow> u32" where "SrttMS c = srtt (rtt c)"

subsection \<open>User calls\<close>

definition SetCwnd :: "Conn \<Rightarrow> u32 \<Rightarrow> Conn" where
  "SetCwnd c n = c\<lparr>cong := (cong c)\<lparr>cwnd := n\<rparr>\<rparr>"

definition maxSentSeq :: "Conn \<Rightarrow> u32" where
  "maxSentSeq c = snd_nxt c"

definition ActiveOpen :: "Conn \<Rightarrow> u32 \<Rightarrow> Conn" where
  "ActiveOpen c iss =
     (let c = c\<lparr>snd_iss := iss, snd_una := iss, snd_nxt := iss + 1,
                rcv_wnd := initialRcvWindow c, state := SynSent\<rparr>
      in sendSyn c FlagSYN iss 0)"

definition PassiveOpen :: "Conn \<Rightarrow> Conn" where
  "PassiveOpen c = c\<lparr>rcv_wnd := initialRcvWindow c, state := Listen\<rparr>"

definition Close :: "Conn \<Rightarrow> Conn" where
  "Close c =
     (case state c of
        Listen \<Rightarrow> c\<lparr>state := Closed\<rparr>
      | SynSent \<Rightarrow> c\<lparr>state := Closed, retxQueue := [], curRTO := 0\<rparr>
      | Established \<Rightarrow>
          (let c = send c (FlagFIN OR FlagACK) (snd_nxt c) (rcv_nxt c)
           in c\<lparr>snd_nxt := snd_nxt c + 1, state := FinWait1\<rparr>)
      | SynReceived \<Rightarrow>
          (let c = send c (FlagFIN OR FlagACK) (snd_nxt c) (rcv_nxt c)
           in c\<lparr>snd_nxt := snd_nxt c + 1, state := FinWait1\<rparr>)
      | CloseWait \<Rightarrow>
          (let c = send c (FlagFIN OR FlagACK) (snd_nxt c) (rcv_nxt c)
           in c\<lparr>snd_nxt := snd_nxt c + 1, state := LastAck\<rparr>)
      | _ \<Rightarrow> c)"

subsection \<open>Negotiation and windows\<close>

definition negotiateOptions :: "Conn \<Rightarrow> TCPOptions \<Rightarrow> Conn" where
  "negotiateOptions c o' =
     (let c = (if HasWScale o'
               then c\<lparr>sndWindShift := WindowScale o', rcvWindShift := myWindowScale\<rparr> else c);
          c = (if HasTimestamp o' then c\<lparr>tsOK := True, tsRecent := TSVal o'\<rparr> else c);
          c = (if SACKPermitted o' then c\<lparr>sackOK := True\<rparr> else c)
      in if HasMSS o' then c\<lparr>sendMSS := MSS o'\<rparr> else c\<lparr>sendMSS := defaultSendMSS\<rparr>)"

text \<open>
  \<^theory_text>\<open>ParseTCPOptions\<close> never panics (\<open>ParseTCPOptions_no_panic\<close>), so its \<open>None\<close> is
  folded here into the branch of the error.
\<close>

definition negotiateFrom :: "Conn \<Rightarrow> TCPHeader \<Rightarrow> Conn" where
  "negotiateFrom c h =
     (case ParseTCPOptions (Options h) of Some (Inr o') \<Rightarrow> negotiateOptions c o' | _ \<Rightarrow> c)"

definition initSendWindow :: "Conn \<Rightarrow> TCPHeader \<Rightarrow> Conn" where
  "initSendWindow c h =
     (let w = ucast (Window h);
          c = c\<lparr>snd_wnd := w, snd_wl1 := SeqNum h, snd_wl2 := AckNum h\<rparr>
      in if w > maxSndWnd c then c\<lparr>maxSndWnd := w\<rparr> else c)"

definition scaledWindow :: "Conn \<Rightarrow> TCPHeader \<Rightarrow> u32" where
  "scaledWindow c h = push_bit (unat (sndWindShift c)) (ucast (Window h))"

definition updateSendWindow :: "Conn \<Rightarrow> TCPHeader \<Rightarrow> Conn" where
  "updateSendWindow c h =
     (let w = scaledWindow c h;
          c = (if SeqLT (snd_wl1 c) (SeqNum h) \<or>
                  (snd_wl1 c = SeqNum h \<and> SeqLEQ (snd_wl2 c) (AckNum h))
               then
                 (let c = c\<lparr>snd_wnd := w, snd_wl1 := SeqNum h, snd_wl2 := AckNum h\<rparr>
                  in if w > 0 then disarmPersist c else c)
               else c)
      in if w > maxSndWnd c then c\<lparr>maxSndWnd := w\<rparr> else c)"

subsection \<open>CLOSED, LISTEN, SYN-SENT\<close>

definition onSegmentClosed :: "Conn \<Rightarrow> TCPHeader \<Rightarrow> byte list \<Rightarrow> Conn" where
  "onSegmentClosed c h payload =
     (if Has (HdrFlags h) FlagRST then c
      else if Has (HdrFlags h) FlagACK then sendRst c (AckNum h)
      else send (sendRst c 0) (FlagRST OR FlagACK) 0 (SeqNum h + segLen h payload))"

definition onSegmentListen :: "Conn \<Rightarrow> TCPHeader \<Rightarrow> Conn" where
  "onSegmentListen c h =
     (if Has (HdrFlags h) FlagRST then c
      else if Has (HdrFlags h) FlagACK then sendRst c (AckNum h)
      else if Has (HdrFlags h) FlagSYN then
        (let c = c\<lparr>rcv_irs := SeqNum h, rcv_nxt := SeqNum h + 1, snd_una := snd_iss c,
                   snd_nxt := snd_iss c + 1, origin := OriginPassive, state := SynReceived\<rparr>;
             c = negotiateFrom c h;
             c = initSendWindow c h
         in sendSyn c (FlagSYN OR FlagACK) (snd_iss c) (rcv_nxt c))
      else c)"

definition onSegmentSynSent :: "Conn \<Rightarrow> TCPHeader \<Rightarrow> Conn" where
  "onSegmentSynSent c h =
     (if Has (HdrFlags h) FlagACK \<and>
         (SeqLEQ (AckNum h) (snd_iss c) \<or> SeqGT (AckNum h) (snd_nxt c))
      then (if \<not> Has (HdrFlags h) FlagRST then sendRst c (AckNum h) else c)
      else
        (let ackOK = Has (HdrFlags h) FlagACK in
         if Has (HdrFlags h) FlagRST then (if ackOK then c\<lparr>state := Closed\<rparr> else c)
         else if \<not> Has (HdrFlags h) FlagSYN then c
         else
           (let c = c\<lparr>rcv_irs := SeqNum h, rcv_nxt := SeqNum h + 1\<rparr>;
                c = negotiateFrom c h
            in if ackOK then
                 (let c = c\<lparr>snd_una := AckNum h\<rparr>;
                      c = ackRetxQueue c (AckNum h);
                      c = initSendWindow c h;
                      c = c\<lparr>state := Established, reachedEstablished := True\<rparr>
                  in sendAck c)
               else
                 (let c = c\<lparr>origin := OriginActive, state := SynReceived\<rparr>
                  in sendSyn c (FlagSYN OR FlagACK) (snd_iss c) (rcv_nxt c)))))"

subsection \<open>RST\<close>

definition resetConnection :: "Conn \<Rightarrow> Conn" where
  "resetConnection c =
     (if state c = SynReceived \<and> origin c = OriginPassive then c\<lparr>state := Listen\<rparr>
      else c\<lparr>state := Closed\<rparr>)"

definition handleRst :: "Conn \<Rightarrow> TCPHeader \<Rightarrow> Conn" where
  "handleRst c h =
     (if \<not> inWindow c (SeqNum h) then c
      else if SeqNum h \<noteq> rcv_nxt c then sendChallengeAck c
      else resetConnection c)"

subsection \<open>ACK\<close>

definition isDupAck :: "Conn \<Rightarrow> TCPHeader \<Rightarrow> byte list \<Rightarrow> bool" where
  "isDupAck c h payload =
     (if retxQueue c = [] then False
      else if payload \<noteq> [] \<or> Has (HdrFlags h) FlagSYN \<or> Has (HdrFlags h) FlagFIN then False
      else if AckNum h \<noteq> snd_una c then False
      else scaledWindow c h = snd_wnd c)"

definition onDuplicateAck :: "Conn \<Rightarrow> TCPHeader \<Rightarrow> Conn" where
  "onDuplicateAck c h =
     (let flightSize = snd_nxt c - snd_una c in
      if flightSize = 0 then c
      else
        (let wasFR = (ccstate (cong c) = ccFastRecovery);
             c = c\<lparr>cong := onDupAck (cong c) flightSize\<rparr>
         in if \<not> wasFR \<and> ccstate (cong c) = ccFastRecovery then fastRetransmit c else c))"

definition advanceStateOnAck :: "Conn \<Rightarrow> TCPHeader \<Rightarrow> Conn" where
  "advanceStateOnAck c h =
     (case state c of
        SynReceived \<Rightarrow> c\<lparr>state := Established, reachedEstablished := True\<rparr>
      | FinWait1 \<Rightarrow> (if finAcked c then c\<lparr>state := FinWait2\<rparr> else c)
      | Closing \<Rightarrow> (if finAcked c then enterTimeWait c else c)
      | LastAck \<Rightarrow> (if finAcked c then c\<lparr>state := Closed\<rparr> else c)
      | _ \<Rightarrow> c)"

definition newAck :: "Conn \<Rightarrow> TCPHeader \<Rightarrow> Conn" where
  "newAck c h =
     (let oldUna = snd_una c;
          flightSize = snd_nxt c - oldUna;
          ackedBytes = AckNum h - oldUna;
          c = c\<lparr>snd_una := AckNum h\<rparr>;
          c = ackRetxQueue c (AckNum h);
          c = releaseAckedSend c oldUna
      in c\<lparr>cong := onNewAck (cong c) ackedBytes flightSize\<rparr>)"

text \<open>The RFC 5961 range of the acknowledgement.\<close>

definition ackOutOfRange :: "Conn \<Rightarrow> u32 \<Rightarrow> bool" where
  "ackOutOfRange c ack =
     (SeqLT ack (snd_una c - maxSndWnd c) \<or> SeqGT ack (snd_nxt c))"

definition handleAck :: "Conn \<Rightarrow> TCPHeader \<Rightarrow> byte list \<Rightarrow> bool \<times> Conn" where
  "handleAck c h payload =
     (if state c = SynReceived \<and> \<not> AcceptableAck (snd_una c) (AckNum h) (snd_nxt c)
      then (False, if ackOutOfRange c (AckNum h) then sendRst c (AckNum h)
                   else sendChallengeAck c)
      else if ackOutOfRange c (AckNum h) then (False, sendChallengeAck c)
      else
        (let c = (if AcceptableAck (snd_una c) (AckNum h) (snd_nxt c) then newAck c h
                  else if isDupAck c h payload then onDuplicateAck c h
                  else c);
             c = updateSendWindow c h;
             c = advanceStateOnAck c h
         in (True, flushSend c)))"

subsection \<open>FIN\<close>

definition handleFin :: "Conn \<Rightarrow> TCPHeader \<Rightarrow> Conn" where
  "handleFin c h =
     (let c = c\<lparr>peerFin := True, peerFinSeq := rcv_nxt c, rcv_nxt := rcv_nxt c + 1\<rparr>;
          c = sendAck c
      in case state c of
           Established \<Rightarrow> c\<lparr>state := CloseWait\<rparr>
         | SynReceived \<Rightarrow> c\<lparr>state := CloseWait\<rparr>
         | FinWait1 \<Rightarrow> (if finAcked c then enterTimeWait c else c\<lparr>state := Closing\<rparr>)
         | FinWait2 \<Rightarrow> enterTimeWait c
         | TimeWait \<Rightarrow> restartTimeWait c
         | _ \<Rightarrow> c)"

subsection \<open>The synchronized states\<close>

text \<open>The options of a segment: a malformed area reads as no options at all.\<close>

definition segOptions :: "TCPHeader \<Rightarrow> TCPOptions" where
  "segOptions h = (case ParseTCPOptions (Options h) of Some (Inr o') \<Rightarrow> o' | _ \<Rightarrow> noOptions)"

definition finInOrder :: "Conn \<Rightarrow> TCPHeader \<Rightarrow> byte list \<Rightarrow> bool" where
  "finInOrder c h payload =
     (Has (HdrFlags h) FlagFIN \<and> SeqNum h + segLen h payload - 1 = rcv_nxt c)"

text \<open>Steps 5 and 6: text and FIN, after the ACK was in range.\<close>

definition textAndFin :: "Conn \<Rightarrow> TCPHeader \<Rightarrow> byte list \<Rightarrow> Conn" where
  "textAndFin c h payload =
     (let c = (if length payload > 0 then acceptText c h payload else c)
      in if finInOrder c h payload then handleFin c h else c)"

text \<open>Steps from the TS.Recent update on.\<close>

definition ackTextFin :: "Conn \<Rightarrow> TCPHeader \<Rightarrow> byte list \<Rightarrow> Conn" where
  "ackTextFin c h payload =
     (let o' = segOptions h;
          c = (if tsOK c \<and> HasTimestamp o'
               then c\<lparr>tsRecent := tsRecentUpdate (tsRecent c) (TSVal o') (SeqNum h) (lastAckSent c)\<rparr>
               else c)
      in if \<not> Has (HdrFlags h) FlagACK then c
         else
           (let c = (if tsOK c \<and> HasTimestamp o' \<and> TSecr o' \<noteq> 0
                     then sampleRTTFromTimestamp c (TSecr o') else c);
                (ok, c) = handleAck c h payload
            in if \<not> ok then c else textAndFin c h payload))"

definition onSegmentSynchronized :: "Conn \<Rightarrow> TCPHeader \<Rightarrow> byte list \<Rightarrow> Conn" where
  "onSegmentSynchronized c h payload =
     (let o' = segOptions h in
      if state c = TimeWait \<and> Has (HdrFlags h) FlagFIN \<and> \<not> Has (HdrFlags h) FlagRST
      then restartTimeWait (sendAck c)
      else if tsOK c \<and> HasTimestamp o' \<and> \<not> Has (HdrFlags h) FlagRST \<and>
              pawsStale (TSVal o') (tsRecent c)
      then sendAck c
      else if \<not> acceptable c h payload \<and> \<not> Has (HdrFlags h) FlagRST then sendAck c
      else if Has (HdrFlags h) FlagRST then handleRst c h
      else if Has (HdrFlags h) FlagSYN then sendChallengeAck c
      else ackTextFin c h payload)"

definition onSegment :: "Conn \<Rightarrow> TCPHeader \<Rightarrow> byte list \<Rightarrow> Conn" where
  "onSegment c h payload =
     (let c = tick (c\<lparr>lastRecvTime := now c, keepaliveProbes := 0\<rparr>)
      in case state c of
           Closed \<Rightarrow> onSegmentClosed c h payload
         | Listen \<Rightarrow> onSegmentListen c h
         | SynSent \<Rightarrow> onSegmentSynSent c h
         | _ \<Rightarrow> onSegmentSynchronized c h payload)"

subsection \<open>Frames of the ACK field\<close>

lemma newAck_ackOnly: "ackOnly c (newAck c h)"
  by (simp add: ackOnly_def newAck_def releaseAckedSend_def Let_def)

lemmas newAck_frame [simp, frame] = ackOnlyD [OF newAck_ackOnly]

lemma newAck_fields [simp, frame]:
  "state (newAck c h) = state c" "snd_una (newAck c h) = AckNum h" "snd_nxt (newAck c h) = snd_nxt c"
  "snd_wnd (newAck c h) = snd_wnd c" "reachedEstablished (newAck c h) = reachedEstablished c"
  by (simp_all add: newAck_def releaseAckedSend_def Let_def)

lemma onDuplicateAck_ackOnly: "ackOnly c (onDuplicateAck c h)"
proof -
  have "ackOnly c (fastRetransmit (c\<lparr>cong := k\<rparr>))" for k
    by (simp add: ackOnly_def)
  then show ?thesis by (simp add: onDuplicateAck_def Let_def) (simp add: ackOnly_def)
qed

lemmas onDuplicateAck_frame [simp, frame] = ackOnlyD [OF onDuplicateAck_ackOnly]

lemma onDuplicateAck_fields [simp, frame]:
  "state (onDuplicateAck c h) = state c" "snd_una (onDuplicateAck c h) = snd_una c"
  "snd_nxt (onDuplicateAck c h) = snd_nxt c" "sndBuf (onDuplicateAck c h) = sndBuf c"
  "reachedEstablished (onDuplicateAck c h) = reachedEstablished c"
  by (simp_all add: onDuplicateAck_def Let_def)

lemma updateSendWindow_ackOnly: "ackOnly c (updateSendWindow c h)"
  by (simp add: ackOnly_def updateSendWindow_def Let_def)

lemmas updateSendWindow_frame [simp, frame] = ackOnlyD [OF updateSendWindow_ackOnly]

lemma updateSendWindow_fields [simp, frame]:
  "state (updateSendWindow c h) = state c" "snd_una (updateSendWindow c h) = snd_una c"
  "snd_nxt (updateSendWindow c h) = snd_nxt c" "sndBuf (updateSendWindow c h) = sndBuf c"
  "retxQueue (updateSendWindow c h) = retxQueue c" "outp (updateSendWindow c h) = outp c"
  "reachedEstablished (updateSendWindow c h) = reachedEstablished c"
  by (simp_all add: updateSendWindow_def Let_def)

lemma enterTimeWait_ackOnly: "ackOnly c (enterTimeWait c)"
  by (simp add: ackOnly_def enterTimeWait_def restartTimeWait_def)

lemma timeWait_fields [simp, frame]:
  "state (enterTimeWait c) = TimeWait" "state (restartTimeWait c) = state c"
  "snd_una (enterTimeWait c) = snd_una c" "snd_una (restartTimeWait c) = snd_una c"
  "snd_nxt (enterTimeWait c) = snd_nxt c" "snd_nxt (restartTimeWait c) = snd_nxt c"
  "sndBuf (enterTimeWait c) = sndBuf c" "sndBuf (restartTimeWait c) = sndBuf c"
  "snd_wnd (enterTimeWait c) = snd_wnd c" "snd_wnd (restartTimeWait c) = snd_wnd c"
  "maxSndWnd (enterTimeWait c) = maxSndWnd c" "maxSndWnd (restartTimeWait c) = maxSndWnd c"
  "cong (enterTimeWait c) = cong c" "cong (restartTimeWait c) = cong c"
  "challengeCount (enterTimeWait c) = challengeCount c"
  "challengeCount (restartTimeWait c) = challengeCount c"
  "retxQueue (enterTimeWait c) = retxQueue c" "retxQueue (restartTimeWait c) = retxQueue c"
  "outp (enterTimeWait c) = outp c" "outp (restartTimeWait c) = outp c"
  "reachedEstablished (enterTimeWait c) = reachedEstablished c"
  "reachedEstablished (restartTimeWait c) = reachedEstablished c"
  "snd_wl1 (enterTimeWait c) = snd_wl1 c" "snd_wl1 (restartTimeWait c) = snd_wl1 c"
  "snd_wl2 (enterTimeWait c) = snd_wl2 c" "snd_wl2 (restartTimeWait c) = snd_wl2 c"
  "curRTO (enterTimeWait c) = curRTO c" "curRTO (restartTimeWait c) = curRTO c"
  "rttValid (enterTimeWait c) = rttValid c" "rttValid (restartTimeWait c) = rttValid c"
  by (simp_all add: enterTimeWait_def restartTimeWait_def)

lemmas enterTimeWait_frame [simp, frame] = ackOnlyD [OF enterTimeWait_ackOnly]

lemma restartTimeWait_ackOnly: "ackOnly c (restartTimeWait c)"
  by (simp add: ackOnly_def restartTimeWait_def)

lemmas restartTimeWait_frame [simp, frame] = ackOnlyD [OF restartTimeWait_ackOnly]

lemma advanceStateOnAck_ackOnly: "ackOnly c (advanceStateOnAck c h)"
proof -
  have "ackOnly c (c\<lparr>state := x\<rparr>)" "ackOnly c (c\<lparr>state := x, reachedEstablished := True\<rparr>)" for x
    by (simp_all add: ackOnly_def)
  then show ?thesis
    by (simp add: advanceStateOnAck_def enterTimeWait_ackOnly split: State.splits)
qed

lemmas advanceStateOnAck_frame [simp, frame] = ackOnlyD [OF advanceStateOnAck_ackOnly]

lemma advanceStateOnAck_fields [simp, frame]:
  "snd_una (advanceStateOnAck c h) = snd_una c" "snd_nxt (advanceStateOnAck c h) = snd_nxt c"
  "sndBuf (advanceStateOnAck c h) = sndBuf c" "retxQueue (advanceStateOnAck c h) = retxQueue c"
  "outp (advanceStateOnAck c h) = outp c"
  by (simp_all add: advanceStateOnAck_def split: State.splits)

text \<open>The state machine of the ACK field, as a function of the state and of \<open>finAcked\<close>.\<close>

definition ackNext :: "bool \<Rightarrow> State \<Rightarrow> State" where
  "ackNext fin s = (case s of
     SynReceived \<Rightarrow> Established
   | FinWait1 \<Rightarrow> if fin then FinWait2 else FinWait1
   | Closing \<Rightarrow> if fin then TimeWait else Closing
   | LastAck \<Rightarrow> if fin then Closed else LastAck
   | _ \<Rightarrow> s)"

lemma advanceStateOnAck_state [simp]:
  "state (advanceStateOnAck c h) = ackNext (finAcked c) (state c)"
  by (simp add: advanceStateOnAck_def ackNext_def split: State.splits)

lemma flushSend_ackOnly: "ackOnly c (flushSend c)"
  by (rule sendOnly_ackOnly [OF flushSend_sendOnly]) simp_all

lemma outputOnly_ackOnly:
  "outputOnly c d \<Longrightarrow> delAckArmed d = delAckArmed c \<Longrightarrow> delAckCount d = delAckCount c \<Longrightarrow>
     ackOnly c d"
  by (rule sendOnly_ackOnly [OF outputOnly_sendOnly])

lemma sendChallengeAck_ackOnly: "ackOnly c (sendChallengeAck c)"
  by (rule outputOnly_ackOnly [OF sendChallengeAck_outputOnly]) simp_all

lemma sendRst_ackOnly: "ackOnly c (sendRst c s)"
  by (rule outputOnly_ackOnly [OF sendRst_outputOnly]) simp_all

text \<open>
  \<open>handleAck\<close> after its range check, in three named steps.
\<close>

definition ackCore :: "Conn \<Rightarrow> TCPHeader \<Rightarrow> byte list \<Rightarrow> Conn" where
  "ackCore c h payload =
     updateSendWindow
       (if AcceptableAck (snd_una c) (AckNum h) (snd_nxt c) then newAck c h
        else if isDupAck c h payload then onDuplicateAck c h else c) h"

definition ackAccepted :: "Conn \<Rightarrow> TCPHeader \<Rightarrow> bool" where
  "ackAccepted c h \<longleftrightarrow> \<not> ackOutOfRange c (AckNum h) \<and>
     (state c = SynReceived \<longrightarrow> AcceptableAck (snd_una c) (AckNum h) (snd_nxt c))"

lemma handleAck_fst [simp]: "fst (handleAck c h payload) = ackAccepted c h"
  by (auto simp: handleAck_def ackAccepted_def Let_def)

lemma handleAck_snd:
  "snd (handleAck c h payload) =
     (if ackAccepted c h then flushSend (advanceStateOnAck (ackCore c h payload) h)
      else if state c = SynReceived \<and> ackOutOfRange c (AckNum h) \<and>
              \<not> AcceptableAck (snd_una c) (AckNum h) (snd_nxt c)
      then sendRst c (AckNum h)
      else sendChallengeAck c)"
  by (auto simp: handleAck_def ackAccepted_def ackCore_def Let_def)

lemma ackCore_ackOnly: "ackOnly c (ackCore c h p)"
  unfolding ackCore_def
  by (rule ackOnly_trans [OF _ updateSendWindow_ackOnly])
    (simp add: newAck_ackOnly onDuplicateAck_ackOnly)

lemmas ackCore_frame [simp, frame] = ackOnlyD [OF ackCore_ackOnly]

lemma ackCore_fields [simp, frame]:
  "state (ackCore c h p) = state c" "snd_nxt (ackCore c h p) = snd_nxt c"
  "snd_una (ackCore c h p) =
     (if AcceptableAck (snd_una c) (AckNum h) (snd_nxt c) then AckNum h else snd_una c)"
  "reachedEstablished (ackCore c h p) = reachedEstablished c"
  by (simp_all add: ackCore_def)

lemma handleAck_ackOnly: "ackOnly c (snd (handleAck c h p))"
  unfolding handleAck_snd
  by (auto intro: ackOnly_trans [OF ackOnly_trans [OF ackCore_ackOnly advanceStateOnAck_ackOnly]
      flushSend_ackOnly] sendRst_ackOnly sendChallengeAck_ackOnly)

lemmas handleAck_frame [simp, frame] = ackOnlyD [OF handleAck_ackOnly]

definition finNow :: "Conn \<Rightarrow> TCPHeader \<Rightarrow> bool" where
  "finNow c h \<longleftrightarrow>
     (if AcceptableAck (snd_una c) (AckNum h) (snd_nxt c) then AckNum h else snd_una c) = snd_nxt c"

lemma handleAck_state:
  "state (snd (handleAck c h p)) = (if ackAccepted c h then ackNext (finNow c h) (state c) else state c)"
  by (simp add: handleAck_snd finNow_def finAcked_def)

subsection \<open>FIN\<close>

text \<open>The state machine of an in-order FIN.\<close>

definition finNext :: "bool \<Rightarrow> State \<Rightarrow> State" where
  "finNext fin s = (case s of
     Established \<Rightarrow> CloseWait
   | SynReceived \<Rightarrow> CloseWait
   | FinWait1 \<Rightarrow> if fin then TimeWait else Closing
   | FinWait2 \<Rightarrow> TimeWait
   | _ \<Rightarrow> s)"

lemma handleFin_state [simp]: "state (handleFin c h) = finNext (finAcked c) (state c)"
  by (simp add: handleFin_def finNext_def finAcked_def Let_def split: State.splits)

lemma handleFin_fields [simp, frame]:
  "peerFin (handleFin c h)" "peerFinSeq (handleFin c h) = rcv_nxt c"
  "rcv_nxt (handleFin c h) = rcv_nxt c + 1" "rcvBuf (handleFin c h) = rcvBuf c"
  "rcv_wnd (handleFin c h) = rcv_wnd c" "oooSegs (handleFin c h) = oooSegs c"
  "snd_una (handleFin c h) = snd_una c" "snd_nxt (handleFin c h) = snd_nxt c"
  "sndBuf (handleFin c h) = sndBuf c" "retxQueue (handleFin c h) = retxQueue c"
  "reachedEstablished (handleFin c h) = reachedEstablished c"
  "localEP (handleFin c h) = localEP c" "remoteEP (handleFin c h) = remoteEP c"
  "portsSrc (handleFin c h) = portsSrc c" "portsDst (handleFin c h) = portsDst c"
  "sndWindShift (handleFin c h) = sndWindShift c" "challengeCount (handleFin c h) = challengeCount c"
  "cong (handleFin c h) = cong c" "rcvBuffTotal (handleFin c h) = rcvBuffTotal c"
  "snd_wnd (handleFin c h) = snd_wnd c" "snd_iss (handleFin c h) = snd_iss c"
  "maxSndWnd (handleFin c h) = maxSndWnd c" "clk (handleFin c h) = clk c"
  by (simp_all add: handleFin_def Let_def split: State.splits)

lemma acceptText_send_fields [simp]: "finAcked (acceptText c h p) = finAcked c"
  by (simp add: finAcked_def)

lemma textAndFin_state:
  "state (textAndFin c h p) =
     (let d = (if p \<noteq> [] then acceptText c h p else c)
      in if finInOrder d h p then finNext (finAcked c) (state c) else state c)"
  by (simp add: textAndFin_def Let_def)

end
