(* ===== verification/Tcp_Events.thy ===== *)
theory Tcp_Events
  imports Tcp_Machine
begin

unbundle bit_operations_syntax

section \<open>The state diagram\<close>

text \<open>
  The transitions of RFC 9293 as the implementation takes them: \<open>segMove\<close> are the moves a
  segment can cause, with the condition on the segment in each rule, \<open>connMove\<close> adds the user
  calls and the timers. \<open>onSegment_move\<close> and \<open>connStep_move\<close> show that every step of the code
  is one of these moves; the inversion rules then answer what a given change of state needs.
\<close>

datatype ConnEvent =
    EvSegment TCPHeader "byte list"
  | EvTick
  | EvClose
  | EvSend "byte list"
  | EvRecv nat
  | EvNoDelay bool
  | EvRcvBuffer u32
  | EvKeepAlive bool duration
  | EvMSL duration
  | EvCwnd u32

fun connStep :: "Conn \<Rightarrow> ConnEvent \<Rightarrow> Conn" where
  "connStep c (EvSegment h payload) = onSegment c h payload"
| "connStep c EvTick = Tick c"
| "connStep c EvClose = Close c"
| "connStep c (EvSend data) = snd (Send c data)"
| "connStep c (EvRecv n) = snd (Recv c n)"
| "connStep c (EvNoDelay b) = SetNoDelay c b"
| "connStep c (EvRcvBuffer n) = SetRcvBuffer c n"
| "connStep c (EvKeepAlive b d) = SetKeepAlive c b d"
| "connStep c (EvMSL d) = SetMSL c d"
| "connStep c (EvCwnd n) = SetCwnd c n"

subsection \<open>Segments\<close>

definition isSyn :: "TCPHeader \<Rightarrow> bool" where
  "isSyn h \<longleftrightarrow> Has (HdrFlags h) FlagSYN \<and> \<not> Has (HdrFlags h) FlagRST"

definition ackOfSyn :: "Conn \<Rightarrow> TCPHeader \<Rightarrow> bool" where
  "ackOfSyn c h \<longleftrightarrow> Has (HdrFlags h) FlagACK \<and> \<not> SeqLEQ (AckNum h) (snd_iss c) \<and>
     \<not> SeqGT (AckNum h) (snd_nxt c)"

definition exactRst :: "Conn \<Rightarrow> TCPHeader \<Rightarrow> bool" where
  "exactRst c h \<longleftrightarrow> Has (HdrFlags h) FlagRST \<and> SeqNum h = rcv_nxt c"

text \<open>A segment that passes the checks in front of the ACK field, and the ACK check itself.\<close>

definition goodAck :: "Conn \<Rightarrow> TCPHeader \<Rightarrow> byte list \<Rightarrow> bool" where
  "goodAck c h payload \<longleftrightarrow> \<not> Has (HdrFlags h) FlagRST \<and> \<not> Has (HdrFlags h) FlagSYN \<and>
     Has (HdrFlags h) FlagACK \<and> acceptable c h payload \<and> ackAccepted c h"

inductive segMove :: "Conn \<Rightarrow> TCPHeader \<Rightarrow> byte list \<Rightarrow> State \<Rightarrow> State \<Rightarrow> bool"
  for c h payload where
  stay: "segMove c h payload s s"
| syn: "isSyn h \<Longrightarrow> \<not> Has (HdrFlags h) FlagACK \<Longrightarrow> segMove c h payload Listen SynReceived"
| simultaneous: "isSyn h \<Longrightarrow> \<not> Has (HdrFlags h) FlagACK \<Longrightarrow> segMove c h payload SynSent SynReceived"
| synAck: "isSyn h \<Longrightarrow> ackOfSyn c h \<Longrightarrow> segMove c h payload SynSent Established"
| refused: "Has (HdrFlags h) FlagRST \<Longrightarrow> ackOfSyn c h \<Longrightarrow> segMove c h payload SynSent Closed"
| relisten: "exactRst c h \<Longrightarrow> origin c = OriginPassive \<Longrightarrow> segMove c h payload SynReceived Listen"
| reset: "exactRst c h \<Longrightarrow> s \<notin> {Closed, Listen, SynSent} \<Longrightarrow>
    s \<noteq> SynReceived \<or> origin c = OriginActive \<Longrightarrow> segMove c h payload s Closed"
| ack: "goodAck c h payload \<Longrightarrow> s \<notin> {Closed, Listen, SynSent} \<Longrightarrow>
    segMove c h payload s (ackNext (finNow c h) s)"
| ackFin: "goodAck c h payload \<Longrightarrow> Has (HdrFlags h) FlagFIN \<Longrightarrow> s \<notin> {Closed, Listen, SynSent} \<Longrightarrow>
    segMove c h payload s (finNext False (ackNext (finNow c h) s))"

inductive_cases segMove_toClosed: "segMove c h payload s Closed"
inductive_cases segMove_toEstablished: "segMove c h payload s Established"
inductive_cases segMove_toTimeWait: "segMove c h payload s TimeWait"
inductive_cases segMove_toCloseWait: "segMove c h payload s CloseWait"
inductive_simps segMove_fromClosed: "segMove c h payload Closed s"
inductive_simps segMove_fromListen: "segMove c h payload Listen s"

text \<open>The flight never shrinks while data goes out, so an unacknowledged FIN stays so.\<close>

lemma flushSend_inflight: "inflight c \<le> inflight (flushSend c)"
proof (rule flushSend_rel [of "\<lambda>c d. inflight c \<le> inflight d"])
  fix c d
  assume "unat (segmentSize d (sendUsable c)) \<noteq> 0"
  from inflight_emitSegment(1) [OF this, of "inflight c"]
  show "inflight c \<le> inflight (emitSegment c (inflight c) d (sendUsable c))" by linarith
qed (auto simp: inflight_def intro: order_trans)

lemma inflight_0: "inflight c = 0 \<longleftrightarrow> snd_una c = snd_nxt c"
  using dist_0_iff [of "snd_una c" "snd_nxt c"] by (simp add: inflight_def dist_def)

lemma handleAck_finAcked:
  "finAcked (snd (handleAck c h p)) \<Longrightarrow> ackAccepted c h \<Longrightarrow> finNow c h"
  using flushSend_inflight [of "advanceStateOnAck (ackCore c h p) h"]
    inflight_0 [of "advanceStateOnAck (ackCore c h p) h"]
    inflight_0 [of "flushSend (advanceStateOnAck (ackCore c h p) h)"]
  by (simp add: handleAck_snd finAcked_def finNow_def split: if_splits)

lemma finNext_after_ack:
  assumes "fin \<Longrightarrow> f"
  shows "finNext fin (ackNext f s) = finNext False (ackNext f s)"
  using assms by (cases f) (auto simp: finNext_def ackNext_def split: State.splits)

text \<open>The checks do not read the fields that onSegment writes before them.\<close>

lemma reads_cong:
  assumes "rcv_nxt d = rcv_nxt c" "rcv_wnd d = rcv_wnd c"
  shows "inWindow d = inWindow c" "acceptable d = acceptable c"
proof -
  have "inWindow d x = inWindow c x" for x using assms by (simp add: inWindow_def)
  then show i: "inWindow d = inWindow c" by blast
  have "acceptable d h p = acceptable c h p" for h p
    by (simp add: acceptable_def i assms)
  then show "acceptable d = acceptable c" by blast
qed

lemma ack_reads_cong:
  assumes "snd_una d = snd_una c" "snd_nxt d = snd_nxt c" "maxSndWnd d = maxSndWnd c"
    "state d = state c"
  shows "ackAccepted d = ackAccepted c" "finNow d = finNow c" "ackOutOfRange d = ackOutOfRange c"
proof -
  have "ackOutOfRange d x = ackOutOfRange c x" for x using assms by (simp add: ackOutOfRange_def)
  then show "ackOutOfRange d = ackOutOfRange c" by blast
  have "ackAccepted d h = ackAccepted c h" "finNow d h = finNow c h" for h
    using assms by (simp_all add: ackAccepted_def finNow_def ackOutOfRange_def)
  then show "ackAccepted d = ackAccepted c" "finNow d = finNow c" by blast+
qed

lemma ackTextFin_state:
  "state (ackTextFin c h p) = state c \<or>
   Has (HdrFlags h) FlagACK \<and> ackAccepted c h \<and>
     (state (ackTextFin c h p) = ackNext (finNow c h) (state c) \<or>
      Has (HdrFlags h) FlagFIN \<and>
        state (ackTextFin c h p) = finNext False (ackNext (finNow c h) (state c)))"
proof (cases "Has (HdrFlags h) FlagACK")
  case False
  then show ?thesis by (simp add: ackTextFin_def Let_def)
next
  case True
  let ?t = "if tsOK c \<and> HasTimestamp (segOptions h)
    then c\<lparr>tsRecent := tsRecentUpdate (tsRecent c) (TSVal (segOptions h)) (SeqNum h) (lastAckSent c)\<rparr>
    else c"
  let ?c = "if tsOK ?t \<and> HasTimestamp (segOptions h) \<and> TSecr (segOptions h) \<noteq> 0
    then sampleRTTFromTimestamp ?t (TSecr (segOptions h)) else ?t"
  let ?d = "snd (handleAck ?c h p)"
  have c: "ackAccepted ?c = ackAccepted c" "finNow ?c = finNow c" "state ?c = state c"
    using ack_reads_cong [of ?c c] by simp_all
  have eq: "ackTextFin c h p = (if ackAccepted c h then textAndFin ?d h p else ?d)"
    using True c(1) by (simp add: ackTextFin_def Let_def case_prod_unfold)
  have st: "state ?d = (if ackAccepted c h then ackNext (finNow c h) (state c) else state c)"
    unfolding handleAck_state c by (rule refl)
  show ?thesis
  proof (cases "ackAccepted c h")
    case False
    then show ?thesis using eq st by simp
  next
    case acc: True
    have "finAcked ?d \<Longrightarrow> finNow c h" using handleAck_finAcked [of ?c h p] acc c by simp
    then have "finNext (finAcked ?d) (ackNext (finNow c h) (state c)) =
        finNext False (ackNext (finNow c h) (state c))"
      by (rule finNext_after_ack)
    then show ?thesis
      using eq st acc True textAndFin_state [of ?d h p]
      by (auto simp: Let_def finInOrder_def)
  qed
qed

lemma onSegment_start:
  fixes c
  defines "d \<equiv> tick (c\<lparr>lastRecvTime := now c, keepaliveProbes := 0\<rparr>)"
  shows "state d = state c" "origin d = origin c" "snd_iss d = snd_iss c" "snd_nxt d = snd_nxt c"
    "snd_una d = snd_una c" "rcv_nxt d = rcv_nxt c" "rcv_wnd d = rcv_wnd c"
    "acceptable d = acceptable c" "inWindow d = inWindow c" "ackAccepted d = ackAccepted c"
    "finNow d = finNow c" "ackOutOfRange d = ackOutOfRange c"
  using reads_cong [of d c] ack_reads_cong [of d c] by (simp_all add: d_def)

lemma negotiateFrom_fields [simp]:
  "state (negotiateFrom c h) = state c" "snd_iss (negotiateFrom c h) = snd_iss c"
  "snd_una (negotiateFrom c h) = snd_una c" "snd_nxt (negotiateFrom c h) = snd_nxt c"
  "rcv_nxt (negotiateFrom c h) = rcv_nxt c" "rcv_wnd (negotiateFrom c h) = rcv_wnd c"
  "retxQueue (negotiateFrom c h) = retxQueue c" "outp (negotiateFrom c h) = outp c"
  "sndBuf (negotiateFrom c h) = sndBuf c" "rcvBuf (negotiateFrom c h) = rcvBuf c"
  "oooSegs (negotiateFrom c h) = oooSegs c" "origin (negotiateFrom c h) = origin c"
  "reachedEstablished (negotiateFrom c h) = reachedEstablished c"
  "challengeCount (negotiateFrom c h) = challengeCount c"
  "localEP (negotiateFrom c h) = localEP c" "remoteEP (negotiateFrom c h) = remoteEP c"
  "portsSrc (negotiateFrom c h) = portsSrc c" "portsDst (negotiateFrom c h) = portsDst c"
  "peerFin (negotiateFrom c h) = peerFin c" "snd_wnd (negotiateFrom c h) = snd_wnd c"
  "maxSndWnd (negotiateFrom c h) = maxSndWnd c" "rcvBuffTotal (negotiateFrom c h) = rcvBuffTotal c"
  "cong (negotiateFrom c h) = cong c" "clk (negotiateFrom c h) = clk c"
  "deriveTo (negotiateFrom c h) = deriveTo c"
  by (simp_all add: negotiateFrom_def negotiateOptions_def Let_def split: option.splits sum.splits)

lemma initSendWindow_fields [simp]:
  "state (initSendWindow c h) = state c" "snd_iss (initSendWindow c h) = snd_iss c"
  "snd_una (initSendWindow c h) = snd_una c" "snd_nxt (initSendWindow c h) = snd_nxt c"
  "rcv_nxt (initSendWindow c h) = rcv_nxt c" "rcv_wnd (initSendWindow c h) = rcv_wnd c"
  "retxQueue (initSendWindow c h) = retxQueue c" "outp (initSendWindow c h) = outp c"
  "sndBuf (initSendWindow c h) = sndBuf c" "rcvBuf (initSendWindow c h) = rcvBuf c"
  "oooSegs (initSendWindow c h) = oooSegs c" "origin (initSendWindow c h) = origin c"
  "reachedEstablished (initSendWindow c h) = reachedEstablished c"
  "challengeCount (initSendWindow c h) = challengeCount c"
  "localEP (initSendWindow c h) = localEP c" "remoteEP (initSendWindow c h) = remoteEP c"
  "portsSrc (initSendWindow c h) = portsSrc c" "portsDst (initSendWindow c h) = portsDst c"
  "peerFin (initSendWindow c h) = peerFin c" "rcvBuffTotal (initSendWindow c h) = rcvBuffTotal c"
  "sndWindShift (initSendWindow c h) = sndWindShift c" "snd_wnd (initSendWindow c h) = ucast (Window h)"
  "cong (initSendWindow c h) = cong c" "clk (initSendWindow c h) = clk c"
  "deriveTo (initSendWindow c h) = deriveTo c"
  by (simp_all add: initSendWindow_def Let_def)

lemma onSegmentListen_state:
  "state (onSegmentListen c h) =
     (if isSyn h \<and> \<not> Has (HdrFlags h) FlagACK then SynReceived else state c)"
  by (simp add: onSegmentListen_def isSyn_def Let_def)

lemma onSegmentSynSent_state:
  "state (onSegmentSynSent c h) =
     (if Has (HdrFlags h) FlagACK \<and> \<not> ackOfSyn c h then state c
      else if Has (HdrFlags h) FlagRST
      then (if Has (HdrFlags h) FlagACK then Closed else state c)
      else if \<not> Has (HdrFlags h) FlagSYN then state c
      else if Has (HdrFlags h) FlagACK then Established else SynReceived)"
  by (simp add: onSegmentSynSent_def ackOfSyn_def Let_def)

lemma handleRst_state:
  "state (handleRst c h) =
     (if inWindow c (SeqNum h) \<and> SeqNum h = rcv_nxt c
      then (if state c = SynReceived \<and> origin c = OriginPassive then Listen else Closed)
      else state c)"
  by (auto simp: handleRst_def resetConnection_def)

lemma onSegmentSynchronized_cases:
  obtains (same) "state (onSegmentSynchronized c h p) = state c"
    | (rst) "Has (HdrFlags h) FlagRST" "onSegmentSynchronized c h p = handleRst c h"
    | (good) "\<not> Has (HdrFlags h) FlagRST" "\<not> Has (HdrFlags h) FlagSYN" "acceptable c h p"
        "onSegmentSynchronized c h p = ackTextFin c h p"
proof (cases "Has (HdrFlags h) FlagRST")
  case True
  then show ?thesis by (intro rst) (simp_all add: onSegmentSynchronized_def)
next
  case f: False
  show ?thesis
  proof (cases "onSegmentSynchronized c h p = ackTextFin c h p \<and>
      \<not> Has (HdrFlags h) FlagSYN \<and> acceptable c h p")
    case True
    then show ?thesis using f by (intro good) simp_all
  next
    case False
    then show ?thesis
      using f by (intro same) (auto simp: onSegmentSynchronized_def Let_def split: if_splits)
  qed
qed

lemma onSegmentListen_move:
  "state c = Listen \<Longrightarrow> segMove c h p Listen (state (onSegmentListen c h))"
  by (auto simp: onSegmentListen_state intro: segMove.stay segMove.syn)

lemma onSegmentSynSent_move:
  assumes "state c = SynSent"
  shows "segMove c h p SynSent (state (onSegmentSynSent c h))"
proof -
  have "ackOfSyn c h \<Longrightarrow> Has (HdrFlags h) FlagACK" by (simp add: ackOfSyn_def)
  then show ?thesis
    using assms
    by (auto simp: onSegmentSynSent_state isSyn_def
        intro: segMove.stay segMove.simultaneous segMove.synAck segMove.refused)
qed

lemma onSegmentClosed_state [simp]: "state (onSegmentClosed c h p) = state c"
  by (simp add: onSegmentClosed_def)

lemma onSegmentSynchronized_move:
  assumes "state c \<notin> {Closed, Listen, SynSent}"
  shows "segMove c h p (state c) (state (onSegmentSynchronized c h p))"
proof (cases rule: onSegmentSynchronized_cases [of c h p])
    case same
    then show ?thesis by (simp add: segMove.stay)
  next
    case rst
    then show ?thesis
      using assms by (cases "origin c")
        (auto simp: handleRst_state exactRst_def
          intro: segMove.stay segMove.reset segMove.relisten)
  next
    case good
    then have g: "goodAck c h p" if "Has (HdrFlags h) FlagACK" "ackAccepted c h"
      using that by (simp add: goodAck_def)
    show ?thesis
      using ackTextFin_state [of c h p] segMove.stay [of c h p "state c"]
        segMove.ack [OF g assms] segMove.ackFin [OF g _ assms] unfolding good(4) by metis
qed

lemma segMove_cong:
  assumes "segMove d h p s s'" and "origin d = origin c" "snd_iss d = snd_iss c"
    "snd_nxt d = snd_nxt c" "rcv_nxt d = rcv_nxt c" "acceptable d = acceptable c"
    "ackAccepted d = ackAccepted c" "finNow d = finNow c"
  shows "segMove c h p s s'"
proof -
  have e: "ackOfSyn d h = ackOfSyn c h" "exactRst d h = exactRst c h" "goodAck d h p = goodAck c h p"
    using assms(2-) by (simp_all add: ackOfSyn_def exactRst_def goodAck_def)
  from assms(1) show ?thesis
    by cases (auto simp: e assms(2,8) intro: segMove.intros)
qed

lemma onSegment_move: "segMove c h p (state c) (state (onSegment c h p))"
proof -
  let ?d = "tick (c\<lparr>lastRecvTime := now c, keepaliveProbes := 0\<rparr>)"
  note d = onSegment_start [of c]
  have "segMove ?d h p (state ?d) (state (onSegment c h p))"
  proof (cases "state ?d \<in> {Closed, Listen, SynSent}")
    case False
    then have "onSegment c h p = onSegmentSynchronized ?d h p"
      by (simp add: onSegment_def Let_def split: State.splits)
    with onSegmentSynchronized_move [OF False] show ?thesis by simp
  next
    case True
    then consider "state ?d = Closed" | "state ?d = Listen" | "state ?d = SynSent" by blast
    then show ?thesis
      using onSegmentListen_move [of ?d h p] onSegmentSynSent_move [of ?d h p]
      by cases (simp_all add: onSegment_def Let_def segMove.stay)
  qed
  then show ?thesis
    using segMove_cong [of ?d h p "state c" _ c] d by simp
qed

subsection \<open>User calls and timers\<close>

definition mayTimeout :: "Conn \<Rightarrow> bool" where
  "mayTimeout c \<longleftrightarrow> retxQueue c \<noteq> [] \<or> state c = TimeWait \<or> (keepaliveEnabled c \<and> synchronized (state c))"

inductive connMove :: "Conn \<Rightarrow> ConnEvent \<Rightarrow> State \<Rightarrow> State \<Rightarrow> bool" for c where
  unchanged: "connMove c e s s"
| segment: "segMove c h payload s s' \<Longrightarrow> connMove c (EvSegment h payload) s s'"
| closeEarly: "s \<in> {Listen, SynSent} \<Longrightarrow> connMove c EvClose s Closed"
| closeFin: "s \<in> {SynReceived, Established} \<Longrightarrow> connMove c EvClose s FinWait1"
| closeLast: "connMove c EvClose CloseWait LastAck"
| timeout: "mayTimeout c \<Longrightarrow> connMove c EvTick s Closed"

inductive_cases connMove_toClosed: "connMove c e s Closed"
inductive_cases connMove_tick: "connMove c EvTick s s'"
inductive_cases connMove_close: "connMove c EvClose s s'"

lemma Close_state:
  "state (Close c) = (case state c of
     Listen \<Rightarrow> Closed | SynSent \<Rightarrow> Closed | SynReceived \<Rightarrow> FinWait1 | Established \<Rightarrow> FinWait1
   | CloseWait \<Rightarrow> LastAck | s \<Rightarrow> s)"
  by (simp add: Close_def Let_def split: State.splits)

lemma checkTimeWait_state: "state (checkTimeWait c) = state c \<or>
    state c = TimeWait \<and> state (checkTimeWait c) = Closed"
  by (simp add: checkTimeWait_def Let_def)

lemma checkTimeWait_fields [simp]:
  "retxQueue (checkTimeWait c) = retxQueue c" "keepaliveEnabled (checkTimeWait c) = keepaliveEnabled c"
  "outp (checkTimeWait c) = outp c" "localEP (checkTimeWait c) = localEP c"
  "remoteEP (checkTimeWait c) = remoteEP c" "portsSrc (checkTimeWait c) = portsSrc c"
  "portsDst (checkTimeWait c) = portsDst c" "challengeCount (checkTimeWait c) = challengeCount c"
  "snd_una (checkTimeWait c) = snd_una c" "snd_nxt (checkTimeWait c) = snd_nxt c"
  "sndBuf (checkTimeWait c) = sndBuf c" "cong (checkTimeWait c) = cong c"
  "reachedEstablished (checkTimeWait c) = reachedEstablished c"
  "rcvBuf (checkTimeWait c) = rcvBuf c" "rcv_nxt (checkTimeWait c) = rcv_nxt c"
  "rcv_wnd (checkTimeWait c) = rcv_wnd c" "oooSegs (checkTimeWait c) = oooSegs c"
  "rcvBuffTotal (checkTimeWait c) = rcvBuffTotal c" "snd_iss (checkTimeWait c) = snd_iss c"
  "snd_wnd (checkTimeWait c) = snd_wnd c" "origin (checkTimeWait c) = origin c"
  "sndWindShift (checkTimeWait c) = sndWindShift c" "maxSndWnd (checkTimeWait c) = maxSndWnd c"
  "clk (checkTimeWait c) = clk c"
  by (simp_all add: checkTimeWait_def Let_def)

lemma checkRetransmit_Nil: "retxQueue c = [] \<Longrightarrow> checkRetransmit c = c"
  by (simp add: checkRetransmit_def)

lemma checkKeepAlive_off:
  "\<not> keepaliveEnabled c \<or> \<not> synchronized (state c) \<Longrightarrow> checkKeepAlive c = c"
  by (auto simp: checkKeepAlive_def)

lemma Tick_state: "state (Tick c) = state c \<or> mayTimeout c \<and> state (Tick c) = Closed"
proof -
  let ?a = "checkTimeWait c" and ?b = "checkRetransmit (checkTimeWait c)"
  let ?f = "checkFlowTimers ?b"
  have a: "state ?a = state c \<or> state c = TimeWait \<and> state ?a = Closed" by (rule checkTimeWait_state)
  have b: "state ?b = state ?a \<or> retxQueue c \<noteq> [] \<and> state ?b = Closed"
    using checkRetransmit_state [of ?a] checkRetransmit_Nil [of ?a] by auto
  have k: "state (Tick c) = state ?f \<or>
      keepaliveEnabled c \<and> synchronized (state ?b) \<and> state (Tick c) = Closed"
  proof (cases "keepaliveEnabled c \<and> synchronized (state ?b)")
    case False
    then have "checkKeepAlive ?f = ?f" by (intro checkKeepAlive_off) auto
    then show ?thesis by (simp add: Tick_def)
  qed (use checkKeepAlive_state [of ?f] in \<open>auto simp: Tick_def\<close>)
  have "\<not> synchronized Closed" by (simp add: synchronized_def)
  then show ?thesis using a b k by (auto simp: mayTimeout_def)
qed

lemma Send_state [simp]: "state (snd (Send c d)) = state c"
  by (simp add: Send_def)

lemma Recv_state: "state (snd (Recv c n)) = state c"
  by simp

lemma connStep_move: "connMove c e (state c) (state (connStep c e))"
proof (cases e)
  case (EvSegment h p)
  then show ?thesis using onSegment_move by (simp add: connMove.segment)
next
  case EvTick
  then show ?thesis using Tick_state [of c] by (auto intro: connMove.unchanged connMove.timeout)
next
  case EvClose
  then show ?thesis
    by (simp add: Close_state connMove.unchanged connMove.closeEarly connMove.closeFin
        connMove.closeLast split: State.splits)
qed (simp_all add: connMove.unchanged SetNoDelay_def SetRcvBuffer_def SetKeepAlive_def SetMSL_def
    SetCwnd_def Let_def)

subsection \<open>Reachable connections\<close>

text \<open>
  A connection as the library creates it: a new one, perhaps configured with the setters, that
  \<^theory_text>\<open>Dial\<close> opens actively with some ISS or a listener opens passively with the ISS it
  chose. From there any sequence of events.
\<close>

fun isSetter :: "ConnEvent \<Rightarrow> bool" where
  "isSetter (EvNoDelay b) = True"
| "isSetter (EvRcvBuffer n) = True"
| "isSetter (EvKeepAlive b d) = True"
| "isSetter (EvMSL d) = True"
| "isSetter (EvCwnd n) = True"
| "isSetter e = False"

inductive configured :: "Conn \<Rightarrow> bool" where
  new: "configured (NewConn clock l r)"
| setter: "configured c \<Longrightarrow> isSetter e \<Longrightarrow> configured (connStep c e)"

definition openPassive :: "Conn \<Rightarrow> u32 \<Rightarrow> Conn" where
  "openPassive c iss = PassiveOpen (c\<lparr>snd_iss := iss\<rparr>)"

inductive reachable :: "Conn \<Rightarrow> bool" where
  dialled: "configured c \<Longrightarrow> reachable (ActiveOpen c iss)"
| listening: "configured c \<Longrightarrow> reachable (openPassive c iss)"
| step: "reachable c \<Longrightarrow> reachable (connStep c e)"

text \<open>The setters touch neither the queues nor the state.\<close>

lemma configured_blank:
  "configured c \<Longrightarrow> state c = Closed \<and> retxQueue c = [] \<and> sndBuf c = [] \<and> rcvBuf c = [] \<and>
     oooSegs c = [] \<and> outp c = [] \<and> \<not> peerFin c \<and> challengeCount c = 0 \<and> \<not> reachedEstablished c"
proof (induction rule: configured.induct)
  case (setter c e)
  then show ?case
    by (cases e) (auto simp: SetNoDelay_def SetRcvBuffer_def SetKeepAlive_def SetMSL_def
        SetCwnd_def Let_def)
qed (simp add: NewConn_def)

subsection \<open>A segment with an unbelievable ACK\<close>

text \<open>What a blind sender must not be able to change: the receive buffer and window, the
  state, the send variables, the queue, the send buffer, the peer window and the congestion state.\<close>

definition untouched :: "Conn \<Rightarrow> Conn \<Rightarrow> bool" where
  "untouched c d \<longleftrightarrow> rcvSide d = rcvSide c \<and> state d = state c \<and>
    snd_una d = snd_una c \<and> snd_nxt d = snd_nxt c \<and>
    retxQueue d = retxQueue c \<and> sndBuf d = sndBuf c \<and>
    cong d = cong c \<and> snd_wnd d = snd_wnd c \<and> maxSndWnd d = maxSndWnd c"

lemma untouched_intros:
  "untouched c c" "untouched c d \<Longrightarrow> untouched d e \<Longrightarrow> untouched c e"
  "untouched c (sendAck c)" "untouched c (sendChallengeAck c)" "untouched c (restartTimeWait c)"
  by (simp_all add: untouched_def rcvSide_def)

lemma ackTextFin_out_of_range:
  assumes "ackOutOfRange d (AckNum h)" "synchronized (state d)"
  shows "untouched d (ackTextFin d h p)"
proof -
  define t where "t = (if tsOK d \<and> HasTimestamp (segOptions h)
    then d\<lparr>tsRecent := tsRecentUpdate (tsRecent d) (TSVal (segOptions h)) (SeqNum h) (lastAckSent d)\<rparr>
    else d)"
  define e where "e = (if tsOK t \<and> HasTimestamp (segOptions h) \<and> TSecr (segOptions h) \<noteq> 0
    then sampleRTTFromTimestamp t (TSecr (segOptions h)) else t)"
  have t: "untouched d t" unfolding t_def untouched_def by (simp add: rcvSide_def)
  have e: "untouched d e" using t unfolding e_def untouched_def by (simp add: rcvSide_def)
  have "state e \<noteq> SynReceived" using assms(2) e by (auto simp: synchronized_def untouched_def)
  moreover have "\<not> ackAccepted e h"
    using assms(1) e ack_reads_cong [of e d] by (simp add: ackAccepted_def untouched_def)
  ultimately have h: "handleAck e h p = (False, sendChallengeAck e)"
    by (simp add: handleAck_fst handleAck_snd prod_eq_iff)
  have "ackTextFin d h p = (if Has (HdrFlags h) FlagACK then sendChallengeAck e else t)"
    unfolding ackTextFin_def Let_def t_def [symmetric] e_def [symmetric] h by simp
  then show ?thesis using t e by (auto intro: untouched_intros)
qed

lemma out_of_range_ack:
  assumes "synchronized (state c)" "ackOutOfRange c (AckNum h)" "\<not> Has (HdrFlags h) FlagRST"
  shows "untouched c (onSegment c h p)"
proof -
  define d where "d = tick (c\<lparr>lastRecvTime := now c, keepaliveProbes := 0\<rparr>)"
  note s = onSegment_start [of c, folded d_def]
  have d: "untouched c d" by (simp add: d_def untouched_def rcvSide_def)
  have "onSegment c h p = onSegmentSynchronized d h p"
    using assms(1) unfolding onSegment_def Let_def d_def [symmetric] s(1)
    by (cases "state c") (simp_all add: synchronized_def)
  moreover have "untouched d (ackTextFin d h p)"
    using assms s by (intro ackTextFin_out_of_range) simp_all
  ultimately have "untouched d (onSegment c h p)"
    using assms(3) by (simp add: onSegmentSynchronized_def Let_def untouched_intros(3,4)
      untouched_intros(2) [OF untouched_intros(3,5)])
  then show ?thesis using d by (rule untouched_intros(2) [rotated])
qed

subsection \<open>What closes a synchronized connection\<close>

lemma ackNext_Closed: "ackNext f s = Closed \<longleftrightarrow> s = Closed \<or> (s = LastAck \<and> f)"
  by (cases s) (simp_all add: ackNext_def)

lemma finNext_Closed: "finNext f s = Closed \<longleftrightarrow> s = Closed"
  by (cases s) (simp_all add: finNext_def)

lemma segMove_exactRst:
  assumes "segMove c h payload s Closed" "synchronized s" "s \<noteq> LastAck"
  shows "exactRst c h"
  using assms
  by (cases rule: segMove_toClosed)
    (auto simp: synchronized_def ackNext_Closed finNext_Closed dest: sym)

section \<open>Properties\<close>




text \<open>
  C16: blind data injection fails. A segment without RST that reaches a synchronized
  connection with an ACK outside SND.UNA - MAX.SND.WND to SND.NXT leaves the receive buffer,
  the reassembly queue, RCV.NXT and the window, the state, the send variables, the
  retransmission queue, the send buffer and the congestion state untouched, whatever it
  carries (RFC 5961, section 5).
\<close>

theorem blind_data_is_ignored:
  assumes "synchronized (state c)" "ackOutOfRange c (AckNum h)" "\<not> Has (HdrFlags h) FlagRST"
  shows "untouched c (onSegment c h payload)"
  by (rule out_of_range_ack [OF assms])

theorem blind_data_is_ignored_witness:
  "untouched (demoConn\<lparr>state := Established\<rparr>)
     (onSegment (demoConn\<lparr>state := Established\<rparr>) (demoHeader FlagACK 0 100000) [1, 2, 3])"
  by (rule blind_data_is_ignored)
    (simp_all add: demoConn_def demoHeader_def NewConn_def synchronized_def ackOutOfRange_def SeqLT_def
      SeqGT_def halfSeqSpace_def maxWindow_def)

end
