(* ===== verification/Tcp_SendStream.thy ===== *)
theory Tcp_SendStream
  imports Tcp_Events
begin

unbundle bit_operations_syntax

section \<open>The sender keeps the byte stream\<close>

text \<open>
  The specification of the sending half. While a connection is in ESTABLISHED or CLOSE-WAIT the
  retransmission queue is a gapless chain of data segments that ends at SND.NXT, and what of it
  is not yet acknowledged is byte for byte the front of the send buffer: so every
  retransmission carries the bytes the application queued at that sequence number. \<open>dataInv\<close>
  states it, \<open>preInv\<close> what holds before the handshake is over, and \<open>sendInv_paced\<close> lifts both
  to every run in which the application never has 2^30 bytes unacknowledged.
\<close>

fun chain :: "u32 \<Rightarrow> retxSeg list \<Rightarrow> u32 \<Rightarrow> bool" where
  "chain s [] e = (s = e)"
| "chain s (r # q) e =
     (rsSeq r = s \<and> rsPayload r \<noteq> [] \<and> length (rsPayload r) \<le> 1360 \<and>
      rsFlags r = FlagPSH OR FlagACK \<and> chain (s + of_nat (length (rsPayload r))) q e)"

definition bytesOf :: "retxSeg list \<Rightarrow> byte list" where
  "bytesOf q = concat (map rsPayload q)"

lemma bytesOf_simps [simp]:
  "bytesOf [] = []" "bytesOf (r # q) = rsPayload r @ bytesOf q" "bytesOf (p @ q) = bytesOf p @ bytesOf q"
  by (simp_all add: bytesOf_def)

lemma chain_end: "chain s q e \<Longrightarrow> e = s + of_nat (length (bytesOf q))"
proof (induction q arbitrary: s)
  case (Cons r q)
  then have "e = (s + of_nat (length (rsPayload r))) + of_nat (length (bytesOf q))"
    by (intro Cons.IH) simp
  then show ?case by (simp add: add.assoc)
qed simp

lemma chain_append: "chain s p m \<Longrightarrow> chain m q e \<Longrightarrow> chain s (p @ q) e"
  by (induction p arbitrary: s) auto

lemma seqLen_data:
  "rsFlags r = FlagPSH OR FlagACK \<Longrightarrow> seqLen r = of_nat (length (rsPayload r))"
  by (simp add: seqLen_def Has_or)

text \<open>
  What an acknowledgement of \<open>m\<close> bytes past the start of the chain leaves: the rest of the
  chain, with the first \<open>k\<close> bytes of its first segment acknowledged.
\<close>

definition restOf :: "u32 \<Rightarrow> retxSeg list \<Rightarrow> u32 \<Rightarrow> byte list \<Rightarrow> bool" where
  "restOf una q nxt bs \<longleftrightarrow>
     (\<exists>k. chain (una - of_nat k) q nxt \<and> (if q = [] then k = 0 else k < length (rsPayload (hd q))) \<and>
          drop k (bytesOf q) = bs \<and> k \<le> length (bytesOf q))"

lemma unacked_rest:
  assumes "chain s q e" "m \<le> length (bytesOf q)" "length (bytesOf q) < 2147483648"
  shows "restOf (s + of_nat m) (unacked (s + of_nat m) q) e (drop m (bytesOf q))"
  using assms
proof (induction q arbitrary: s m)
  case Nil
  then show ?case by (simp add: restOf_def)
next
  case (Cons r q)
  let ?n = "length (rsPayload r)"
  have c: "rsSeq r = s" "rsPayload r \<noteq> []" "rsFlags r = FlagPSH OR FlagACK" "chain (s + of_nat ?n) q e"
    using Cons.prems(1) by simp_all
  have len: "?n + length (bytesOf q) < 2147483648" using Cons.prems(3) by simp
  have leq: "SeqLEQ (rsSeq r + seqLen r) (s + of_nat m) \<longleftrightarrow> ?n \<le> m"
    unfolding c(1) seqLen_data [OF c(3)] using Cons.prems(2) len by (intro SeqLEQ_pos) simp_all
  show ?case
  proof (cases "?n \<le> m")
    case True
    then have "s + of_nat m = (s + of_nat ?n) + of_nat (m - ?n)" by simp
    moreover have "m - ?n \<le> length (bytesOf q)" using Cons.prems(2) by simp
    ultimately show ?thesis
      using Cons.IH [OF c(4), of "m - ?n"] len True leq by simp
  next
    case False
    then show ?thesis
      using leq Cons.prems c(2) unfolding restOf_def by (intro exI [of _ m]) simp
  qed
qed

definition dataInv :: "Conn \<Rightarrow> bool" where
  "dataInv c \<longleftrightarrow>
     restOf (snd_una c) (retxQueue c) (snd_nxt c) (take (inflight c) (sndBuf c)) \<and>
     inflight c \<le> length (sndBuf c) \<and> length (sndBuf c) < 1073741824"

definition synSeg :: "u32 \<Rightarrow> retxSeg \<Rightarrow> bool" where
  "synSeg iss r \<longleftrightarrow> rsSeq r = iss \<and> seqLen r = 1 \<and> Has (rsFlags r) FlagSYN \<and> rsPayload r = []"

definition preInv :: "Conn \<Rightarrow> bool" where
  "preInv c \<longleftrightarrow> sndBuf c = [] \<and> (\<forall>r\<in>set (retxQueue c). synSeg (snd_iss c) r) \<and>
     (state c \<noteq> Listen \<longrightarrow> snd_una c = snd_iss c \<and> snd_nxt c = snd_iss c + 1)"

definition sendInv :: "Conn \<Rightarrow> bool" where
  "sendInv c \<longleftrightarrow>
     (state c \<in> {Established, CloseWait} \<longrightarrow> dataInv c) \<and>
     (state c \<in> {Listen, SynSent, SynReceived} \<longrightarrow> preInv c)"

text \<open>What the invariants read.\<close>

definition sendView :: "Conn \<Rightarrow> u32 \<times> u32 \<times> u32 \<times> byte list \<times> retxSeg list" where
  "sendView c = (snd_una c, snd_nxt c, snd_iss c, sndBuf c, retxQueue c)"

lemma dataInv_view: "sendView d = sendView c \<Longrightarrow> dataInv d = dataInv c"
  by (simp add: sendView_def dataInv_def inflight_def)

lemma preInv_view: "sendView d = sendView c \<Longrightarrow> state d = state c \<Longrightarrow> preInv d = preInv c"
  by (simp add: sendView_def preInv_def)

lemma sendInv_view: "sendView d = sendView c \<Longrightarrow> state d = state c \<Longrightarrow> sendInv d = sendInv c"
  using dataInv_view [of d c] preInv_view [of d c] by (simp add: sendInv_def)

lemma sendInv_other:
  "state c \<notin> {Established, CloseWait, Listen, SynSent, SynReceived} \<Longrightarrow> sendInv c"
  by (simp add: sendInv_def)

subsection \<open>One more segment\<close>

lemma inflight_dist: "inflight c = dist (snd_una c) (snd_nxt c)"
  by (simp add: inflight_def dist_def)

lemma restOf_extend:
  assumes r: "restOf una q nxt (take f buf)" and f: "f \<le> length buf" "f = dist una nxt"
    and x: "rsSeq x = nxt" "rsFlags x = FlagPSH OR FlagACK" "rsPayload x = take n (drop f buf)"
    and n: "0 < n" "f + n \<le> length buf" "n \<le> 1360"
  shows "restOf una (q @ [x]) (nxt + of_nat n) (take (f + n) buf)"
proof -
  obtain k where k: "chain (una - of_nat k) q nxt" "if q = [] then k = 0 else k < length (rsPayload (hd q))"
    "drop k (bytesOf q) = take f buf" "k \<le> length (bytesOf q)"
    using r by (auto simp: restOf_def)
  have len: "length (rsPayload x) = n" using x(3) n(2) by simp
  have ne: "rsPayload x \<noteq> []" using len n(1) by auto
  have "chain (una - of_nat k) (q @ [x]) (nxt + of_nat n)"
    by (rule chain_append [OF k(1)]) (simp only: chain.simps x(1,2) len ne n(3) not_False_eq_True simp_thms)
  moreover have "drop k (bytesOf (q @ [x])) = take (f + n) buf"
    using k(3,4) by (simp add: x(3) take_add)
  moreover have "if q @ [x] = [] then k = 0 else k < length (rsPayload (hd (q @ [x])))"
    using k(2) ne by (cases q) auto
  ultimately show ?thesis
    unfolding restOf_def using k(4) by (intro exI [of _ k]) simp
qed

lemma dataInv_extend:
  assumes c: "dataInv c"
    and d: "snd_una d = snd_una c" "sndBuf d = sndBuf c" "snd_nxt d = snd_nxt c + of_nat n"
      "retxQueue d = retxQueue c @ [x]"
    and x: "rsSeq x = snd_nxt c" "rsFlags x = FlagPSH OR FlagACK"
      "rsPayload x = take n (drop (inflight c) (sndBuf c))"
    and n: "0 < n" "inflight c + n \<le> length (sndBuf c)" "n \<le> 1360"
  shows "dataInv d"
proof -
  have i: "restOf (snd_una c) (retxQueue c) (snd_nxt c) (take (inflight c) (sndBuf c))"
    "inflight c \<le> length (sndBuf c)" "length (sndBuf c) < 1073741824"
    using c by (simp_all add: dataInv_def)
  have "snd_nxt d - snd_una d = (snd_nxt c - snd_una c) + of_nat n"
    by (simp add: d)
  then have "unat (snd_nxt d - snd_una d) = (inflight c + unat (of_nat n :: u32)) mod 4294967296"
    by (simp only: unat_u32_add inflight_def)
  moreover have "n < 4294967296" using n i by linarith
  ultimately have fl: "inflight d = inflight c + n"
    using n i by (simp add: inflight_def unat_u32_of_nat)
  have "restOf (snd_una d) (retxQueue d) (snd_nxt d) (take (inflight d) (sndBuf d))"
    unfolding fl d by (rule restOf_extend [OF i(1,2) inflight_dist x n])
  then show ?thesis using fl n i by (simp add: dataInv_def d)
qed

lemma sendData_psh_queue:
  assumes "p \<noteq> []" "length p < 4294967296"
  obtains t where "retxQueue (sendData c (FlagPSH OR FlagACK) s a p) = retxQueue c @
    [\<lparr>rsSeq = s, rsFlags = FlagPSH OR FlagACK, rsPayload = p, rsSentAt = t, rsRetries = 0,
      rsRetransmitted = False\<rparr>]"
proof -
  have "(of_nat (length p) :: u32) \<noteq> 0"
    unfolding word_unat_eq_iff unat_u32_of_nat [OF assms(2)] using assms(1) by simp
  then have "occupies (FlagPSH OR FlagACK) p" by (simp add: occupies_def Has_or)
  then show ?thesis using that by (simp add: sendData_queue)
qed

lemma dataInv_emit:
  assumes c: "dataInv c" and f: "inflight c < length (sndBuf c)"
    and n: "unat (segmentSize d u) \<noteq> 0" and d: "d = of_nat (length (sndBuf c) - inflight c)"
  shows "dataInv (emitSegment c (inflight c) d u)"
proof -
  let ?n = "unat (segmentSize d u)" and ?p = "take (unat (segmentSize d u)) (drop (inflight c) (sndBuf c))"
  have "length (sndBuf c) < 1073741824" using c by (simp add: dataInv_def)
  then have "unat d = length (sndBuf c) - inflight c" unfolding d by (intro unat_u32_of_nat) linarith
  then have le: "inflight c + ?n \<le> length (sndBuf c)" using f by (simp add: unat_segmentSize)
  then have len: "length ?p = ?n" by simp
  then have "?p \<noteq> []" using n by auto
  then obtain t where q: "retxQueue (sendData c (FlagPSH OR FlagACK) (snd_nxt c) (rcv_nxt c) ?p) =
      retxQueue c @ [\<lparr>rsSeq = snd_nxt c, rsFlags = FlagPSH OR FlagACK, rsPayload = ?p,
        rsSentAt = t, rsRetries = 0, rsRetransmitted = False\<rparr>]"
    using unat_u32_less [of "segmentSize d u"] len by (metis sendData_psh_queue)
  have n': "?n \<le> 1360" by (simp add: unat_segmentSize)
  show ?thesis
    by (rule dataInv_extend [OF c, of _ ?n "\<lparr>rsSeq = snd_nxt c, rsFlags = FlagPSH OR FlagACK,
        rsPayload = ?p, rsSentAt = t, rsRetries = 0, rsRetransmitted = False\<rparr>"])
      (use n le n' in \<open>simp_all add: emitSegment_def Let_def q\<close>)
qed

lemma dataInv_timers:
  "dataInv (disarmOverride c) = dataInv c" "dataInv (armOverride c) = dataInv c"
  "dataInv (armPersist c) = dataInv c" "dataInv (disarmPersist c) = dataInv c"
  by (rule dataInv_view; simp add: sendView_def)+

lemma dataInv_flush: "dataInv c \<Longrightarrow> dataInv (flushSend c)"
  using flushSend_rel [of "\<lambda>c d. dataInv c \<longrightarrow> dataInv d" c]
  by (simp add: dataInv_timers dataInv_emit)

lemma dataInv_override: "dataInv c \<Longrightarrow> dataInv (fireOverride c)"
proof -
  assume c: "dataInv c"
  let ?d = "of_nat (length (sndBuf c) - inflight c) :: u32"
  have n: "unat (segmentSize ?d (sendUsable c)) \<noteq> 0"
    if "inflight c < length (sndBuf c)" "sendUsable c \<noteq> 0"
  proof -
    have "length (sndBuf c) < 1073741824" using c by (simp add: dataInv_def)
    then have "unat ?d = length (sndBuf c) - inflight c" by (intro unat_u32_of_nat) linarith
    moreover have "unat (sendUsable c) \<noteq> 0" using that(2) by (simp add: unat_eq_0)
    ultimately show ?thesis using that(1) by (simp add: unat_segmentSize)
  qed
  show ?thesis
    using c n dataInv_emit [OF c _ n refl] by (simp add: fireOverride_def Let_def dataInv_timers)
qed

lemma dataInv_probe: "dataInv c \<Longrightarrow> dataInv (probePersist c)"
proof (cases "inflight c \<ge> length (sndBuf c) \<or> snd_wnd c \<noteq> 0")
  case False
  assume c: "dataInv c"
  let ?p = "[sndBuf c ! inflight c]"
  have p: "?p = take 1 (drop (inflight c) (sndBuf c))"
    using False by (simp add: take_Suc hd_drop_conv_nth)
  obtain t where q: "retxQueue (sendData c (FlagPSH OR FlagACK) (snd_nxt c) (rcv_nxt c) ?p) =
      retxQueue c @ [\<lparr>rsSeq = snd_nxt c, rsFlags = FlagPSH OR FlagACK, rsPayload = ?p,
        rsSentAt = t, rsRetries = 0, rsRetransmitted = False\<rparr>]"
    by (rule sendData_psh_queue [of ?p]) simp_all
  show ?thesis
    by (rule dataInv_extend [OF c, of _ 1 "\<lparr>rsSeq = snd_nxt c, rsFlags = FlagPSH OR FlagACK,
        rsPayload = ?p, rsSentAt = t, rsRetries = 0, rsRetransmitted = False\<rparr>"])
      (use False p [symmetric] in \<open>simp_all add: probePersist_def Let_def q\<close>)
qed (simp add: probePersist_def)

subsection \<open>Acknowledgements and retransmissions\<close>

lemma restOf_restamp:
  "restOf una q nxt bs \<Longrightarrow> q = s # r \<Longrightarrow> rsSeq s' = rsSeq s \<Longrightarrow> rsFlags s' = rsFlags s \<Longrightarrow>
     rsPayload s' = rsPayload s \<Longrightarrow> restOf una (s' # r) nxt bs"
  by (auto simp: restOf_def)

lemma ackRetxQueue_rest:
  assumes "restOf una (unacked ack (retxQueue c)) nxt bs"
  shows "restOf una (retxQueue (ackRetxQueue c ack)) nxt bs"
proof -
  obtain t where t: "retxQueue (ackRetxQueue c ack) =
      (case unacked ack (retxQueue c) of [] \<Rightarrow> [] | s # q \<Rightarrow> s\<lparr>rsSentAt := t\<rparr> # q)"
    using ackRetxQueue_queue by blast
  show ?thesis
  proof (cases "unacked ack (retxQueue c)")
    case Nil
    then show ?thesis using assms t by simp
  next
    case (Cons s q)
    then show ?thesis using restOf_restamp [OF assms Cons, of "s\<lparr>rsSentAt := t\<rparr>"] t by simp
  qed
qed

lemma newAck_queue:
  "retxQueue (newAck c h) = retxQueue (ackRetxQueue (c\<lparr>snd_una := AckNum h\<rparr>) (AckNum h))"
  "sndBuf (newAck c h) = drop (dist (snd_una c) (AckNum h)) (sndBuf c)"
  "snd_iss (newAck c h) = snd_iss c"
  by (simp_all add: newAck_def releaseAckedSend_def Let_def dist_def)

lemma dataInv_newAck:
  assumes c: "dataInv c" and a: "AcceptableAck (snd_una c) (AckNum h) (snd_nxt c)"
  shows "dataInv (newAck c h)"
proof -
  let ?a = "AckNum h" and ?d = "dist (snd_una c) (AckNum h)"
  obtain k where k: "chain (snd_una c - of_nat k) (retxQueue c) (snd_nxt c)"
    "drop k (bytesOf (retxQueue c)) = take (inflight c) (sndBuf c)" "k \<le> length (bytesOf (retxQueue c))"
    and hd: "if retxQueue c = [] then k = 0 else k < length (rsPayload (hd (retxQueue c)))"
    using c by (auto simp: dataInv_def restOf_def)
  have b: "inflight c \<le> length (sndBuf c)" "length (sndBuf c) < 1073741824"
    using c by (simp_all add: dataInv_def)
  have d: "0 < ?d" "?d \<le> inflight c"
    using a AcceptableAck_inside [of "snd_una c" "snd_nxt c" ?a] b by (auto simp: inflight_dist)
  have len: "length (bytesOf (retxQueue c)) = k + inflight c"
    using arg_cong [OF k(2), of length] k(3) b(1) by simp
  have "k < 1361" using hd k(1) by (cases "retxQueue c") auto
  then have small: "k + inflight c < 2147483648" using b by linarith
  have una: "?a = (snd_una c - of_nat k) + of_nat (k + ?d)"
    using add_dist [of "snd_una c" ?a] by simp
  have "restOf ?a (unacked ?a (retxQueue c)) (snd_nxt c) (drop (k + ?d) (bytesOf (retxQueue c)))"
    by (subst (1 2) una, rule unacked_rest [OF k(1)]) (use len d small in simp_all)
  moreover have "drop (k + ?d) (bytesOf (retxQueue c)) = drop ?d (take (inflight c) (sndBuf c))"
    by (simp add: k(2) [symmetric] add.commute)
  moreover have fl: "inflight (newAck c h) = inflight c - ?d"
    using dist_between [of "snd_una c" ?a "snd_nxt c"] d(2) by (simp add: inflight_dist)
  ultimately have "restOf ?a (unacked ?a (retxQueue c)) (snd_nxt c)
      (take (inflight (newAck c h)) (sndBuf (newAck c h)))"
    by (simp add: newAck_queue drop_take)
  then have "restOf ?a (retxQueue (newAck c h)) (snd_nxt c)
      (take (inflight (newAck c h)) (sndBuf (newAck c h)))"
    unfolding newAck_queue(1) by (intro ackRetxQueue_rest) simp
  moreover have "inflight c - ?d \<le> length (sndBuf c) - ?d" "length (sndBuf c) - ?d < 1073741824"
    using b by linarith+
  ultimately show ?thesis using fl by (simp add: dataInv_def newAck_queue(2))
qed

lemma checkRetransmit_queue:
  "state (checkRetransmit c) = Closed \<and> retxQueue (checkRetransmit c) = [] \<or>
   retxQueue (checkRetransmit c) = retxQueue c \<or>
   (\<exists>s q s'. retxQueue c = s # q \<and> retxQueue (checkRetransmit c) = s' # q \<and> rsSeq s' = rsSeq s \<and>
      rsFlags s' = rsFlags s \<and> rsPayload s' = rsPayload s)"
  by (auto simp: checkRetransmit_def Let_def split: list.splits)

lemma fastRetransmit_queue:
  "retxQueue (fastRetransmit c) = retxQueue c \<or>
   (\<exists>s q s'. retxQueue c = s # q \<and> retxQueue (fastRetransmit c) = s' # q \<and> rsSeq s' = rsSeq s \<and>
      rsFlags s' = rsFlags s \<and> rsPayload s' = rsPayload s)"
  by (auto simp: fastRetransmit_def Let_def split: list.splits)

text \<open>Both invariants survive a new stamp on the head of the queue.\<close>

lemma dataInv_restamp:
  assumes "dataInv c" "snd_una d = snd_una c" "snd_nxt d = snd_nxt c" "sndBuf d = sndBuf c"
    and "retxQueue d = retxQueue c \<or>
      (\<exists>s q s'. retxQueue c = s # q \<and> retxQueue d = s' # q \<and> rsSeq s' = rsSeq s \<and>
        rsFlags s' = rsFlags s \<and> rsPayload s' = rsPayload s)"
  shows "dataInv d"
proof -
  have "restOf (snd_una c) (retxQueue d) (snd_nxt c) (take (inflight c) (sndBuf c))"
    using assms(1,5) restOf_restamp by (auto simp: dataInv_def)
  then show ?thesis using assms by (simp add: dataInv_def inflight_def)
qed

lemma preInv_restamp:
  assumes "preInv c" "state d = state c" "snd_una d = snd_una c" "snd_nxt d = snd_nxt c"
    "sndBuf d = sndBuf c" "snd_iss d = snd_iss c"
    and "retxQueue d = retxQueue c \<or>
      (\<exists>s q s'. retxQueue c = s # q \<and> retxQueue d = s' # q \<and> rsSeq s' = rsSeq s \<and>
        rsFlags s' = rsFlags s \<and> rsPayload s' = rsPayload s)"
  shows "preInv d"
  using assms by (auto simp: preInv_def synSeg_def seqLen_def)

lemma sendInv_retransmit: "sendInv c \<Longrightarrow> sendInv (checkRetransmit c)"
proof -
  assume c: "sendInv c"
  show ?thesis
  proof (cases "state (checkRetransmit c) = Closed")
    case True
    then show ?thesis by (intro sendInv_other) simp
  next
    case False
    then have st: "state (checkRetransmit c) = state c" using checkRetransmit_state [of c] by simp
    have q: "retxQueue (checkRetransmit c) = retxQueue c \<or>
      (\<exists>s q s'. retxQueue c = s # q \<and> retxQueue (checkRetransmit c) = s' # q \<and>
        rsSeq s' = rsSeq s \<and> rsFlags s' = rsFlags s \<and> rsPayload s' = rsPayload s)"
      using checkRetransmit_queue [of c] False by blast
    show ?thesis
      using c dataInv_restamp [OF _ _ _ _ q] preInv_restamp [OF _ _ _ _ _ _ q] st
      by (simp add: sendInv_def)
  qed
qed

lemma dataInv_dup: "dataInv c \<Longrightarrow> dataInv (onDuplicateAck c h)"
proof -
  assume c: "dataInv c"
  have k: "dataInv (c\<lparr>cong := k\<rparr>)" for k
    using c dataInv_view [of "c\<lparr>cong := k\<rparr>" c] by (simp add: sendView_def)
  have "dataInv (fastRetransmit (c\<lparr>cong := k\<rparr>))" for k
    by (rule dataInv_restamp [OF k [of k] _ _ _ fastRetransmit_queue]) simp_all
  then show ?thesis using c k by (simp add: onDuplicateAck_def Let_def)
qed

subsection \<open>The handshake\<close>

lemma preInv_ack:
  assumes p: "preInv c" and st: "state c \<noteq> Listen"
    and a: "AcceptableAck (snd_una c) (AckNum h) (snd_nxt c)"
  shows "dataInv (newAck c h)"
proof -
  have i: "sndBuf c = []" "snd_una c = snd_iss c" "snd_nxt c = snd_iss c + 1"
    "\<forall>r\<in>set (retxQueue c). synSeg (snd_iss c) r"
    using p st by (simp_all add: preInv_def)
  have one: "dist (snd_iss c) (snd_iss c + 1) = 1" by (simp add: dist_def)
  have "0 < dist (snd_iss c) (AckNum h)" "dist (snd_iss c) (AckNum h) \<le> 1"
    using a AcceptableAck_inside [of "snd_iss c" "snd_iss c + 1" "AckNum h"] one
    unfolding i(2,3) by auto
  then have "dist (snd_iss c) (AckNum h) = 1" by linarith
  then have ack: "AckNum h = snd_iss c + 1" using add_dist [of "snd_iss c" "AckNum h"] by simp
  have "unacked (snd_iss c + 1) q = []" if "\<forall>r\<in>set q. synSeg (snd_iss c) r" for q
    using that by (induction q) (auto simp: synSeg_def)
  then have u: "unacked (AckNum h) (retxQueue c) = []" unfolding ack using i(4) by blast
  obtain t where "retxQueue (ackRetxQueue (c\<lparr>snd_una := AckNum h\<rparr>) (AckNum h)) =
      (case unacked (AckNum h) (retxQueue (c\<lparr>snd_una := AckNum h\<rparr>)) of
         [] \<Rightarrow> [] | s # q \<Rightarrow> s\<lparr>rsSentAt := t\<rparr> # q)"
    using ackRetxQueue_queue by blast
  then have q: "retxQueue (newAck c h) = []" using u by (simp add: newAck_queue)
  have "inflight (newAck c h) = 0"
    by (simp add: inflight_def ack i(3))
  then show ?thesis using q by (simp add: dataInv_def restOf_def newAck_queue i ack)
qed

lemma synSent_ack:
  assumes "snd_nxt c = snd_iss c + 1" "ackOfSyn c h"
  shows "AckNum h = snd_iss c + 1"
proof -
  let ?d = "dist (snd_iss c) (AckNum h)"
  have a: "\<not> SeqLEQ (AckNum h) (snd_iss c)" "\<not> SeqGT (AckNum h) (snd_iss c + 1)"
    using assms by (simp_all add: ackOfSyn_def)
  have ne: "snd_iss c \<noteq> AckNum h" using a(1) by auto
  then have pos: "0 < ?d" by (simp add: dist_gt_0_iff)
  have "dist (AckNum h) (snd_iss c) = 4294967296 - ?d" by (rule dist_rev [OF ne])
  then have le: "?d \<le> 2147483648" using a(1) dist_less [of "snd_iss c" "AckNum h"]
    by (simp add: SeqLEQ_dist)
  have "dist (snd_iss c + 1) (AckNum h) = ?d - 1"
    using dist_between [of "snd_iss c" "snd_iss c + 1" "AckNum h"] pos by (simp add: dist_def)
  then have "\<not> (0 < ?d - 1 \<and> ?d - 1 < 2147483648)"
    using a(2) by (simp add: SeqGT_def SeqLT_dist)
  then have "?d = 1" using pos le by linarith
  then show ?thesis using add_dist [of "snd_iss c" "AckNum h"] by simp
qed

lemma sendView_simps [simp]:
  "sendView (sendAck c) = sendView c" "sendView (sendChallengeAck c) = sendView c"
  "sendView (sendRst c s) = sendView c" "sendView (restartTimeWait c) = sendView c"
  "sendView (tick c) = sendView c" "sendView (acceptText c h p) = sendView c"
  "sendView (handleFin c h) = sendView c" "sendView (updateSendWindow c h) = sendView c"
  "sendView (advanceStateOnAck c h) = sendView c"
  "sendView (sampleRTTFromTimestamp c x) = sendView c" "sendView (checkTimeWait c) = sendView c"
  "sendView (fireDelayedAck c) = sendView c" "sendView (snd (Recv c n)) = sendView c"
  "sendView (c\<lparr>tsRecent := x\<rparr>) = sendView c" "sendView (c\<lparr>state := y\<rparr>) = sendView c"
  by (simp_all add: sendView_def fireDelayedAck_def sendDelayedAck_def)

lemma sendView_textAndFin [simp]: "sendView (textAndFin c h p) = sendView c"
  by (simp add: textAndFin_def Let_def)

lemma dataInv_ackCore:
  assumes "dataInv c \<or> (preInv c \<and> state c = SynReceived)" "ackAccepted c h"
  shows "dataInv (ackCore c h p)"
proof -
  let ?m = "if AcceptableAck (snd_una c) (AckNum h) (snd_nxt c) then newAck c h
    else if isDupAck c h p then onDuplicateAck c h else c"
  have "dataInv ?m"
    using assms dataInv_newAck [of c h] preInv_ack [of c h] dataInv_dup [of c h]
    by (auto simp: ackAccepted_def)
  then show ?thesis
    unfolding ackCore_def using dataInv_view [of "updateSendWindow ?m h" ?m] by simp
qed

lemma sendInv_handleAck:
  assumes "sendInv c" "state c \<notin> {Closed, Listen, SynSent}"
  shows "sendInv (snd (handleAck c h p))"
proof (cases "ackAccepted c h")
  case False
  then have "sendView (snd (handleAck c h p)) = sendView c \<and> state (snd (handleAck c h p)) = state c"
    by (simp add: handleAck_snd)
  then show ?thesis using sendInv_view [of "snd (handleAck c h p)" c] assms(1) by simp
next
  case True
  let ?d = "snd (handleAck c h p)"
  have st: "state ?d = ackNext (finNow c h) (state c)" using True by (simp add: handleAck_state)
  show ?thesis
  proof (cases "state c \<in> {SynReceived, Established, CloseWait}")
    case True
    then have "dataInv c \<or> (preInv c \<and> state c = SynReceived)"
      using assms(1) by (auto simp: sendInv_def)
    then have "dataInv (ackCore c h p)" by (rule dataInv_ackCore [OF _ \<open>ackAccepted c h\<close>])
    then have "dataInv (advanceStateOnAck (ackCore c h p) h)"
      using dataInv_view [of "advanceStateOnAck (ackCore c h p) h" "ackCore c h p"] by simp
    then have "dataInv ?d" using \<open>ackAccepted c h\<close> by (simp add: handleAck_snd dataInv_flush)
    then show ?thesis using st True by (auto simp: sendInv_def ackNext_def)
  next
    case False
    then show ?thesis
      using st assms(2) by (intro sendInv_other) (cases "state c"; simp add: ackNext_def)
  qed
qed

lemma sendInv_textAndFin:
  assumes "sendInv c" "state c \<notin> {Listen, SynSent, SynReceived}"
  shows "sendInv (textAndFin c h p)"
proof -
  have v: "sendView (textAndFin c h p) = sendView c" by simp
  have "state (textAndFin c h p) \<in> {state c, finNext (finAcked c) (state c)}"
    by (auto simp: textAndFin_state Let_def)
  then show ?thesis
    using assms dataInv_view [OF v]
    by (cases "state c") (auto simp: sendInv_def finNext_def split: if_splits)
qed

lemma sendInv_ackTextFin:
  assumes "sendInv c" "state c \<notin> {Closed, Listen, SynSent}"
  shows "sendInv (ackTextFin c h p)"
proof -
  let ?t = "if tsOK c \<and> HasTimestamp (segOptions h)
    then c\<lparr>tsRecent := tsRecentUpdate (tsRecent c) (TSVal (segOptions h)) (SeqNum h) (lastAckSent c)\<rparr>
    else c"
  let ?c = "if tsOK ?t \<and> HasTimestamp (segOptions h) \<and> TSecr (segOptions h) \<noteq> 0
    then sampleRTTFromTimestamp ?t (TSecr (segOptions h)) else ?t"
  let ?d = "snd (handleAck ?c h p)"
  have t: "sendView ?t = sendView c" "state ?t = state c" by simp_all
  have c: "sendView ?c = sendView c" "state ?c = state c" by simp_all
  have it: "sendInv ?t" using sendInv_view [OF t] assms(1) by blast
  have ic: "sendInv ?c" using sendInv_view [OF c] assms(1) by blast
  have d: "sendInv ?d" by (rule sendInv_handleAck [OF ic]) (use assms(2) c(2) in simp)
  have "sendInv (textAndFin ?d h p)" if "ackAccepted ?c h"
  proof (rule sendInv_textAndFin [OF d])
    have "state ?d = ackNext (finNow ?c h) (state ?c)" using that by (simp add: handleAck_state)
    then show "state ?d \<notin> {Listen, SynSent, SynReceived}"
      using assms(2) c(2) by (cases "state c") (simp_all add: ackNext_def)
  qed
  then show ?thesis
    using it d by (simp add: ackTextFin_def Let_def case_prod_unfold split del: if_split split: if_split)
qed

lemma sendInv_synchronized:
  assumes "sendInv c" "state c \<notin> {Closed, Listen, SynSent}"
  shows "sendInv (onSegmentSynchronized c h p)"
proof -
  have v: "sendInv d" if "sendView d = sendView c" "state d = state c" for d
    using sendInv_view [OF that] assms(1) by blast
  have r: "sendInv (resetConnection c)"
  proof (cases "state c = SynReceived \<and> origin c = OriginPassive")
    case True
    then show ?thesis using assms(1) by (simp add: sendInv_def preInv_def resetConnection_def)
  next
    case False
    then show ?thesis by (intro sendInv_other) (auto simp: resetConnection_def)
  qed
  have "sendInv (handleRst c h)"
    using r v [of "sendChallengeAck c"] assms(1) by (simp add: handleRst_def)
  moreover have "sendInv (sendAck c)" "sendInv (sendChallengeAck c)"
    "sendInv (restartTimeWait (sendAck c))" by (rule v; simp)+
  ultimately show ?thesis
    using sendInv_ackTextFin [OF assms] by (simp add: onSegmentSynchronized_def Let_def)
qed

lemma preInv_syn:
  assumes "sndBuf c = []" "\<forall>r\<in>set (retxQueue c). synSeg (snd_iss c) r"
    and "snd_una c = snd_iss c" "snd_nxt c = snd_iss c + 1" "Has f FlagSYN" "\<not> Has f FlagFIN"
  shows "preInv (sendSyn c f (snd_iss c) a)"
  using sendSyn_queue [of c f "snd_iss c" a] assms by (auto simp: preInv_def synSeg_def seqLen_def)

lemma sendInv_listen:
  assumes "sendInv c" "state c = Listen"
  shows "sendInv (onSegmentListen c h)"
proof -
  let ?n = "initSendWindow (negotiateFrom (c\<lparr>rcv_irs := SeqNum h, rcv_nxt := SeqNum h + 1,
      snd_una := snd_iss c, snd_nxt := snd_iss c + 1, origin := OriginPassive,
      state := SynReceived\<rparr>) h) h"
  have p: "sndBuf c = []" "\<forall>r\<in>set (retxQueue c). synSeg (snd_iss c) r"
    using assms by (simp_all add: sendInv_def preInv_def)
  have "preInv (sendSyn ?n (FlagSYN OR FlagACK) (snd_iss ?n) (rcv_nxt ?n))"
    by (rule preInv_syn) (use p in \<open>simp_all add: Has_or\<close>)
  then have "sendInv (sendSyn ?n (FlagSYN OR FlagACK) (snd_iss ?n) (rcv_nxt ?n))"
    by (simp add: sendInv_def)
  moreover have "sendInv (sendRst c x)" for x
    using sendInv_view [of "sendRst c x" c] assms by simp
  ultimately show ?thesis using assms(1) by (simp add: onSegmentListen_def Let_def)
qed

lemma sendInv_synSent:
  assumes "sendInv c" "state c = SynSent"
  shows "sendInv (onSegmentSynSent c h)"
proof -
  let ?n = "negotiateFrom (c\<lparr>rcv_irs := SeqNum h, rcv_nxt := SeqNum h + 1\<rparr>) h"
  have p: "sndBuf c = []" "\<forall>r\<in>set (retxQueue c). synSeg (snd_iss c) r" "snd_una c = snd_iss c"
    "snd_nxt c = snd_iss c + 1"
    using assms by (simp_all add: sendInv_def preInv_def)
  have rst: "sendInv (sendRst c x)" for x
    using sendInv_view [of "sendRst c x" c] assms(1) by simp
  let ?s = "?n\<lparr>origin := OriginActive, state := SynReceived\<rparr>"
  have "preInv (sendSyn ?s (FlagSYN OR FlagACK) (snd_iss ?s) (rcv_nxt ?s))"
    by (rule preInv_syn) (use p in \<open>simp_all add: Has_or\<close>)
  then have syn: "sendInv (sendSyn ?s (FlagSYN OR FlagACK) (snd_iss ?s) (rcv_nxt ?s))"
    by (simp add: sendInv_def)
  let ?a = "ackRetxQueue (?n\<lparr>snd_una := AckNum h\<rparr>) (AckNum h)"
  let ?e = "(initSendWindow ?a h)\<lparr>state := Established, reachedEstablished := True\<rparr>"
  have est: "sendInv (sendAck ?e)" if a: "ackOfSyn c h"
  proof -
    have ack: "AckNum h = snd_iss c + 1" by (rule synSent_ack [OF p(4) a])
    have "unacked (snd_iss c + 1) q = []" if "\<forall>r\<in>set q. synSeg (snd_iss c) r" for q
      using that by (induction q) (auto simp: synSeg_def)
    then have u: "unacked (AckNum h) (retxQueue c) = []" unfolding ack using p(2) by blast
    obtain t where "retxQueue ?a = (case unacked (AckNum h) (retxQueue (?n\<lparr>snd_una := AckNum h\<rparr>)) of
        [] \<Rightarrow> [] | s # q \<Rightarrow> s\<lparr>rsSentAt := t\<rparr> # q)"
      using ackRetxQueue_queue by blast
    then have "retxQueue ?a = []" using u by simp
    then have "dataInv ?e" by (simp add: dataInv_def restOf_def inflight_def p ack)
    then have "dataInv (sendAck ?e)" using dataInv_view [of "sendAck ?e" ?e] by simp
    then show ?thesis by (simp add: sendInv_def)
  qed
  have z: "sendInv (c\<lparr>state := Closed\<rparr>)" by (rule sendInv_other) simp
  show ?thesis
    using assms(1) rst syn est z unfolding onSegmentSynSent_def Let_def ackOfSyn_def
    by (simp split del: if_split split: if_split)
qed

lemma sendInv_segment:
  assumes "sendInv c"
  shows "sendInv (onSegment c h p)"
proof -
  let ?d = "tick (c\<lparr>lastRecvTime := now c, keepaliveProbes := 0\<rparr>)"
  have "sendView ?d = sendView c" by (simp add: sendView_def)
  then have d: "sendInv ?d" using sendInv_view [of ?d c] assms by simp
  show ?thesis
  proof (cases "state ?d \<in> {Closed, Listen, SynSent}")
    case False
    then have "onSegment c h p = onSegmentSynchronized ?d h p"
      by (simp add: onSegment_def Let_def split: State.splits)
    with sendInv_synchronized [OF d False] show ?thesis by simp
  next
    case True
    then consider "state ?d = Closed" | "state ?d = Listen" | "state ?d = SynSent" by blast
    then show ?thesis
    proof cases
      case 1
      then show ?thesis by (intro sendInv_other) (simp add: onSegment_def Let_def)
    qed (use sendInv_listen [OF d] sendInv_synSent [OF d] in \<open>simp_all add: onSegment_def Let_def\<close>)
  qed
qed

subsection \<open>Timers and user calls\<close>

lemma preInv_flow:
  assumes "preInv c"
  shows "sendView (checkFlowTimers c) = sendView c"
proof -
  have b: "sndBuf c = []" using assms by (simp add: preInv_def)
  have pp: "probePersist d = d" if "sndBuf d = []" for d
    using that by (simp add: probePersist_def)
  have fo: "fireOverride d = disarmOverride d" if "sndBuf d = []" for d
    using that by (simp add: fireOverride_def)
  have "sendView (disarmOverride d) = sendView d" for d by (simp add: sendView_def)
  then show ?thesis using b pp fo by (simp add: checkFlowTimers_def Let_def)
qed

lemma dataInv_flow: "dataInv c \<Longrightarrow> dataInv (checkFlowTimers c)"
proof -
  assume c: "dataInv c"
  have t: "dataInv (tick d)" if "dataInv d" for d using dataInv_view [of "tick d" d] that by simp
  have f: "dataInv (fireDelayedAck d)" if "dataInv d" for d
    using dataInv_view [of "fireDelayedAck d" d] that by simp
  show ?thesis using c by (simp add: checkFlowTimers_def Let_def t f dataInv_probe dataInv_override)
qed

lemma sendInv_flow: "sendInv c \<Longrightarrow> sendInv (checkFlowTimers c)"
  using dataInv_flow [of c] preInv_flow [of c] preInv_view [of "checkFlowTimers c" c]
  by (auto simp: sendInv_def)

lemma sendInv_tick:
  assumes "sendInv c"
  shows "sendInv (Tick c)"
proof -
  have "sendInv (checkTimeWait c)"
    using checkTimeWait_state [of c] sendInv_view [of "checkTimeWait c" c] assms
      sendInv_other [of "checkTimeWait c"] by auto
  then have f: "sendInv (checkFlowTimers (checkRetransmit (checkTimeWait c)))"
    by (intro sendInv_flow sendInv_retransmit)
  let ?f = "checkFlowTimers (checkRetransmit (checkTimeWait c))"
  have "state (checkKeepAlive ?f) = Closed \<or> sendView (checkKeepAlive ?f) = sendView ?f"
    by (simp add: checkKeepAlive_def Let_def sendView_def)
  then show ?thesis
    using checkKeepAlive_state [of ?f] f sendInv_view [of "checkKeepAlive ?f" ?f]
      sendInv_other [of "checkKeepAlive ?f"] by (auto simp: Tick_def)
qed

lemma sendInv_close: "sendInv c \<Longrightarrow> sendInv (Close c)"
  using Close_state [of c]
  by (cases "state c") (auto simp: sendInv_def Close_def Let_def)

lemma sendInv_send:
  assumes "sendInv c" "length (sndBuf c) + length d < 1073741824"
  shows "sendInv (snd (Send c d))"
proof (cases "state c \<in> {Established, CloseWait}")
  case True
  then have c: "dataInv c" using assms(1) by (auto simp: sendInv_def)
  then have "dataInv (c\<lparr>sndBuf := sndBuf c @ d\<rparr>)"
    using assms(2) by (simp add: dataInv_def inflight_def)
  then have "dataInv (flushSend (c\<lparr>sndBuf := sndBuf c @ d\<rparr>))" by (rule dataInv_flush)
  with True show ?thesis by (auto simp: Send_def sendInv_def)
next
  case False
  then show ?thesis using assms(1) by (simp add: Send_def)
qed

text \<open>The application keeps less than 2^30 bytes unacknowledged.\<close>

definition pacedEvent :: "Conn \<Rightarrow> ConnEvent \<Rightarrow> bool" where
  "pacedEvent c e = (case e of EvSend d \<Rightarrow> length (sndBuf c) + length d < 1073741824 | _ \<Rightarrow> True)"

lemma sendInv_step:
  assumes "sendInv c" "pacedEvent c e"
  shows "sendInv (connStep c e)"
proof -
  have v: "sendInv d" if "sendView d = sendView c" "state d = state c" for d
    using sendInv_view [OF that] assms(1) by blast
  show ?thesis
  proof (cases e)
    case (EvRecv n) then show ?thesis by (simp add: v)
  next
    case (EvNoDelay b) then show ?thesis by (simp, intro v) (simp_all add: SetNoDelay_def sendView_def)
  next
    case (EvRcvBuffer n) then show ?thesis
      by (simp, intro v) (simp_all add: SetRcvBuffer_def sendView_def Let_def)
  next
    case (EvKeepAlive b x) then show ?thesis
      by (simp, intro v) (simp_all add: SetKeepAlive_def sendView_def Let_def)
  next
    case (EvMSL x) then show ?thesis by (simp, intro v) (simp_all add: SetMSL_def sendView_def)
  next
    case (EvCwnd n) then show ?thesis by (simp, intro v) (simp_all add: SetCwnd_def sendView_def)
  qed (use assms in \<open>simp_all add: sendInv_segment sendInv_tick sendInv_close sendInv_send pacedEvent_def\<close>)
qed

inductive paced :: "Conn \<Rightarrow> bool" where
  dialled: "configured c \<Longrightarrow> paced (ActiveOpen c iss)"
| listening: "configured c \<Longrightarrow> paced (openPassive c iss)"
| step: "paced c \<Longrightarrow> pacedEvent c e \<Longrightarrow> paced (connStep c e)"

lemma sendInv_open:
  assumes "configured c"
  shows "sendInv (ActiveOpen c iss)" "sendInv (openPassive c iss)"
proof -
  note b = configured_blank [OF assms]
  let ?c = "c\<lparr>snd_iss := iss, snd_una := iss, snd_nxt := iss + 1,
    rcv_wnd := initialRcvWindow c, state := SynSent\<rparr>"
  have "preInv (sendSyn ?c FlagSYN (snd_iss ?c) 0)"
    by (rule preInv_syn) (simp_all add: b)
  then show "sendInv (ActiveOpen c iss)" by (simp add: sendInv_def ActiveOpen_def Let_def)
  show "sendInv (openPassive c iss)"
    using b by (simp add: sendInv_def preInv_def openPassive_def PassiveOpen_def)
qed

lemma sendInv_paced: "paced c \<Longrightarrow> sendInv c"
  by (induction rule: paced.induct) (simp_all add: sendInv_open sendInv_step)

section \<open>Properties\<close>

text \<open>
  C7: what \<open>Close\<close> does with text that is still queued. In ESTABLISHED and
  CLOSE-WAIT, with fewer bytes in flight than buffered, the FIN takes the sequence number of
  the first unsent byte, and SND.NXT moves past it while the buffer stays:
  \<open>flushSend\<close> takes its next text at the offset \<open>inflight\<close> of the
  buffer, now one byte further on, so the byte under the FIN is not sent. The stream
  property above therefore asks that \<open>Close\<close> comes after everything queued has
  been sent.
\<close>

theorem close_overtakes_unsent_data:
  assumes "state c = Established \<or> state c = CloseWait"
    and "inflight c < length (sndBuf c)" "length (sndBuf c) < 4294967295"
  shows "let d = Close c; fin = last (retxQueue d) in
    Has (rsFlags fin) FlagFIN \<and> rsPayload fin = [] \<and> rsSeq fin = snd_una c + of_nat (inflight c) \<and>
    sndBuf d = sndBuf c \<and> inflight d = Suc (inflight c)"
proof -
  have f: "last (retxQueue (Close c)) = \<lparr>rsSeq = snd_nxt c, rsFlags = FlagFIN OR FlagACK, rsPayload = [],
      rsSentAt = rsSentAt (last (retxQueue (Close c))), rsRetries = 0, rsRetransmitted = False\<rparr>"
    using assms(1) by (auto simp: Close_def send_def sendData_def enqueueRetx_def seqLen_def Has_or Let_def)
  have d: "sndBuf (Close c) = sndBuf c" "snd_nxt (Close c) = snd_nxt c + 1" "snd_una (Close c) = snd_una c"
    using assms(1) by (auto simp: Close_def Let_def)
  have "inflight (Close c) = Suc (inflight c)"
  proof -
    have e: "snd_nxt c + 1 - snd_una c = (snd_nxt c - snd_una c) + 1" by simp
    show ?thesis using assms(2,3) unfolding inflight_def d e by (simp add: unat_word_ariths)
  qed
  moreover have "rsSeq (last (retxQueue (Close c))) = snd_una c + of_nat (inflight c)"
    by (subst f) (simp add: inflight_def)
  ultimately show ?thesis
    using d f by (metis (no_types, lifting) Has_or Has_flag retxSeg.select_convs(2,3))
qed

theorem close_overtakes_unsent_data_witness:
  "let c = demoConn\<lparr>state := Established, snd_una := 101, snd_nxt := 103, sndBuf := [1, 2, 3, 4]\<rparr> in
    rsSeq (last (retxQueue (Close c))) = 103 \<and> inflight (Close c) = 3"
proof -
  let ?c = "demoConn\<lparr>state := Established, snd_una := 101, snd_nxt := 103, sndBuf := [1, 2, 3, 4]\<rparr>"
  show ?thesis
    using close_overtakes_unsent_data [of ?c] by (simp add: Let_def inflight_def)
qed

text \<open>
  C15: retransmissions carry the application's bytes. In every run in which less than 2^30
  bytes are unacknowledged at a time, while the connection is in ESTABLISHED or CLOSE-WAIT
  the retransmission queue is a gapless chain of data segments that ends at SND.NXT, and
  what of it lies beyond SND.UNA is byte for byte the front of the send buffer.
\<close>

theorem queue_is_unacked_stream:
  assumes "paced c" "state c \<in> {Established, CloseWait}"
  shows "restOf (snd_una c) (retxQueue c) (snd_nxt c) (take (inflight c) (sndBuf c)) \<and>
    inflight c \<le> length (sndBuf c)"
  using sendInv_paced [OF assms(1)] assms(2) by (auto simp: sendInv_def dataInv_def)

theorem queue_is_unacked_stream_witness:
  "let c = connStep (ActiveOpen demoConn 100) (EvSegment (demoHeader (FlagSYN OR FlagACK) 500 101) [])
   in restOf (snd_una c) (retxQueue c) (snd_nxt c) (take (inflight c) (sndBuf c))"
proof -
  let ?h = "demoHeader (FlagSYN OR FlagACK) 500 101"
  let ?c = "connStep (ActiveOpen demoConn 100) (EvSegment ?h [])"
  have "paced ?c"
    unfolding demoConn_def
    by (rule paced.step [OF paced.dialled [OF configured.new]]) (simp add: pacedEvent_def)
  moreover have "state ?c = Established"
    by (simp add: ActiveOpen_def demoHeader_def onSegment_def onSegmentSynSent_def SeqLEQ_def SeqLT_def
        SeqGT_def halfSeqSpace_def Let_def Has_or)
  ultimately show ?thesis using queue_is_unacked_stream [of ?c] by (simp add: Let_def)
qed

end
