(* ===== verification/Tcp_Invariants.thy ===== *)
theory Tcp_Invariants
  imports Tcp_SendStream "HOL-Library.Sublist"
begin

unbundle bit_operations_syntax

section \<open>Invariants of the wire\<close>

text \<open>
  The interface between the state machine and the code that writes segments: an invariant of
  what is on the wire and in the retransmission queue has to survive \<open>writeSegOpts\<close> and a
  queue of segments that \<open>ok\<close> admits, and may not look at anything else but RCV.NXT. \<open>ok\<close> judges
  flags, sequence number and payload of a segment, \<open>okA\<close> RCV.NXT and the acknowledgement number of a
  segment that is no RST; \<open>feeds\<close> says that \<open>ok\<close> admits every segment that can be cut from the
  send buffer. The locale proves once that such an invariant holds through every operation of
  the connection. It is interpreted by \<open>wireOk\<close> (every packet written is one the peer's receive
  path accepts), by the order of the output (what was written stays written), in the theory
  \<open>Tcp_Transfer\<close> by the invariant that all text on the wire is the application's, and in
  \<open>Tcp_Reliable\<close> by the range of the acknowledgement numbers.
\<close>

type_synonym segFilter = "Flags \<Rightarrow> u32 \<Rightarrow> byte list \<Rightarrow> bool"

definition fits :: "segFilter \<Rightarrow> retxSeg \<Rightarrow> bool" where
  "fits ok r \<longleftrightarrow> length (rsPayload r) \<le> wireLimit \<and> ok (rsFlags r) (rsSeq r) (rsPayload r)"

definition feeds :: "segFilter \<Rightarrow> Conn \<Rightarrow> bool" where
  "feeds ok c \<longleftrightarrow> (\<forall>off n. 0 < n \<longrightarrow> off + n \<le> length (sndBuf c) \<longrightarrow>
     ok (FlagPSH OR FlagACK) (snd_una c + of_nat off) (take n (drop off (sndBuf c))))"

lemma feeds_cong: "sndBuf d = sndBuf c \<Longrightarrow> snd_una d = snd_una c \<Longrightarrow> feeds ok d = feeds ok c"
  by (simp add: feeds_def)

lemma feeds_Nil: "sndBuf c = [] \<Longrightarrow> feeds ok c"
  by (simp add: feeds_def)

lemma feeds_True [simp]: "feeds (\<lambda>_ _ _. True) c"
  by (simp add: feeds_def)

lemma snd_nxt_inflight: "snd_nxt c = snd_una c + of_nat (inflight c)"
  by (simp add: inflight_def)

lemma feeds_next:
  assumes "feeds ok c" "0 < n" "inflight c + n \<le> length (sndBuf c)"
  shows "ok (FlagPSH OR FlagACK) (snd_nxt c) (take n (drop (inflight c) (sndBuf c)))"
  using assms unfolding snd_nxt_inflight [of c] feeds_def by blast

text \<open>An acknowledgement moves SND.UNA and the front of the buffer alike.\<close>

lemma feeds_newAck: "feeds ok c \<Longrightarrow> feeds ok (newAck c h)"
proof -
  assume f: "feeds ok c"
  let ?d = "dist (snd_una c) (AckNum h)"
  have b: "sndBuf (newAck c h) = drop ?d (sndBuf c)" by (rule newAck_queue)
  have u: "snd_una (newAck c h) + of_nat off = snd_una c + of_nat (?d + off)" for off
    using add_dist [of "snd_una c" "AckNum h"] by (simp add: add.assoc [symmetric])
  have "ok (FlagPSH OR FlagACK) (snd_una c + of_nat (?d + off)) (take n (drop (?d + off) (sndBuf c)))"
    if "0 < n" "off + n \<le> length (sndBuf c) - ?d" for off n
  proof -
    have "?d + off + n \<le> length (sndBuf c)" using that by linarith
    then show ?thesis using f that(1) unfolding feeds_def by blast
  qed
  then show ?thesis unfolding feeds_def b u by (simp add: add.commute)
qed

definition acks :: "(u32 \<Rightarrow> bool) \<Rightarrow> Flags \<Rightarrow> u32 \<Rightarrow> bool" where
  "acks okA f a \<longleftrightarrow> (Has f FlagACK \<and> \<not> Has f FlagRST \<longrightarrow> okA a)"

lemma acks_simps [simp]:
  "acks (\<lambda>_. True) f a" "acks okA FlagRST a" "acks okA (FlagRST OR f) a" "acks okA FlagSYN a"
  "okA a \<Longrightarrow> acks okA f a"
  by (simp_all add: acks_def Has_or)

abbreviation preData :: "State set" where
  "preData \<equiv> {Listen, SynSent, SynReceived}"

text \<open>What the stream that arrives depends on.\<close>

definition recvView ::
  "Conn \<Rightarrow> (byte list \<times> segFragment list \<times> u32 \<times> u32 \<times> u32) \<times> bool \<times> u32" where
  "recvView c = (rcvSide c, peerFin c, rcvBuffTotal c)"

lemma recvView_simps [simp]:
  "recvView (sendAck c) = recvView c" "recvView (sendChallengeAck c) = recvView c"
  "recvView (sendRst c s) = recvView c" "recvView (restartTimeWait c) = recvView c"
  "recvView (snd (handleAck c h p)) = recvView c" "recvView (c\<lparr>tsRecent := x\<rparr>) = recvView c"
  "recvView (sampleRTTFromTimestamp c y) = recvView c" "recvView (resetConnection c) = recvView c"
  "recvView (tick c) = recvView c" "recvView (send c f s a) = recvView c"
  "recvView (c\<lparr>lastRecvTime := t, keepaliveProbes := k\<rparr>) = recvView c"
  by (simp_all add: recvView_def rcvSide_def resetConnection_def)

text \<open>The two ways through the ACK field of a synchronized connection.\<close>

lemma ackTextFin_split:
  obtains (ackless) x where "ackTextFin c h p = c\<lparr>tsRecent := x\<rparr>"
  | (acked) x d where "d = c\<lparr>tsRecent := x\<rparr> \<or> (\<exists>y. d = sampleRTTFromTimestamp (c\<lparr>tsRecent := x\<rparr>) y)"
      "recvView d = recvView c" "state d = state c"
      "ackTextFin c h p = (if ackAccepted d h then textAndFin (snd (handleAck d h p)) h p
        else snd (handleAck d h p))"
proof -
  define x where "x = (if tsOK c \<and> HasTimestamp (segOptions h)
    then tsRecentUpdate (tsRecent c) (TSVal (segOptions h)) (SeqNum h) (lastAckSent c) else tsRecent c)"
  define d where "d = (if tsOK c \<and> HasTimestamp (segOptions h) \<and> TSecr (segOptions h) \<noteq> 0
    then sampleRTTFromTimestamp (c\<lparr>tsRecent := x\<rparr>) (TSecr (segOptions h)) else c\<lparr>tsRecent := x\<rparr>)"
  have t: "(if tsOK c \<and> HasTimestamp (segOptions h)
      then c\<lparr>tsRecent := tsRecentUpdate (tsRecent c) (TSVal (segOptions h)) (SeqNum h) (lastAckSent c)\<rparr>
      else c) = c\<lparr>tsRecent := x\<rparr>" by (simp add: x_def)
  have a: "ackTextFin c h p = (if \<not> Has (HdrFlags h) FlagACK then c\<lparr>tsRecent := x\<rparr>
      else if ackAccepted d h then textAndFin (snd (handleAck d h p)) h p else snd (handleAck d h p))"
    unfolding ackTextFin_def Let_def t by (simp add: d_def case_prod_unfold)
  show thesis
  proof (cases "Has (HdrFlags h) FlagACK")
    case True
    show thesis by (rule acked [of d x]) (use a True in \<open>auto simp: d_def\<close>)
  qed (use a ackless in simp)
qed

text \<open>The values that RCV.NXT takes on the way through a segment.\<close>

definition advances :: "(u32 \<Rightarrow> bool) \<Rightarrow> Conn \<Rightarrow> TCPHeader \<Rightarrow> byte list \<Rightarrow> bool" where
  "advances okA c h p \<longleftrightarrow> (state c \<in> {Listen, SynSent} \<longrightarrow> okA (SeqNum h + 1)) \<and>
     (\<forall>e. recvView e = recvView c \<longrightarrow> (state c \<notin> preData \<longrightarrow> state e \<notin> preData) \<longrightarrow>
        onSegment c h p = textAndFin e h p \<longrightarrow>
        okA (rcv_nxt (acceptText e h p)) \<and> okA (rcv_nxt (textAndFin e h p)))"

lemma advances_True [simp]: "advances (\<lambda>_. True) c h p"
  by (simp add: advances_def)

locale wire_step =
  fixes P :: "Conn \<Rightarrow> bool" and ok :: segFilter and okA :: "u32 \<Rightarrow> bool"
  assumes keep: "P c \<Longrightarrow> outp d = outp c \<Longrightarrow> retxQueue d = retxQueue c \<Longrightarrow>
      localEP d = localEP c \<Longrightarrow> remoteEP d = remoteEP c \<Longrightarrow> portsSrc d = portsSrc c \<Longrightarrow>
      portsDst d = portsDst c \<Longrightarrow> rcv_nxt d = rcv_nxt c \<Longrightarrow> P d"
    and wr: "P c \<Longrightarrow> goodOpts o' \<Longrightarrow> length p \<le> wireLimit \<Longrightarrow> ok f s p \<Longrightarrow>
      acks okA f a \<Longrightarrow> P (writeSegOpts c f s a p o')"
    and queue: "P c \<Longrightarrow> \<forall>r\<in>set q. fits ok r \<Longrightarrow> P (c\<lparr>retxQueue := q\<rparr>)"
    and short: "P c \<Longrightarrow> r \<in> set (retxQueue c) \<Longrightarrow> fits ok r"
    and plain: "\<not> Has f FlagFIN \<Longrightarrow> ok f s []"
    and adv: "P c \<Longrightarrow> okA n \<Longrightarrow> P (c\<lparr>rcv_nxt := n\<rparr>)"
    and rdy: "P c \<Longrightarrow> okA (rcv_nxt c)"
begin

lemma plains [simp]: "ok FlagACK s []" "ok FlagRST s []" "ok (FlagRST OR FlagACK) s []"
  by (rule plain; simp add: Has_or)+

lemma enq: "P c \<Longrightarrow> fits ok r \<Longrightarrow> P (enqueueRetx c r)"
proof -
  assume p: "P c" and l: "fits ok r"
  have "P (c\<lparr>retxQueue := retxQueue c @ [r]\<rparr>)" using short [OF p] l by (intro queue [OF p]) auto
  then show ?thesis by (rule keep) simp_all
qed

lemma tck: "P c \<Longrightarrow> P (tick c)"
  by (erule keep) simp_all

lemma data: "P c \<Longrightarrow> length p \<le> wireLimit \<Longrightarrow> ok f s p \<Longrightarrow> acks okA f a \<Longrightarrow> P (sendData c f s a p)"
  by (simp add: sendData_def writeSeg_def Let_def tck wr goodOpts_Nil enq fits_def)

lemma snds: "P c \<Longrightarrow> ok f s [] \<Longrightarrow> acks okA f a \<Longrightarrow> P (send c f s a)"
  by (simp add: send_def data)

lemma ack: "P c \<Longrightarrow> P (sendAck c)"
proof -
  assume p: "P c"
  let ?c = "c\<lparr>delAckArmed := False, delAckCount := 0\<rparr>"
  have "P (snd (ackOptions ?c))" by (rule keep [OF p]) simp_all
  then show ?thesis
    using goodOpts_ackOptions [of ?c]
    using rdy [OF p] rdy by (simp add: sendAck_def Let_def case_prod_unfold snds wr)
qed

lemma challenge: "P c \<Longrightarrow> P (sendChallengeAck c)"
proof -
  assume p: "P c"
  have "P (snd (allowChallengeAck c))" by (rule keep [OF p]) simp_all
  then show ?thesis using p rdy [OF p] by (simp add: sendChallengeAck_def case_prod_unfold Let_def snds)
qed

lemma rst: "P c \<Longrightarrow> P (sendRst c s)"
  by (simp add: sendRst_def snds)

lemma syn: "P c \<Longrightarrow> \<not> Has f FlagFIN \<Longrightarrow> acks okA f a \<Longrightarrow> P (sendSyn c f s a)"
  by (simp add: sendSyn_def Let_def case_prod_unfold enq tck wr goodOpts_synOptions fits_def plain)

lemma emit:
  assumes p: "P c" and f: "feeds ok c" "inflight c < length (sndBuf c)"
    and d: "d = of_nat (length (sndBuf c) - inflight c)" "unat (segmentSize d u) \<noteq> 0"
  shows "P (emitSegment c (inflight c) d u)"
proof -
  let ?n = "unat (segmentSize d u)"
  let ?pl = "take ?n (drop (inflight c) (sndBuf c))"
  have l: "length ?pl \<le> wireLimit" by (simp add: unat_segmentSize wireLimit_def)
  have "unat d \<le> length (sndBuf c) - inflight c" unfolding d(1) by (simp add: unat_of_nat)
  then have "inflight c + ?n \<le> length (sndBuf c)" using f(2) by (simp add: unat_segmentSize)
  then have "ok (FlagPSH OR FlagACK) (snd_nxt c) ?pl" using d(2) by (intro feeds_next [OF f(1)]) simp_all
  then have "P (sendData c (FlagPSH OR FlagACK) (snd_nxt c) (rcv_nxt c) ?pl)"
    using rdy [OF p] by (intro data [OF p l]) simp_all
  then show ?thesis
    unfolding emitSegment_def Let_def by (rule keep) (simp_all add: disarmOverride_def)
qed

lemma timers:
  "P c \<Longrightarrow> P (disarmOverride c)" "P c \<Longrightarrow> P (armOverride c)" "P c \<Longrightarrow> P (armPersist c)"
  "P c \<Longrightarrow> P (disarmPersist c)"
  by (erule keep; simp)+

lemma flush: "P c \<Longrightarrow> feeds ok c \<Longrightarrow> P (flushSend c)"
proof -
  assume c: "P c" "feeds ok c"
  have fd: "feeds ok (disarmPersist (disarmOverride d)) = feeds ok d" "feeds ok (armPersist d) = feeds ok d"
    "feeds ok (armOverride d) = feeds ok d" "feeds ok (emitSegment d off x u) = feeds ok d" for d off x u
    by (rule feeds_cong; simp)+
  have "P c \<and> feeds ok c \<longrightarrow> P (flushSend c) \<and> feeds ok (flushSend c)"
    by (rule flushSend_rel [of "\<lambda>c d. P c \<and> feeds ok c \<longrightarrow> P d \<and> feeds ok d" c])
      (simp_all add: fd timers emit)
  with c show ?thesis by blast
qed

lemma probe: "P c \<Longrightarrow> feeds ok c \<Longrightarrow> P (probePersist c)"
proof (cases "inflight c \<ge> length (sndBuf c) \<or> snd_wnd c \<noteq> 0")
  case False
  assume p: "P c" "feeds ok c"
  have one: "[sndBuf c ! inflight c] = take 1 (drop (inflight c) (sndBuf c))"
    using False by (simp add: take_Suc hd_drop_conv_nth)
  have "ok (FlagPSH OR FlagACK) (snd_nxt c) [sndBuf c ! inflight c]"
    unfolding one using False by (intro feeds_next [OF p(2)]) simp_all
  then have "P (sendData c (FlagPSH OR FlagACK) (snd_nxt c) (rcv_nxt c) [sndBuf c ! inflight c])"
    using rdy [OF p(1)] by (intro data [OF p(1)]) (simp_all add: wireLimit_def)
  from keep [OF this] p(1) show ?thesis by (simp add: probePersist_def Let_def)
qed (simp add: probePersist_def)

lemma override:
  assumes "P c" "feeds ok c"
  shows "P (fireOverride c)"
proof (cases "inflight c < length (sndBuf c) \<and> sendUsable c \<noteq> 0")
  case True
  let ?d = "of_nat (length (sndBuf c) - inflight c) :: u32"
  have "P (emitSegment c (inflight c) ?d (sendUsable c))"
  proof (cases "unat (segmentSize ?d (sendUsable c)) = 0")
    case False
    then show ?thesis using True by (intro emit assms) simp_all
  next
    case True
    have "P (sendData c (FlagPSH OR FlagACK) (snd_nxt c) (rcv_nxt c) [])"
      using rdy [OF assms(1)] by (intro data [OF assms(1)]) (simp_all add: plain Has_or)
    then show ?thesis
      unfolding emitSegment_def Let_def True take_0 by (rule keep) (simp_all add: disarmOverride_def)
  qed
  then show ?thesis using True by (simp add: fireOverride_def Let_def)
qed (auto simp: fireOverride_def Let_def timers assms)

lemma feeds_flow: "feeds ok (checkFlowTimers c) = feeds ok c"
  by (rule feeds_cong) simp_all

lemma flow: "P c \<Longrightarrow> feeds ok c \<Longrightarrow> P (checkFlowTimers c)"
proof -
  assume c: "P c" "feeds ok c"
  have fd: "feeds ok (tick d) = feeds ok d" "feeds ok (probePersist d) = feeds ok d" for d
    by (rule feeds_cong; simp)+
  show ?thesis
    using c by (simp add: checkFlowTimers_def Let_def fd tck probe override fireDelayedAck_def
      sendDelayedAck_def ack)
qed

lemma unacked_set: "set (unacked a q) \<subseteq> set q"
  by (induction q) auto

lemma ackq: "P c \<Longrightarrow> P (ackRetxQueue c a)"
proof -
  assume p: "P c"
  obtain t where t: "retxQueue (ackRetxQueue c a) =
      (case unacked a (retxQueue c) of [] \<Rightarrow> [] | s # q \<Rightarrow> s\<lparr>rsSentAt := t\<rparr> # q)"
    using ackRetxQueue_queue by blast
  have sh: "\<forall>r\<in>set (unacked a (retxQueue c)). fits ok r"
    using short [OF p] unacked_set [of a "retxQueue c"] by blast
  have "\<forall>r\<in>set (retxQueue (ackRetxQueue c a)). fits ok r"
    using sh by (cases "unacked a (retxQueue c)") (simp_all add: t fits_def)
  then have "P (c\<lparr>retxQueue := retxQueue (ackRetxQueue c a)\<rparr>)" by (rule queue [OF p])
  then show ?thesis by (rule keep) simp_all
qed

lemma resend:
  assumes p: "P c" and q: "retxQueue c = x # q"
    and y: "rsPayload y = rsPayload x" "rsFlags y = rsFlags x" "rsSeq y = rsSeq x"
    and d: "outp d = outp c" "retxQueue d = retxQueue c" "localEP d = localEP c"
      "remoteEP d = remoteEP c" "portsSrc d = portsSrc c" "portsDst d = portsDst c" "rcv_nxt d = rcv_nxt c"
    and a: "okA a"
  shows "P ((writeSeg d (rsFlags x) (rsSeq x) a (rsPayload x))\<lparr>retxQueue := y # q\<rparr>)"
proof -
  have x: "fits ok x" using short [OF p] q by simp
  have "P d" by (rule keep [OF p d])
  then have "P (writeSeg d (rsFlags x) (rsSeq x) a (rsPayload x))"
    unfolding writeSeg_def using x a by (intro wr goodOpts_Nil) (simp_all add: fits_def)
  then show ?thesis by (rule queue) (use short [OF p] q x y in \<open>auto simp: fits_def\<close>)
qed

lemma retx: "P c \<Longrightarrow> P (checkRetransmit c)"
proof -
  assume p: "P c"
  show ?thesis
  proof (cases "retxQueue c")
    case (Cons x q)
    let ?w = "writeSeg ((tick c)\<lparr>cong := onRtoTimeout (cong c) (snd_nxt c - snd_una c)\<rparr>)
      (rsFlags x) (rsSeq x) (rcv_nxt c) (rsPayload x)"
    let ?x = "x\<lparr>rsRetries := rsRetries x + 1, rsRetransmitted := True, rsSentAt := now ?w\<rparr>"
    have "P (?w\<lparr>retxQueue := ?x # q\<rparr>)" by (intro resend [OF p Cons]) (simp_all add: rdy [OF p])
    then have r: "P ((tick (?w\<lparr>retxQueue := ?x # q\<rparr>))\<lparr>curRTO := k\<rparr>)" for k
      by (rule keep) simp_all
    have z: "P ((tick c)\<lparr>state := Closed, retxQueue := [], curRTO := 0\<rparr>)"
      by (rule keep [OF queue [OF p, of "[]"]]) simp_all
    show ?thesis
      using r z tck [OF p] by (simp add: checkRetransmit_def Cons Let_def)
  qed (simp add: checkRetransmit_def p)
qed

lemma fast: "P c \<Longrightarrow> P (fastRetransmit c)"
proof -
  assume p: "P c"
  show ?thesis
  proof (cases "retxQueue c")
    case (Cons x q)
    let ?w = "writeSeg c (rsFlags x) (rsSeq x) (rcv_nxt c) (rsPayload x)"
    have "P (?w\<lparr>retxQueue := (x\<lparr>rsRetransmitted := True, rsSentAt := now ?w\<rparr>) # q\<rparr>)"
      by (intro resend [OF p Cons]) (simp_all add: rdy [OF p])
    then show ?thesis by (simp add: fastRetransmit_def Cons Let_def tck)
  qed (simp add: fastRetransmit_def p)
qed

lemma alive: "P c \<Longrightarrow> P (checkKeepAlive c)"
proof -
  assume p: "P c"
  have z: "P ((tick c)\<lparr>state := Closed, retxQueue := [], curRTO := 0\<rparr>)"
    by (rule keep [OF queue [OF p, of "[]"]]) simp_all
  have w: "P (writeSeg (tick c) FlagACK (snd_nxt c - 1) (rcv_nxt c) [])"
    unfolding writeSeg_def by (intro wr tck p goodOpts_Nil) (simp_all add: rdy [OF p])
  have "P (sendKeepAliveProbe (tick c))"
    using keep [OF w] by (simp add: sendKeepAliveProbe_def Let_def)
  with z p tck [OF p] show ?thesis by (simp add: checkKeepAlive_def Let_def)
qed

lemma ticks: "P c \<Longrightarrow> feeds ok c \<Longrightarrow> P (Tick c)"
proof -
  assume c: "P c" "feeds ok c"
  have "P (checkTimeWait c)" by (rule keep [OF c(1)]) simp_all
  then have "P (checkRetransmit (checkTimeWait c))" by (rule retx)
  moreover have "feeds ok (checkRetransmit (checkTimeWait c))"
    using c(2) feeds_cong [of "checkRetransmit (checkTimeWait c)" c] by simp
  ultimately show ?thesis by (simp add: Tick_def alive flow)
qed

lemma newack: "P c \<Longrightarrow> P (newAck c h)"
proof -
  assume "P c"
  then have "P (c\<lparr>snd_una := AckNum h\<rparr>)" by (rule keep) simp_all
  then have "P (ackRetxQueue (c\<lparr>snd_una := AckNum h\<rparr>) (AckNum h))" by (rule ackq)
  then show ?thesis
    unfolding newAck_def Let_def by (rule keep) (simp_all add: releaseAckedSend_def Let_def)
qed

lemma dup: "P c \<Longrightarrow> P (onDuplicateAck c h)"
proof -
  assume p: "P c"
  have k: "P (c\<lparr>cong := x\<rparr>)" for x by (rule keep [OF p]) simp_all
  show ?thesis using p k fast [OF k] by (simp add: onDuplicateAck_def Let_def)
qed

lemma feeds_core: "feeds ok c \<Longrightarrow> feeds ok (ackCore c h p)"
proof -
  assume f: "feeds ok c"
  let ?m = "if AcceptableAck (snd_una c) (AckNum h) (snd_nxt c) then newAck c h
        else if isDupAck c h p then onDuplicateAck c h else c"
  have "feeds ok (onDuplicateAck c h) = feeds ok c"
    by (rule feeds_cong) (simp_all add: onDuplicateAck_def Let_def)
  then have "feeds ok ?m" using f feeds_newAck [OF f] by simp
  moreover have "feeds ok (ackCore c h p) = feeds ok ?m"
    unfolding ackCore_def by (rule feeds_cong) simp_all
  ultimately show ?thesis by simp
qed

lemma handleack:
  assumes p: "P c" and f: "feeds ok c"
  shows "P (snd (handleAck c h p)) \<and> feeds ok (snd (handleAck c h p))"
proof
  let ?a = "advanceStateOnAck (ackCore c h p) h"
  have "P (if AcceptableAck (snd_una c) (AckNum h) (snd_nxt c) then newAck c h
        else if isDupAck c h p then onDuplicateAck c h else c)"
    using p by (simp add: newack dup)
  then have "P (ackCore c h p)" unfolding ackCore_def by (rule keep) simp_all
  then have a: "P ?a" by (rule keep) simp_all
  have fa: "feeds ok ?a" using feeds_core [OF f] feeds_cong [of ?a "ackCore c h p"] by simp
  show "P (snd (handleAck c h p))"
    using p flush [OF a fa] by (simp add: handleAck_snd rst challenge)
  have "feeds ok (flushSend ?a) = feeds ok ?a" "feeds ok (sendChallengeAck c) = feeds ok c"
    "feeds ok (sendRst c x) = feeds ok c" for x
    by (rule feeds_cong; simp)+
  then show "feeds ok (snd (handleAck c h p))" using f fa by (simp add: handleAck_snd)
qed

lemma text_: "P c \<Longrightarrow> okA (rcv_nxt (acceptText c h p)) \<Longrightarrow> P (acceptText c h p)"
proof -
  assume p: "P c" and n: "okA (rcv_nxt (acceptText c h p))"
  have k: "P (takeText c d)" if "okA (rcv_nxt (takeText c d))" for d
    by (rule keep [OF adv [OF p that]]) simp_all
  have "P (onDelayableSegment d)" if d: "P d" for d
  proof -
    have "P (d\<lparr>delAckCount := n\<rparr>)" for n by (rule keep [OF d]) simp_all
    moreover have "P (tick (d\<lparr>delAckCount := n, delAckArmed := True, delAckDeadline := x\<rparr>))" for n x
      by (rule keep [OF d]) simp_all
    ultimately show ?thesis by (simp add: onDelayableSegment_def sendDelayedAck_def Let_def ack)
  qed
  then show ?thesis using p k n by (simp add: acceptText_def Let_def ack split: if_splits)
qed

lemma fin: "P c \<Longrightarrow> okA (rcv_nxt c + 1) \<Longrightarrow> P (handleFin c h)"
proof -
  assume "P c" "okA (rcv_nxt c + 1)"
  then have "P (c\<lparr>rcv_nxt := rcv_nxt c + 1\<rparr>)" by (rule adv)
  then have "P (c\<lparr>peerFin := True, peerFinSeq := rcv_nxt c, rcv_nxt := rcv_nxt c + 1\<rparr>)"
    by (rule keep) simp_all
  then have "P (sendAck (c\<lparr>peerFin := True, peerFinSeq := rcv_nxt c, rcv_nxt := rcv_nxt c + 1\<rparr>))"
    by (rule ack)
  then show ?thesis
    by (rule keep) (simp_all add: handleFin_def Let_def split: State.splits)
qed

lemma textfin:
  assumes "P c" "okA (rcv_nxt (acceptText c h p))" "okA (rcv_nxt (textAndFin c h p))"
  shows "P (textAndFin c h p)"
proof -
  have "acceptText c h [] = c" by (simp add: acceptText_def)
  then show ?thesis
    using text_ [OF assms(1,2)] fin assms by (auto simp: textAndFin_def Let_def split: if_splits)
qed

lemma acktextfin:
  assumes p: "P c" and f: "feeds ok c"
    and n: "\<And>e. recvView e = recvView c \<Longrightarrow> (state c \<notin> preData \<longrightarrow> state e \<notin> preData) \<Longrightarrow>
      ackTextFin c h p = textAndFin e h p \<Longrightarrow>
      okA (rcv_nxt (acceptText e h p)) \<and> okA (rcv_nxt (textAndFin e h p))"
  shows "P (ackTextFin c h p)"
proof -
  have t: "P (c\<lparr>tsRecent := x\<rparr>) \<and> feeds ok (c\<lparr>tsRecent := x\<rparr>)" for x
    using keep [OF p, of "c\<lparr>tsRecent := x\<rparr>"] feeds_cong [of "c\<lparr>tsRecent := x\<rparr>" c] f by simp
  have s: "P (sampleRTTFromTimestamp d x) \<and> feeds ok (sampleRTTFromTimestamp d x)"
    if "P d" "feeds ok d" for d x
    using keep [OF that(1), of "sampleRTTFromTimestamp d x"]
      feeds_cong [of "sampleRTTFromTimestamp d x" d] that by simp
  show ?thesis
  proof (cases rule: ackTextFin_split [of c h p])
    case (ackless x)
    then show ?thesis using t by simp
  next
    case (acked x d)
    have d: "P d" "feeds ok d" using acked(1) t s by blast+
    have v: "recvView (snd (handleAck d h p)) = recvView c" using acked(2) by simp
    show ?thesis
    proof (cases "ackAccepted d h")
      case True
      have "state c \<notin> preData \<longrightarrow> state (snd (handleAck d h p)) \<notin> preData"
        using True acked(3) by (cases "state c") (simp_all add: handleAck_state ackNext_def)
      with n [OF v this] True acked(4) handleack [OF d] show ?thesis by (simp add: textfin)
    qed (use handleack [OF d] acked(4) in simp)
  qed
qed

lemma sync:
  assumes p: "P c" and f: "feeds ok c"
    and n: "\<And>e. recvView e = recvView c \<Longrightarrow> (state c \<notin> preData \<longrightarrow> state e \<notin> preData) \<Longrightarrow>
      onSegmentSynchronized c h p = textAndFin e h p \<Longrightarrow>
      okA (rcv_nxt (acceptText e h p)) \<and> okA (rcv_nxt (textAndFin e h p))"
  shows "P (onSegmentSynchronized c h p)"
proof -
  have "P (restartTimeWait (sendAck c))" by (rule keep [OF ack [OF p]]) simp_all
  moreover have "P (resetConnection c)"
    by (rule keep [OF p]) (simp_all add: resetConnection_def)
  ultimately have "onSegmentSynchronized c h p = ackTextFin c h p \<or> P (onSegmentSynchronized c h p)"
    using p ack [OF p] challenge [OF p]
    unfolding onSegmentSynchronized_def Let_def handleRst_def by (simp split: if_split)
  moreover have "P (ackTextFin c h p)" if "onSegmentSynchronized c h p = ackTextFin c h p"
    by (rule acktextfin [OF p f n [unfolded that]])
  ultimately show ?thesis by auto
qed

lemma listen: "P c \<Longrightarrow> okA (SeqNum h + 1) \<Longrightarrow> P (onSegmentListen c h)"
proof -
  assume p: "P c" and n: "okA (SeqNum h + 1)"
  have "P (initSendWindow (negotiateFrom (c\<lparr>rcv_irs := SeqNum h, rcv_nxt := SeqNum h + 1,
      snd_una := snd_iss c, snd_nxt := snd_iss c + 1, origin := OriginPassive,
      state := SynReceived\<rparr>) h) h)"
    by (rule keep [OF adv [OF p n]]) simp_all
  with p n show ?thesis by (simp add: onSegmentListen_def Let_def rst syn Has_or)
qed

lemma synsent: "P c \<Longrightarrow> okA (SeqNum h + 1) \<Longrightarrow> P (onSegmentSynSent c h)"
proof -
  assume p: "P c" and r: "okA (SeqNum h + 1)"
  let ?n = "negotiateFrom (c\<lparr>rcv_irs := SeqNum h, rcv_nxt := SeqNum h + 1\<rparr>) h"
  have n: "P ?n" by (rule keep [OF adv [OF p r]]) simp_all
  have "P (?n\<lparr>snd_una := AckNum h\<rparr>)" by (rule keep [OF n]) simp_all
  then have "P (ackRetxQueue (?n\<lparr>snd_una := AckNum h\<rparr>) (AckNum h))" by (rule ackq)
  then have e: "P ((initSendWindow (ackRetxQueue (?n\<lparr>snd_una := AckNum h\<rparr>) (AckNum h)) h)
      \<lparr>state := Established, reachedEstablished := True\<rparr>)"
    by (rule keep) simp_all
  have s: "P (?n\<lparr>origin := OriginActive, state := SynReceived\<rparr>)" by (rule keep [OF n]) simp_all
  have z: "P (c\<lparr>state := Closed\<rparr>)" by (rule keep [OF p]) simp_all
  show ?thesis
    using p r ack [OF e] syn [OF s] z by (simp add: onSegmentSynSent_def Let_def rst Has_or)
qed

lemma segment: "P c \<Longrightarrow> feeds ok c \<Longrightarrow> advances okA c h p \<Longrightarrow> P (onSegment c h p)"
proof -
  define d where "d = tick (c\<lparr>lastRecvTime := now c, keepaliveProbes := 0\<rparr>)"
  assume c: "P c" "feeds ok c" "advances okA c h p"
  have d: "P d" unfolding d_def by (rule keep [OF c(1)]) simp_all
  have f: "feeds ok d" using c(2) feeds_cong [of d c] by (simp add: d_def)
  have s: "state d = state c" "recvView d = recvView c" by (simp_all add: d_def)
  have seg: "onSegment c h p = (case state c of Closed \<Rightarrow> onSegmentClosed d h p | Listen \<Rightarrow> onSegmentListen d h
      | SynSent \<Rightarrow> onSegmentSynSent d h | _ \<Rightarrow> onSegmentSynchronized d h p)"
    unfolding onSegment_def Let_def d_def [symmetric] s(1) by (rule HOL.refl)
  have "state c \<in> {Listen, SynSent} \<Longrightarrow> okA (SeqNum h + 1)" using c(3) by (simp add: advances_def)
  moreover have "P (onSegmentSynchronized d h p)" if "onSegment c h p = onSegmentSynchronized d h p"
  proof (rule sync [OF d f])
    fix e assume "recvView e = recvView d" "state d \<notin> preData \<longrightarrow> state e \<notin> preData"
      "onSegmentSynchronized d h p = textAndFin e h p"
    then show "okA (rcv_nxt (acceptText e h p)) \<and> okA (rcv_nxt (textAndFin e h p))"
      using c(3) unfolding advances_def that s by blast
  qed
  moreover have "P (onSegmentClosed d h p)" using d by (simp add: onSegmentClosed_def rst snds)
  ultimately show ?thesis using seg listen [OF d] synsent [OF d] by (cases "state c") simp_all
qed

lemma close: "P c \<Longrightarrow> ok (FlagFIN OR FlagACK) (snd_nxt c) [] \<Longrightarrow> P (Close c)"
proof -
  assume p: "P c" and o': "ok (FlagFIN OR FlagACK) (snd_nxt c) []"
  have s: "P ((send c (FlagFIN OR FlagACK) (snd_nxt c) (rcv_nxt c))\<lparr>snd_nxt := n, state := x\<rparr>)" for n x
    by (rule keep [OF snds [OF p o']]) (simp_all add: rdy [OF p])
  have z: "P (c\<lparr>state := Closed\<rparr>)" by (rule keep [OF p]) simp_all
  have y: "P (c\<lparr>state := Closed, retxQueue := [], curRTO := 0\<rparr>)"
    by (rule keep [OF queue [OF p, of "[]"]]) simp_all
  show ?thesis using p s z y by (simp add: Close_def Let_def split: State.splits)
qed

lemma close_early: "P c \<Longrightarrow> state c \<notin> {Established, SynReceived, CloseWait} \<Longrightarrow> P (Close c)"
proof -
  assume p: "P c" and st: "state c \<notin> {Established, SynReceived, CloseWait}"
  have z: "P (c\<lparr>state := Closed\<rparr>)" by (rule keep [OF p]) simp_all
  have y: "P (c\<lparr>state := Closed, retxQueue := [], curRTO := 0\<rparr>)"
    by (rule keep [OF queue [OF p, of "[]"]]) simp_all
  show ?thesis using p st z y by (simp add: Close_def split: State.splits)
qed

lemma sends: "P c \<Longrightarrow> feeds ok (c\<lparr>sndBuf := sndBuf c @ d\<rparr>) \<Longrightarrow> P (snd (Send c d))"
proof -
  assume p: "P c" and f: "feeds ok (c\<lparr>sndBuf := sndBuf c @ d\<rparr>)"
  have "P (c\<lparr>sndBuf := sndBuf c @ d\<rparr>)" by (rule keep [OF p]) simp_all
  with p f show ?thesis by (simp add: Send_def flush)
qed

lemma recvs: "P c \<Longrightarrow> P (snd (Recv c n))"
proof -
  assume p: "P c"
  have "P (recomputeRcvWindow (c\<lparr>rcvBuf := x\<rparr>))" for x
    by (rule keep [OF p]) (simp_all add: recomputeRcvWindow_def)
  with p show ?thesis by (simp add: Recv_def Let_def ack)
qed

text \<open>What an event must satisfy: its text and its FIN are admitted.\<close>

fun admits :: "Conn \<Rightarrow> ConnEvent \<Rightarrow> bool" where
  "admits c (EvSend d) = feeds ok (c\<lparr>sndBuf := sndBuf c @ d\<rparr>)"
| "admits c EvClose =
     (state c \<in> {Established, SynReceived, CloseWait} \<longrightarrow> ok (FlagFIN OR FlagACK) (snd_nxt c) [])"
| "admits c (EvSegment h p) = (feeds ok c \<and> advances okA c h p)"
| "admits c e = feeds ok c"

lemma step: "P c \<Longrightarrow> admits c e \<Longrightarrow> P (connStep c e)"
proof (cases e)
  case (EvNoDelay b) then show "P c \<Longrightarrow> ?thesis" by (elim keep) (simp_all add: SetNoDelay_def)
next
  case (EvRcvBuffer n) then show "P c \<Longrightarrow> ?thesis"
    by (elim keep) (simp_all add: SetRcvBuffer_def Let_def)
next
  case (EvKeepAlive b d) then show "P c \<Longrightarrow> ?thesis"
    by (elim keep) (simp_all add: SetKeepAlive_def Let_def)
next
  case (EvMSL d) then show "P c \<Longrightarrow> ?thesis" by (elim keep) (simp_all add: SetMSL_def)
next
  case (EvCwnd n) then show "P c \<Longrightarrow> ?thesis" by (elim keep) (simp_all add: SetCwnd_def)
qed (use close close_early in \<open>auto simp: segment ticks sends recvs\<close>)

end

text \<open>An invariant that also holds of a new connection holds of every reachable one.\<close>

locale wire_invariant = wire_step P "\<lambda>_ _ _. True" "\<lambda>_. True" for P +
  assumes new: "P (NewConn clock lep rep)"
begin

lemma every_step: "P c \<Longrightarrow> P (connStep c e)"
  using step [of c e] by (cases e) simp_all

lemma config: "configured c \<Longrightarrow> P c"
  by (induction rule: configured.induct) (simp_all add: new every_step)

lemma active: "P c \<Longrightarrow> P (ActiveOpen c iss)"
proof -
  assume p: "P c"
  have "P (c\<lparr>snd_iss := iss, snd_una := iss, snd_nxt := iss + 1, rcv_wnd := w, state := SynSent\<rparr>)" for w
    by (rule keep [OF p]) simp_all
  then show ?thesis by (simp add: ActiveOpen_def Let_def syn Has_or)
qed

lemma listening: "P c \<Longrightarrow> P (openPassive c iss)"
  unfolding openPassive_def PassiveOpen_def by (erule keep) simp_all

lemma always: "reachable c \<Longrightarrow> P c"
  by (induction rule: reachable.induct) (simp_all add: config active listening every_step)

end

subsection \<open>Interpretations\<close>

lemma wireOk_queue:
  assumes "wireOk c" "\<forall>r\<in>set q. length (rsPayload r) \<le> wireLimit"
  shows "wireOk (c\<lparr>retxQueue := q\<rparr>)"
proof -
  have "wellPacket (c\<lparr>retxQueue := q\<rparr>) = wellPacket c" by (intro wellPacket_cong) simp_all
  then show ?thesis using assms by (simp add: wireOk_def)
qed

interpretation wire: wire_invariant wireOk
proof
  show "wireOk (NewConn clock l r)" for clock l r by (rule wireOk_NewConn)
  show "wireOk d" if "wireOk c" "outp d = outp c" "retxQueue d = retxQueue c"
    "localEP d = localEP c" "remoteEP d = remoteEP c" "portsSrc d = portsSrc c"
    "portsDst d = portsDst c" for c d using that by (rule wireOk_cong)
  show "wireOk (c\<lparr>rcv_nxt := n\<rparr>)" if "wireOk c" for c n using that by (rule wireOk_cong) simp_all
  show "wireOk (writeSegOpts c f s a p o')" if "wireOk c" "goodOpts o'" "length p \<le> wireLimit"
    for c o' p f s a using that by (rule wireOk_writeSegOpts)
  show "fits (\<lambda>_ _ _. True) r" if "wireOk c" "r \<in> set (retxQueue c)" for c r
    using that by (simp add: wireOk_def fits_def)
qed (simp_all add: wireOk_queue fits_def)

text \<open>
  The output only grows: what was written before stays a prefix of what is written now. Its
  second half is the bound on the queue that \<open>writeSegOpts\<close> asks for.
\<close>

definition outputFrom :: "byte list list \<Rightarrow> Conn \<Rightarrow> bool" where
  "outputFrom xs c \<longleftrightarrow> prefix xs (outp c) \<and>
     (\<forall>r\<in>set (retxQueue c). length (rsPayload r) \<le> wireLimit)"

lemma outputFrom_write:
  "outputFrom xs c \<Longrightarrow> outputFrom xs (writeSegOpts c f s a p o')"
  using writeSegOpts_outp [of c f s a p o'] by (auto simp: outputFrom_def)

interpretation grow: wire_step "outputFrom xs" "\<lambda>_ _ _. True" "\<lambda>_. True" for xs
  by unfold_locales (auto simp: outputFrom_write fits_def, auto simp: outputFrom_def)

lemma output_grows: "outputFrom xs c \<Longrightarrow> outputFrom xs (connStep c e)"
  using grow.step [of xs c e] by (cases e) simp_all

interpretation quiet: wire_invariant "outputFrom []"
  by unfold_locales (simp add: outputFrom_def NewConn_def)

section \<open>Properties\<close>

text \<open>
  C17: whatever happens to a connection, every packet it has written is accepted by the
  receive path of the code itself: the IPv4 header parses with a correct checksum, the TCP
  checksum holds, the header and the options parse, and the addresses and ports are those of
  the connection.
\<close>

theorem emitted_packets_well_formed:
  assumes "reachable c"
  shows "list_all (wellPacket c) (outp c)"
  using wire.always [OF assms] by (simp add: wireOk_def list_all_iff)

theorem emitted_packets_well_formed_witness:
  "list_all (wellPacket (ActiveOpen demoConn 100)) (outp (ActiveOpen demoConn 100))"
  unfolding demoConn_def
  by (rule emitted_packets_well_formed [OF reachable.dialled [OF configured.new]])

end
