(* ===== verification/Tcp_Conntable.thy ===== *)
theory Tcp_Conntable
  imports Tcp_Events
begin

section \<open>The connection table (tcp/transport/conntable.go)\<close>

text \<open>
  The table of 4-tuples and the table of listeners. A \<^theory_text>\<open>*Conn\<close> is the number of an
  object in the heap of the stack (theory Tcp_Stack); the mutex makes each operation atomic.
  What the rest of the stack needs of the table is the locale \<open>test_and_set\<close>: it gives the
  race lemma once, and the table interprets it.
\<close>

record fourTuple =
  localIP :: ip4
  localPort :: u16
  remoteIP :: ip4
  remotePort :: u16

type_synonym localKey = "ip4 \<times> u16"
type_synonym connId = nat

record listenEntry =
  leLocal :: Endpoint
  leAccept :: nat

record connTable =
  tconns :: "fourTuple \<Rightarrow> connId option"
  tlisteners :: "localKey \<Rightarrow> listenEntry option"

definition newConnTable :: connTable where
  "newConnTable = \<lparr>tconns = Map.empty, tlisteners = Map.empty\<rparr>"

text \<open>
  \<open>insertIfAbsent\<close>: \<open>st\<close> reads the state of a connection, \<open>mk\<close> is the number the new
  connection gets when \<^theory_text>\<open>mkConn\<close> runs. The answer is the connection, whether it was
  created, and the TIME-WAIT connection it replaced (the argument of \<^theory_text>\<open>mkConn\<close>).
\<close>

definition insertIfAbsent ::
  "connTable \<Rightarrow> fourTuple \<Rightarrow> (connId \<Rightarrow> State) \<Rightarrow> connId \<Rightarrow> connTable \<times> connId \<times> bool \<times> connId option" where
  "insertIfAbsent ct tp st mk =
     (case tconns ct tp of
        Some existing \<Rightarrow>
          if st existing \<noteq> TimeWait then (ct, existing, False, None)
          else (ct\<lparr>tconns := (tconns ct)(tp \<mapsto> mk)\<rparr>, mk, True, Some existing)
      | None \<Rightarrow> (ct\<lparr>tconns := (tconns ct)(tp \<mapsto> mk)\<rparr>, mk, True, None))"

definition lookup :: "connTable \<Rightarrow> fourTuple \<Rightarrow> connId option" where
  "lookup ct tp = tconns ct tp"

definition removeTuple :: "connTable \<Rightarrow> fourTuple \<Rightarrow> connTable" where
  "removeTuple ct tp = ct\<lparr>tconns := (tconns ct)(tp := None)\<rparr>"

definition removeIf :: "connTable \<Rightarrow> fourTuple \<Rightarrow> connId \<Rightarrow> connTable" where
  "removeIf ct tp want =
     (if tconns ct tp = Some want then ct\<lparr>tconns := (tconns ct)(tp := None)\<rparr> else ct)"

definition addListener :: "connTable \<Rightarrow> Endpoint \<Rightarrow> nat \<Rightarrow> connTable" where
  "addListener ct local accept =
     ct\<lparr>tlisteners := (tlisteners ct)((epIP local, epPort local) \<mapsto>
         \<lparr>leLocal = local, leAccept = accept\<rparr>)\<rparr>"

definition removeListener :: "connTable \<Rightarrow> Endpoint \<Rightarrow> connTable" where
  "removeListener ct local =
     ct\<lparr>tlisteners := (tlisteners ct)((epIP local, epPort local) := None)\<rparr>"

definition lookupListener :: "connTable \<Rightarrow> ip4 \<Rightarrow> u16 \<Rightarrow> listenEntry option" where
  "lookupListener ct ip port = tlisteners ct (ip, port)"

subsection \<open>Test and set\<close>

locale test_and_set =
  fixes look :: "'t \<Rightarrow> 'k \<Rightarrow> 'v option"
    and tas :: "'t \<Rightarrow> 'k \<Rightarrow> ('v \<Rightarrow> bool) \<Rightarrow> 'v \<Rightarrow> 't \<times> 'v \<times> bool"
    and drop_if :: "'t \<Rightarrow> 'k \<Rightarrow> 'v \<Rightarrow> 't"
  assumes tas_busy: "look t k = Some v \<Longrightarrow> busy v \<Longrightarrow> tas t k busy n = (t, v, False)"
    and tas_free: "(\<And>v. look t k = Some v \<Longrightarrow> \<not> busy v) \<Longrightarrow> tas t k busy n = (t', x, b) \<Longrightarrow>
      x = n \<and> b \<and> look t' = (look t)(k \<mapsto> n)"
    and drop_look: "look (drop_if t k v) k' =
      (if k' = k \<and> look t k = Some v then None else look t k')"
begin

text \<open>Either way the key is bound to the answer afterwards.\<close>

lemma tas_look:
  assumes "tas t k busy n = (t', x, b)"
  shows "look t' = (look t)(k \<mapsto> x)" "b \<longleftrightarrow> \<not> (\<exists>v. look t k = Some v \<and> busy v)"
proof -
  consider (busy) v where "look t k = Some v" "busy v" | (free) "\<And>v. look t k = Some v \<Longrightarrow> \<not> busy v"
    by blast
  then have "look t' = (look t)(k \<mapsto> x) \<and> (b \<longleftrightarrow> \<not> (\<exists>v. look t k = Some v \<and> busy v))"
  proof cases
    case busy
    with tas_busy [of t k v busy n] assms show ?thesis by (auto simp: fun_upd_idem)
  next
    case free
    with tas_free [OF free assms] show ?thesis by auto
  qed
  then show "look t' = (look t)(k \<mapsto> x)" "b \<longleftrightarrow> \<not> (\<exists>v. look t k = Some v \<and> busy v)" by auto
qed

text \<open>
  Attempts of any number of clients for one key, one after the other as the lock orders them:
  who comes after a busy owner gets that owner, and nothing is created.
\<close>

fun attempts :: "'t \<Rightarrow> 'k \<Rightarrow> ('v \<Rightarrow> bool) \<Rightarrow> 'v list \<Rightarrow> 't \<times> ('v \<times> bool) list" where
  "attempts t k busy [] = (t, [])"
| "attempts t k busy (n # ns) =
     (let (t', x, b) = tas t k busy n; (t'', rs) = attempts t' k busy ns in (t'', (x, b) # rs))"

lemma attempts_busy:
  "look t k = Some v \<Longrightarrow> busy v \<Longrightarrow>
     attempts t k busy ns = (t, map (\<lambda>n. (v, False)) ns)"
  by (induction ns) (simp_all add: tas_busy)

lemma race:
  assumes "\<And>v. look t k = Some v \<Longrightarrow> \<not> busy v" "busy n"
  shows "snd (attempts t k busy (n # ns)) = (n, True) # map (\<lambda>m. (n, False)) ns"
proof -
  obtain t' x b where r: "tas t k busy n = (t', x, b)" by (metis prod_cases3)
  with tas_free [OF assms(1) r] have x: "x = n" "b" "look t' k = Some n" by auto
  then show ?thesis
    using r attempts_busy [of t' k n busy ns] assms(2) by simp
qed

text \<open>Removing a stale owner does not touch a newer one, nor another key.\<close>

lemma drop_stale: "look t k = Some v \<Longrightarrow> v \<noteq> w \<Longrightarrow> look (drop_if t k w) = look t"
  by (rule ext) (simp add: drop_look)

end

definition testAndSet :: "connTable \<Rightarrow> fourTuple \<Rightarrow> (connId \<Rightarrow> bool) \<Rightarrow> connId \<Rightarrow> connTable \<times> connId \<times> bool" where
  "testAndSet ct tp busy mk =
     (let (ct', c, created, r) = insertIfAbsent ct tp (\<lambda>i. if busy i then Established else TimeWait) mk
      in (ct', c, created))"

interpretation table: test_and_set lookup testAndSet removeIf
proof
  show "testAndSet t k busy n = (t, v, False)" if "lookup t k = Some v" "busy v" for t k v busy n
    using that by (simp add: testAndSet_def insertIfAbsent_def lookup_def)
  show "x = n \<and> b \<and> lookup t' = (lookup t)(k \<mapsto> n)"
    if "\<And>v. lookup t k = Some v \<Longrightarrow> \<not> busy v" "testAndSet t k busy n = (t', x, b)" for t k busy n t' x b
    using that
    by (auto simp: testAndSet_def insertIfAbsent_def lookup_def fun_eq_iff split: option.splits)
  show "lookup (removeIf t k v) k' = (if k' = k \<and> lookup t k = Some v then None else lookup t k')"
    for t k v k'
    by (simp add: removeIf_def lookup_def)
qed

lemma insertIfAbsent_testAndSet:
  "insertIfAbsent ct tp st mk = (ct', c, created, r) \<Longrightarrow>
     testAndSet ct tp (\<lambda>i. st i \<noteq> TimeWait) mk = (ct', c, created)"
  by (auto simp: testAndSet_def insertIfAbsent_def split: option.splits if_splits)

text \<open>What a replaced connection was.\<close>

lemma insertIfAbsent_replaced:
  "insertIfAbsent ct tp st mk = (ct', c, created, Some r) \<Longrightarrow>
     lookup ct tp = Some r \<and> st r = TimeWait \<and> created \<and> c = mk"
  by (auto simp: insertIfAbsent_def lookup_def split: option.splits if_splits)

lemma table_frames [simp]:
  "tlisteners (removeIf ct tp c) = tlisteners ct" "tconns (addListener ct l a) = tconns ct"
  "tconns (removeListener ct l) = tconns ct"
  by (simp_all add: removeIf_def addListener_def removeListener_def)

text \<open>Opens of one 4-tuple in the order in which they get the lock; \<open>st\<close> are the states of
  the connections.\<close>

fun racingOpens :: "connTable \<Rightarrow> fourTuple \<Rightarrow> (connId \<Rightarrow> State) \<Rightarrow> connId list \<Rightarrow>
    connTable \<times> (connId \<times> bool) list" where
  "racingOpens ct tp st [] = (ct, [])"
| "racingOpens ct tp st (n # ns) =
     (let (ct', c, created, r) = insertIfAbsent ct tp st n; (ct'', rs) = racingOpens ct' tp st ns
      in (ct'', (c, created) # rs))"

lemma racingOpens_attempts: "racingOpens ct tp st ns = table.attempts ct tp (\<lambda>i. st i \<noteq> TimeWait) ns"
proof (induction ns arbitrary: ct)
  case (Cons n ns)
  obtain ct' c created r where i: "insertIfAbsent ct tp st n = (ct', c, created, r)"
    by (metis prod_cases4)
  from insertIfAbsent_testAndSet [OF this] show ?case using i Cons.IH by simp
qed simp

section \<open>Properties\<close>

text \<open>
  No double connection. When several opens or SYNs race for one 4-tuple that is free or held
  in TIME-WAIT, the first to enter the lock installs its connection and every other one is
  given that same connection and creates nothing.
\<close>

theorem racing_opens_create_one:
  assumes "case lookup ct tp of None \<Rightarrow> True | Some v \<Rightarrow> st v = TimeWait" "st n \<noteq> TimeWait"
  shows "snd (racingOpens ct tp st (n # ns)) = (n, True) # map (\<lambda>m. (n, False)) ns"
  unfolding racingOpens_attempts
  by (rule table.race) (use assms in \<open>simp_all split: option.splits\<close>)

theorem racing_opens_create_one_witness:
  "snd (racingOpens newConnTable \<lparr>localIP = (10, 0, 0, 1), localPort = 80,
     remoteIP = (10, 0, 0, 2), remotePort = 9\<rparr> (\<lambda>_. SynSent) [4, 5, 6]) =
     [(4, True), (4, False), (4, False)]"
  by (subst racing_opens_create_one) (simp_all add: newConnTable_def lookup_def)

end
