(* ===== verification/Tcp_Stack.thy ===== *)
theory Tcp_Stack
  imports Tcp_Conntable
begin

unbundle bit_operations_syntax

section \<open>Receiver and stack (recvloop.go, listener.go)\<close>

text \<open>
  \<open>dispatch\<close> is the receive path of a single connection. The \<open>Stack\<close> shares one link and one
  clock among its connections: \<open>objs\<close> is the heap of \<^theory_text>\<open>*Conn\<close>, and every call of a
  method of a connection runs with the shared output and the shared clock (\<open>onConn\<close>). An
  accept channel is a list with the capacity 16 of the code. The goroutines interleave at the
  granularity of the operations below, each of which the code runs in the one demux goroutine
  or under a lock; the order in which a tick visits the connections is an argument.
\<close>

subsection \<open>The receive path of one connection\<close>

definition dispatch :: "Conn \<Rightarrow> byte list \<Rightarrow> Conn option" where
  "dispatch c pkt = do {
     r \<leftarrow> decodePacket pkt;
     case r of
       None \<Rightarrow> Some c
     | Some (ip, h, payload) \<Rightarrow> Some (onSegment c h payload) }"

lemma dispatch_no_panic: "dispatch c pkt \<noteq> None"
proof -
  obtain r where "decodePacket pkt = Some r" using decodePacket_no_panic by blast
  then show ?thesis by (simp add: dispatch_def split: option.splits)
qed

subsection \<open>The stack\<close>

record Stack =
  objs :: "connId \<Rightarrow> Conn option"
  nextObj :: nat
  stable :: connTable
  chans :: "nat \<Rightarrow> connId list"
  nextChan :: nat
  delivered :: "connId set"
  tracked :: "connId set"
  closedListeners :: "nat set"
  sclk :: "nat \<Rightarrow> time"
  sticks :: nat
  sout :: "byte list list"

definition NewStack :: "(nat \<Rightarrow> time) \<Rightarrow> Stack" where
  "NewStack clock = \<lparr>objs = Map.empty, nextObj = 0, stable = newConnTable, chans = (\<lambda>_. []),
     nextChan = 0, delivered = {}, tracked = {}, closedListeners = {}, sclk = clock, sticks = 0,
     sout = []\<rparr>"

definition acceptCap :: nat where "acceptCap = 16"

text \<open>A method call on the connection \<open>i\<close>.\<close>

definition load :: "Stack \<Rightarrow> Conn \<Rightarrow> Conn" where
  "load s c = c\<lparr>ticks := sticks s, outp := sout s\<rparr>"

definition store :: "Stack \<Rightarrow> connId \<Rightarrow> Conn \<Rightarrow> Stack" where
  "store s i c = s\<lparr>objs := (objs s)(i \<mapsto> c\<lparr>ticks := 0, outp := []\<rparr>), sticks := ticks c, sout := outp c\<rparr>"

definition onConn :: "Stack \<Rightarrow> connId \<Rightarrow> (Conn \<Rightarrow> Conn) \<Rightarrow> Stack" where
  "onConn s i f = (case objs s i of None \<Rightarrow> s | Some c \<Rightarrow> store s i (f (load s c)))"

definition stateOf :: "Stack \<Rightarrow> connId \<Rightarrow> State" where
  "stateOf s i = (case objs s i of None \<Rightarrow> Closed | Some c \<Rightarrow> state c)"

definition track :: "Stack \<Rightarrow> connId \<Rightarrow> Stack" where
  "track s i = s\<lparr>tracked := insert i (tracked s)\<rparr>"

definition connTuple :: "Conn \<Rightarrow> fourTuple" where
  "connTuple c = \<lparr>localIP = epIP (localEP c), localPort = epPort (localEP c),
     remoteIP = epIP (remoteEP c), remotePort = epPort (remoteEP c)\<rparr>"

definition reap :: "Stack \<Rightarrow> connId \<Rightarrow> fourTuple \<Rightarrow> Stack" where
  "reap s i tp = s\<lparr>stable := removeIf (stable s) tp i, tracked := tracked s - {i}\<rparr>"

text \<open>
  \<open>insertConn\<close>: \<^theory_text>\<open>table.insertIfAbsent\<close> with the \<^theory_text>\<open>mkConn\<close> of the caller,
  which gets the connection it replaces and runs on the shared link and clock.
\<close>

definition insertConn :: "Stack \<Rightarrow> fourTuple \<Rightarrow> (Conn option \<Rightarrow> Conn) \<Rightarrow> Stack \<times> connId \<times> bool" where
  "insertConn s tp mkConn =
     (let (ct, i, created, replaced) = insertIfAbsent (stable s) tp (stateOf s) (nextObj s) in
      if \<not> created then (s, i, False)
      else
        (let old = (case replaced of None \<Rightarrow> None | Some r \<Rightarrow> objs s r);
             s = store s i (mkConn old)
         in (s\<lparr>stable := ct, nextObj := Suc (nextObj s)\<rparr>, i, True)))"

definition Dial :: "Stack \<Rightarrow> Endpoint \<Rightarrow> Endpoint \<Rightarrow> u32 \<Rightarrow> Stack \<times> connId" where
  "Dial s local remote iss =
     (let tp = \<lparr>localIP = epIP local, localPort = epPort local,
                remoteIP = epIP remote, remotePort = epPort remote\<rparr>;
          (s, i, created) = insertConn s tp
             (\<lambda>_. ActiveOpen (load s (NewConn (sclk s) local remote)) iss)
      in (if created then track s i else s, i))"

definition ListenOn :: "Stack \<Rightarrow> Endpoint \<Rightarrow> Stack \<times> nat" where
  "ListenOn s local =
     (let ch = nextChan s
      in (s\<lparr>stable := addListener (stable s) local ch, nextChan := Suc ch\<rparr>, ch))"

definition validUnicastSrc :: "ip4 \<Rightarrow> bool" where
  "validUnicastSrc ip =
     (if ip = (0, 0, 0, 0) \<or> ip = (255, 255, 255, 255) then False
      else case ip of (p, q, r, t) \<Rightarrow> \<not> p \<ge> 224)"

definition maybeDeliver :: "Stack \<Rightarrow> connId \<Rightarrow> Stack" where
  "maybeDeliver s i =
     (case objs s i of
        None \<Rightarrow> s
      | Some c \<Rightarrow>
          (case deriveTo c of
             None \<Rightarrow> s
           | Some ch \<Rightarrow>
               if i \<in> delivered s then s
               else if reachedEstablished c then
                 (if length (chans s ch) < acceptCap
                  then s\<lparr>chans := (chans s)(ch := chans s ch @ [i]), delivered := insert i (delivered s)\<rparr>
                  else s)
               else s))"

text \<open>A throw-away CLOSED connection answers; it is in no table.\<close>

definition sendClosedRst :: "Stack \<Rightarrow> IPv4Header \<Rightarrow> TCPHeader \<Rightarrow> byte list \<Rightarrow> Stack" where
  "sendClosedRst s ip h payload =
     (let remote = \<lparr>epIP = SrcAddr ip, epPort = SrcPort h\<rparr>;
          local = \<lparr>epIP = DstAddr ip, epPort = DstPort h\<rparr>;
          tmp = onSegment (load s (NewConn (sclk s) local remote)) h payload
      in s\<lparr>sticks := ticks tmp, sout := outp tmp\<rparr>)"

definition derive :: "Stack \<Rightarrow> listenEntry \<Rightarrow> Endpoint \<Rightarrow> Conn option \<Rightarrow> Conn" where
  "derive s le remote replaced =
     (let nc = load s (NewConn (sclk s) (leLocal le) remote);
          nc = (case replaced of None \<Rightarrow> nc | Some r \<Rightarrow> nc\<lparr>snd_iss := maxSentSeq r + issGap\<rparr>)
      in PassiveOpen nc)"

definition demuxListen ::
  "Stack \<Rightarrow> listenEntry \<Rightarrow> IPv4Header \<Rightarrow> TCPHeader \<Rightarrow> byte list \<Rightarrow> fourTuple \<Rightarrow> Stack" where
  "demuxListen s le ip h payload tp =
     (if Has (HdrFlags h) FlagRST then s
      else if Has (HdrFlags h) FlagACK then sendClosedRst s ip h payload
      else if \<not> Has (HdrFlags h) FlagSYN then s
      else if \<not> validUnicastSrc (SrcAddr ip) then s
      else
        (let remote = \<lparr>epIP = SrcAddr ip, epPort = SrcPort h\<rparr>;
             (s, i, created) = insertConn s tp (derive s le remote);
             s = (if created
                  then track (onConn s i (\<lambda>c. c\<lparr>deriveTo := Some (leAccept le)\<rparr>)) i else s);
             s = onConn s i (\<lambda>c. onSegment c h payload)
         in maybeDeliver s i))"

definition tupleOf :: "IPv4Header \<Rightarrow> TCPHeader \<Rightarrow> fourTuple" where
  "tupleOf ip h = \<lparr>localIP = DstAddr ip, localPort = DstPort h,
     remoteIP = SrcAddr ip, remotePort = SrcPort h\<rparr>"

text \<open>Steps 2 and 3 of \<^theory_text>\<open>demux\<close>: LISTEN, else RST.\<close>

definition demuxRest :: "Stack \<Rightarrow> IPv4Header \<Rightarrow> TCPHeader \<Rightarrow> byte list \<Rightarrow> Stack" where
  "demuxRest s ip h payload =
     (case lookupListener (stable s) (DstAddr ip) (DstPort h) of
        Some le \<Rightarrow> demuxListen s le ip h payload (tupleOf ip h)
      | None \<Rightarrow> sendClosedRst s ip h payload)"

definition demuxSegment :: "Stack \<Rightarrow> IPv4Header \<Rightarrow> TCPHeader \<Rightarrow> byte list \<Rightarrow> Stack" where
  "demuxSegment s ip h payload =
     (case lookup (stable s) (tupleOf ip h) of
        Some i \<Rightarrow>
          (let st = stateOf s i in
           if st = Closed then demuxRest (reap s i (tupleOf ip h)) ip h payload
           else if \<not> (Has (HdrFlags h) FlagSYN \<and> st = TimeWait)
           then maybeDeliver (onConn s i (\<lambda>c. onSegment c h payload)) i
           else demuxRest s ip h payload)
      | None \<Rightarrow> demuxRest s ip h payload)"

definition demux :: "Stack \<Rightarrow> byte list \<Rightarrow> Stack option" where
  "demux s pkt = do {
     r \<leftarrow> decodePacket pkt;
     case r of
       None \<Rightarrow> Some s
     | Some (ip, h, payload) \<Rightarrow> Some (demuxSegment s ip h payload) }"

text \<open>
  One round of \<^theory_text>\<open>tickLoop\<close>: the argument lists the tracked connections in the order
  in which the map is iterated, once for the ticks and once for \<^theory_text>\<open>reapClosed\<close>.
\<close>

definition reapOne :: "Stack \<Rightarrow> connId \<Rightarrow> Stack" where
  "reapOne s i =
     (case objs s i of
        None \<Rightarrow> s
      | Some c \<Rightarrow> if state c = Closed then reap s i (connTuple c) else s)"

definition reapClosed :: "Stack \<Rightarrow> connId list \<Rightarrow> Stack" where
  "reapClosed s order = foldl reapOne s order"

definition tickRound :: "Stack \<Rightarrow> connId list \<Rightarrow> connId list \<Rightarrow> Stack" where
  "tickRound s order order' = reapClosed (foldl (\<lambda>s i. onConn s i Tick) s order) order'"

subsection \<open>Accept\<close>

text \<open>
  \<^theory_text>\<open>Accept\<close> blocks on the channel or on the closing of the listener; when both are
  ready, \<^theory_text>\<open>select\<close> takes either.
\<close>

inductive Accept :: "Stack \<Rightarrow> nat \<Rightarrow> connId option \<Rightarrow> Stack \<Rightarrow> bool" where
  conn: "chans s ch = i # q \<Longrightarrow> Accept s ch (Some i) (s\<lparr>chans := (chans s)(ch := q)\<rparr>)"
| closed: "ch \<in> closedListeners s \<Longrightarrow> Accept s ch None s"

inductive_cases AcceptE: "Accept s ch r s'"
inductive_simps Accept_conn_simp: "Accept s ch (Some i) s'"

definition CloseListener :: "Stack \<Rightarrow> Endpoint \<Rightarrow> nat \<Rightarrow> Stack" where
  "CloseListener s local ch =
     (if ch \<in> closedListeners s then s
      else s\<lparr>stable := removeListener (stable s) local,
             closedListeners := insert ch (closedListeners s)\<rparr>)"

subsection \<open>The identity of a connection never changes\<close>

definition identOf :: "Conn \<Rightarrow> Endpoint \<times> Endpoint \<times> u16 \<times> u16 \<times> nat option \<times> (nat \<Rightarrow> time)" where
  "identOf c = (localEP c, remoteEP c, portsSrc c, portsDst c, deriveTo c, clk c)"

lemma identOf_parts [simp]:
  "identOf (tick c) = identOf c" "identOf (sendAck c) = identOf c"
  "identOf (sendChallengeAck c) = identOf c" "identOf (sendRst c x) = identOf c"
  "identOf (send c f x a) = identOf c" "identOf (sendSyn c f x a) = identOf c"
  "identOf (acceptText c h p) = identOf c" "identOf (restartTimeWait c) = identOf c"
  "identOf (enterTimeWait c) = identOf c" "identOf (flushSend c) = identOf c"
  "identOf (snd (handleAck c h p)) = identOf c"
  "identOf (sampleRTTFromTimestamp c y) = identOf c" "identOf (ackRetxQueue c a) = identOf c"
  "identOf (negotiateFrom c h) = identOf c" "identOf (initSendWindow c h) = identOf c"
  "identOf (snd (Recv c n)) = identOf c" "identOf (checkRetransmit c) = identOf c"
  "identOf (checkFlowTimers c) = identOf c" "identOf (checkKeepAlive c) = identOf c"
  by (simp_all add: identOf_def)

lemma identOf_more [simp]:
  "identOf (handleFin c h) = identOf c" "identOf (checkTimeWait c) = identOf c"
  "identOf (resetConnection c) = identOf c" "identOf (Close c) = identOf c"
  "identOf (snd (Send c d)) = identOf c" "identOf (SetNoDelay c b) = identOf c"
  "identOf (SetRcvBuffer c n) = identOf c" "identOf (SetKeepAlive c b x) = identOf c"
  "identOf (SetMSL c x) = identOf c" "identOf (SetCwnd c n) = identOf c"
  "identOf (ActiveOpen c n) = identOf c" "identOf (PassiveOpen c) = identOf c"
  by (simp_all add: identOf_def handleFin_def checkTimeWait_def resetConnection_def Close_def
      Send_def SetNoDelay_def SetRcvBuffer_def SetKeepAlive_def SetMSL_def SetCwnd_def
      ActiveOpen_def PassiveOpen_def Let_def split: State.splits)

lemma identOf_upd [simp]:
  "identOf (c\<lparr>state := a\<rparr>) = identOf c" "identOf (c\<lparr>tsRecent := b\<rparr>) = identOf c"
  "identOf (c\<lparr>origin := d, state := a\<rparr>) = identOf c" "identOf (c\<lparr>origin := d\<rparr>) = identOf c"
  "identOf (c\<lparr>rcv_irs := v, rcv_nxt := w, snd_una := u, snd_nxt := x, origin := d\<rparr>) = identOf c"
  "identOf (c\<lparr>rcv_irs := v, rcv_nxt := w, snd_una := u, snd_nxt := x\<rparr>) = identOf c"
  "identOf (c\<lparr>state := a, reachedEstablished := e\<rparr>) = identOf c"
  "identOf (c\<lparr>snd_una := u\<rparr>) = identOf c" "identOf (c\<lparr>rcv_irs := v, rcv_nxt := w\<rparr>) = identOf c"
  "identOf (c\<lparr>rcv_irs := v, rcv_nxt := w, snd_una := u, snd_nxt := x, origin := d, state := a\<rparr>) = identOf c"
  "identOf (c\<lparr>lastRecvTime := y, keepaliveProbes := z\<rparr>) = identOf c"
  by (simp_all add: identOf_def)

lemma identOf_onSegmentSynchronized [simp]: "identOf (onSegmentSynchronized c h p) = identOf c"
  by (simp add: onSegmentSynchronized_def ackTextFin_def textAndFin_def handleRst_def Let_def
      case_prod_unfold)

lemma identOf_onSegment [simp]: "identOf (onSegment c h p) = identOf c"
  by (simp add: onSegment_def onSegmentClosed_def onSegmentListen_def onSegmentSynSent_def Let_def
      split: State.splits)

lemma identOf_connStep [simp]: "identOf (connStep c e) = identOf c"
  by (cases e) (simp_all add: Tick_def)

lemma connTuple_ident: "identOf d = identOf c \<Longrightarrow> connTuple d = connTuple c"
  by (simp add: identOf_def connTuple_def)

subsection \<open>Runs of the stack\<close>

inductive stackStep :: "Stack \<Rightarrow> Stack \<Rightarrow> bool" where
  packet: "demux s pkt = Some s' \<Longrightarrow> stackStep s s'"
| dial: "stackStep s (fst (Dial s local remote iss))"
| listen: "stackStep s (fst (ListenOn s local))"
| ticking: "stackStep s (tickRound s order order')"
| user: "stackStep s (onConn s i (\<lambda>c. connStep c e))"
| accepting: "Accept s ch r s' \<Longrightarrow> stackStep s s'"
| closing: "stackStep s (CloseListener s local ch)"

inductive stackRun :: "Stack \<Rightarrow> Stack \<Rightarrow> bool" where
  refl: "stackRun s s"
| step: "stackRun s s' \<Longrightarrow> stackStep s' s'' \<Longrightarrow> stackRun s s''"

text \<open>
  The steps are made of a few updates. The locale says which ones an invariant of the stack
  has to survive, and concludes that it survives every step.
\<close>

locale stack_invariant =
  fixes I :: "Stack \<Rightarrow> bool"
  assumes quiet: "I s \<Longrightarrow> I (s\<lparr>sticks := n, sout := xs\<rparr>)"
    and conn: "I s \<Longrightarrow> (\<And>c. identOf (f c) = identOf c) \<Longrightarrow> I (onConn s i f)"
    and reaping: "I s \<Longrightarrow> I (reap s i tp)"
    and tracking: "I s \<Longrightarrow> I (track s i)"
    and deliver: "I s \<Longrightarrow> I (maybeDeliver s i)"
    and insert: "I s \<Longrightarrow> insertConn s tp mk = (s', i, b) \<Longrightarrow>
      (\<And>old. connTuple (mk old) = tp) \<Longrightarrow> I s'"
    and owned: "I s \<Longrightarrow> insertConn s tp mk = (s', i, True) \<Longrightarrow>
      (\<And>old. connTuple (mk old) = tp) \<Longrightarrow> I (onConn s' i (\<lambda>c. c\<lparr>deriveTo := Some a\<rparr>))"
    and listening: "I s \<Longrightarrow> I (fst (ListenOn s l))"
    and listeners: "I s \<Longrightarrow> lookupListener (stable s) ip port = Some le \<Longrightarrow>
      epIP (leLocal le) = ip \<and> epPort (leLocal le) = port"
    and accepting: "I s \<Longrightarrow> Accept s ch r s' \<Longrightarrow> I s'"
    and closing: "I s \<Longrightarrow> I (CloseListener s l ch)"
begin

lemma rst: "I s \<Longrightarrow> I (sendClosedRst s ip h p)"
  by (simp add: sendClosedRst_def Let_def quiet)

lemma derive_tuple:
  assumes "I s" "lookupListener (stable s) (DstAddr ip) (DstPort h) = Some le"
  shows "connTuple (derive s le \<lparr>epIP = SrcAddr ip, epPort = SrcPort h\<rparr> old) = tupleOf ip h"
  using listeners [OF assms]
  by (simp add: derive_def load_def connTuple_def tupleOf_def NewConn_def PassiveOpen_def Let_def
      split: option.splits)

lemma listen:
  assumes "I s" "lookupListener (stable s) (DstAddr ip) (DstPort h) = Some le"
  shows "I (demuxListen s le ip h p (tupleOf ip h))"
proof -
  let ?mk = "derive s le \<lparr>epIP = SrcAddr ip, epPort = SrcPort h\<rparr>"
  obtain s' i b where r: "insertConn s (tupleOf ip h) ?mk = (s', i, b)" by (metis prod_cases3)
  have s': "I s'" by (rule insert [OF assms(1) r derive_tuple [OF assms]])
  have "I (onConn s' i (\<lambda>c. c\<lparr>deriveTo := Some a\<rparr>))" if b for a
    using r that by (intro owned [OF assms(1) _ derive_tuple [OF assms]]) simp
  then have "I (onConn (if b then track (onConn s' i (\<lambda>c. c\<lparr>deriveTo := Some (leAccept le)\<rparr>)) i else s')
      i (\<lambda>c. onSegment c h p))"
    using s' by (intro conn) (simp_all add: tracking)
  then show ?thesis
    using assms(1) by (simp add: demuxListen_def Let_def r rst deliver)
qed

lemma rest: "I s \<Longrightarrow> I (demuxRest s ip h p)"
  by (auto simp: demuxRest_def rst listen split: option.splits)

lemma seg: "I s \<Longrightarrow> I (demuxSegment s ip h p)"
  by (auto simp: demuxSegment_def Let_def rest reaping deliver conn split: option.splits)

lemma pkt: "I s \<Longrightarrow> demux s bs = Some s' \<Longrightarrow> I s'"
  by (auto simp: demux_def seg split: bind_splits option.splits)

lemma dialling: "I s \<Longrightarrow> I (fst (Dial s local remote iss))"
proof -
  assume s: "I s"
  let ?tp = "\<lparr>localIP = epIP local, localPort = epPort local, remoteIP = epIP remote,
    remotePort = epPort remote\<rparr>"
  let ?mk = "\<lambda>_ :: Conn option. ActiveOpen (load s (NewConn (sclk s) local remote)) iss"
  obtain s' i b where r: "insertConn s ?tp ?mk = (s', i, b)" by (metis prod_cases3)
  have "connTuple (?mk old) = ?tp" for old
    by (simp add: connTuple_def ActiveOpen_def load_def NewConn_def Let_def)
  from insert [OF s r this] show ?thesis by (simp add: Dial_def Let_def r tracking)
qed

lemma reapAll: "I s \<Longrightarrow> I (reapClosed s order)"
  unfolding reapClosed_def
proof (induction order arbitrary: s)
  case (Cons i order)
  have "I (reapOne s i)" using Cons.prems by (auto simp: reapOne_def reaping split: option.splits)
  then show ?case using Cons.IH by simp
qed simp

lemma tickAll: "I s \<Longrightarrow> I (tickRound s order order')"
proof -
  assume s: "I s"
  have t: "identOf (Tick c) = identOf c" for c using identOf_connStep [of c EvTick] by simp
  have "I (foldl (\<lambda>s i. onConn s i Tick) s order)"
    using s by (induction order arbitrary: s) (simp_all add: conn t)
  then show ?thesis by (simp add: tickRound_def reapAll)
qed

lemma stepping: "stackStep s s' \<Longrightarrow> I s \<Longrightarrow> I s'"
  by (induction rule: stackStep.induct)
    (auto simp: pkt dialling listening tickAll conn closing intro: accepting)

lemma running: "stackRun s s' \<Longrightarrow> I s \<Longrightarrow> I s'"
  by (induction rule: stackRun.induct) (auto intro: stepping)

end

subsection \<open>The tables agree with the connections\<close>

definition tableOK :: "Stack \<Rightarrow> bool" where
  "tableOK s \<longleftrightarrow>
     (\<forall>tp i. lookup (stable s) tp = Some i \<longrightarrow> (\<exists>c. objs s i = Some c \<and> connTuple c = tp)) \<and>
     (\<forall>i. objs s i \<noteq> None \<longrightarrow> i < nextObj s) \<and>
     (\<forall>ip port le. lookupListener (stable s) ip port = Some le \<longrightarrow>
        epIP (leLocal le) = ip \<and> epPort (leLocal le) = port)"

lemma onConn_simps [simp]:
  "stable (onConn s i f) = stable s" "nextObj (onConn s i f) = nextObj s"
  "chans (onConn s i f) = chans s" "delivered (onConn s i f) = delivered s"
  "tracked (onConn s i f) = tracked s" "nextChan (onConn s i f) = nextChan s"
  "closedListeners (onConn s i f) = closedListeners s" "sclk (onConn s i f) = sclk s"
  by (simp_all add: onConn_def store_def split: option.splits)

lemma onConn_objs:
  "objs (onConn s i f) j =
     (if j = i then map_option (\<lambda>c. (f (load s c))\<lparr>ticks := 0, outp := []\<rparr>) (objs s i) else objs s j)"
  by (simp add: onConn_def store_def split: option.splits)

lemma connTuple_upd [simp]:
  "connTuple (c\<lparr>ticks := n, outp := xs\<rparr>) = connTuple c" "connTuple (load s c) = connTuple c"
  "connTuple (c\<lparr>deriveTo := a\<rparr>) = connTuple c"
  by (simp_all add: connTuple_def load_def)

lemma maybeDeliver_simps [simp]:
  "stable (maybeDeliver s i) = stable s" "nextObj (maybeDeliver s i) = nextObj s"
  "objs (maybeDeliver s i) = objs s" "tracked (maybeDeliver s i) = tracked s"
  "sout (maybeDeliver s i) = sout s"
  by (simp_all add: maybeDeliver_def split: option.splits)

lemma tableOK_onConn:
  assumes "tableOK s" "\<And>c. connTuple (f c) = connTuple c"
  shows "tableOK (onConn s i f)"
proof -
  have "\<exists>d. objs (onConn s i f) j = Some d \<and> connTuple d = tp"
    if "objs s j = Some c" "connTuple c = tp" for j c tp
    using that assms(2) by (cases "j = i") (simp_all add: onConn_objs)
  moreover have "objs (onConn s i f) j \<noteq> None \<Longrightarrow> objs s j \<noteq> None" for j
    by (cases "j = i") (simp_all add: onConn_objs)
  ultimately show ?thesis using assms(1) unfolding tableOK_def onConn_simps by blast
qed

lemma insertConn_False:
  "insertConn s tp mk = (s', i, False) \<Longrightarrow> s' = s \<and> lookup (stable s) tp = Some i"
  by (auto simp: insertConn_def insertIfAbsent_def lookup_def Let_def split: option.splits if_splits)

lemma insertConn_True:
  assumes "insertConn s tp mk = (s', i, True)"
  obtains old where "i = nextObj s" "nextObj s' = Suc (nextObj s)" "chans s' = chans s"
    "objs s' = (objs s)(i \<mapsto> (mk old)\<lparr>ticks := 0, outp := []\<rparr>)"
    "stable s' = (stable s)\<lparr>tconns := (tconns (stable s))(tp \<mapsto> i)\<rparr>" "delivered s' = delivered s"
    "old = None \<or> (\<exists>r. lookup (stable s) tp = Some r \<and> stateOf s r = TimeWait \<and> old = objs s r)"
  using assms
  by (auto simp: insertConn_def insertIfAbsent_def lookup_def store_def Let_def
      split: option.splits if_splits)

lemma tableOK_insert:
  assumes s: "tableOK s" and r: "insertConn s tp mk = (s', i, b)"
    and mk: "\<And>old. connTuple (mk old) = tp"
  shows "tableOK s'"
proof (cases b)
  case False
  then show ?thesis using insertConn_False [of s tp mk s' i] r s by simp
next
  case True
  then have r': "insertConn s tp mk = (s', i, True)" using r by simp
  obtain old where n: "i = nextObj s" "nextObj s' = Suc (nextObj s)"
    "objs s' = (objs s)(i \<mapsto> (mk old)\<lparr>ticks := 0, outp := []\<rparr>)"
    "stable s' = (stable s)\<lparr>tconns := (tconns (stable s))(tp \<mapsto> i)\<rparr>"
    by (rule insertConn_True [OF r'])
  have fresh: "lookup (stable s) tp' \<noteq> Some i" for tp'
    using s n(1) unfolding tableOK_def by fastforce
  show ?thesis
    using s mk [of old] fresh unfolding tableOK_def n(2-4)
    by (auto simp: lookup_def lookupListener_def n(1) less_Suc_eq split: if_splits)
qed

interpretation tables: stack_invariant tableOK
proof
  show "tableOK (s\<lparr>sticks := n, sout := xs\<rparr>)" if "tableOK s" for s n xs
    using that by (simp add: tableOK_def)
  show "tableOK (onConn s i f)" if "tableOK s" "\<And>c. identOf (f c) = identOf c" for s f i
    using that by (intro tableOK_onConn) (auto intro: connTuple_ident)
  show "tableOK (reap s i tp)" if "tableOK s" for s i tp
    using that by (auto simp: tableOK_def reap_def table.drop_look lookupListener_def split: if_splits)
  show "tableOK (track s i)" "tableOK (maybeDeliver s i)" if "tableOK s" for s i
    using that by (simp_all add: tableOK_def track_def)
  show "tableOK s'" if "tableOK s" "insertConn s tp mk = (s', i, b)" "\<And>old. connTuple (mk old) = tp"
    for s tp mk s' i b using that by (rule tableOK_insert)
  show "tableOK (onConn s' i (\<lambda>c. c\<lparr>deriveTo := Some a\<rparr>))"
    if "tableOK s" "insertConn s tp mk = (s', i, True)" "\<And>old. connTuple (mk old) = tp"
    for s tp mk s' i a
    by (rule tableOK_onConn [OF tableOK_insert [OF that]]) simp
  show "tableOK (fst (ListenOn s l))" if "tableOK s" for s l
    using that by (auto simp: tableOK_def ListenOn_def addListener_def lookup_def lookupListener_def
        Let_def split: if_splits)
  show "epIP (leLocal le) = ip \<and> epPort (leLocal le) = port"
    if "tableOK s" "lookupListener (stable s) ip port = Some le" for s ip port le
    using that unfolding tableOK_def by blast
  show "tableOK s'" if "tableOK s" "Accept s ch r s'" for s ch r s'
    using that(2,1) by cases (auto simp: tableOK_def)
  show "tableOK (CloseListener s l ch)" if "tableOK s" for s l ch
    using that by (auto simp: tableOK_def CloseListener_def removeListener_def lookup_def
        lookupListener_def split: if_splits)
qed

lemma tableOK_new: "tableOK (NewStack clock)"
  by (simp add: tableOK_def NewStack_def newConnTable_def lookup_def lookupListener_def)

subsection \<open>A connection is handed to accept at most once\<close>

text \<open>
  What sits in an accept channel was marked delivered, is there once, and is an existing,
  established connection. The second definition is the same for one connection that has
  already been taken out.
\<close>

definition chansOK :: "Stack \<Rightarrow> bool" where
  "chansOK s \<longleftrightarrow> tableOK s \<and>
     (\<forall>ch. distinct (chans s ch) \<and> set (chans s ch) \<subseteq> delivered s \<and> length (chans s ch) \<le> acceptCap) \<and>
     (\<forall>ch ch'. ch \<noteq> ch' \<longrightarrow> set (chans s ch) \<inter> set (chans s ch') = {}) \<and>
     (\<forall>i\<in>delivered s. i < nextObj s)"

definition takenOut :: "connId \<Rightarrow> Stack \<Rightarrow> bool" where
  "takenOut i s \<longleftrightarrow> chansOK s \<and> i \<in> delivered s \<and> (\<forall>ch. i \<notin> set (chans s ch))"

lemma chansOK_cong:
  assumes "chansOK s" "tableOK s'" "chans s' = chans s" "delivered s' = delivered s"
    "nextObj s \<le> nextObj s'"
  shows "chansOK s'"
  using assms by (auto simp: chansOK_def intro: less_le_trans)

lemma takenOut_cong:
  assumes "takenOut i s" "tableOK s'" "chans s' = chans s" "delivered s' = delivered s"
    "nextObj s \<le> nextObj s'"
  shows "takenOut i s'"
  using assms chansOK_cong [of s s'] by (simp add: takenOut_def)

lemma maybeDeliver_cases:
  obtains "maybeDeliver s i = s"
  | c ch where "objs s i = Some c" "deriveTo c = Some ch" "i \<notin> delivered s" "reachedEstablished c"
    "length (chans s ch) < acceptCap"
    "maybeDeliver s i =
       s\<lparr>chans := (chans s)(ch := chans s ch @ [i]), delivered := insert i (delivered s)\<rparr>"
proof (cases "objs s i")
  case None
  then show ?thesis by (intro that(1)) (simp add: maybeDeliver_def)
next
  case (Some c)
  show ?thesis
  proof (cases "deriveTo c")
    case None
    with Some show ?thesis by (intro that(1)) (simp add: maybeDeliver_def)
  next
    case ch: (Some ch)
    show ?thesis
    proof (cases "i \<notin> delivered s \<and> reachedEstablished c \<and> length (chans s ch) < acceptCap")
      case True
      show ?thesis
        by (rule that(2) [of c ch]) (use True Some ch in \<open>simp_all add: maybeDeliver_def\<close>)
    next
      case False
      with Some ch show ?thesis by (intro that(1)) (auto simp: maybeDeliver_def)
    qed
  qed
qed

lemma chansOK_head:
  assumes "chansOK s" "chans s ch = i # q"
  shows "distinct q" "i \<notin> set q" "i \<in> delivered s" "set q \<subseteq> delivered s" "length q \<le> acceptCap"
    "\<And>ch'. ch' \<noteq> ch \<Longrightarrow> set (chans s ch') \<inter> set (i # q) = {}"
proof -
  have a: "distinct (chans s ch)" "set (chans s ch) \<subseteq> delivered s" "length (chans s ch) \<le> acceptCap"
    "\<And>ch'. ch' \<noteq> ch \<Longrightarrow> set (chans s ch') \<inter> set (chans s ch) = {}"
    using assms(1) by (simp_all add: chansOK_def)
  show "distinct q" "i \<notin> set q" "i \<in> delivered s" "set q \<subseteq> delivered s" "length q \<le> acceptCap"
    "\<And>ch'. ch' \<noteq> ch \<Longrightarrow> set (chans s ch') \<inter> set (i # q) = {}"
    using a unfolding assms(2) by auto
qed

lemma chansOK_deliver:
  assumes "chansOK s"
  shows "chansOK (maybeDeliver s i)"
proof (cases rule: maybeDeliver_cases [of s i])
  case (2 c ch)
  have t: "tableOK s" using assms by (simp add: chansOK_def)
  then have "i < nextObj s" using 2(1) unfolding tableOK_def by blast
  moreover have "\<forall>ch. i \<notin> set (chans s ch)" using assms 2(3) unfolding chansOK_def by blast
  moreover have "tableOK (maybeDeliver s i)" by (rule tables.deliver [OF t])
  ultimately show ?thesis
    using assms 2(5) unfolding chansOK_def 2(6) by (auto simp: acceptCap_def)
qed (use assms in simp)

lemma takenOut_deliver:
  assumes "takenOut k s"
  shows "takenOut k (maybeDeliver s i)"
proof (cases rule: maybeDeliver_cases [of s i])
  case (2 c ch)
  have "chansOK (maybeDeliver s i)" using assms by (intro chansOK_deliver) (simp add: takenOut_def)
  moreover have "k \<noteq> i" using assms 2(3) by (auto simp: takenOut_def)
  ultimately show ?thesis using assms 2(6) by (simp add: takenOut_def)
qed (use assms in simp)

lemma insertConn_frames:
  "insertConn s tp mk = (s', i, b) \<Longrightarrow>
     chans s' = chans s \<and> delivered s' = delivered s \<and> nextObj s \<le> nextObj s'"
  by (auto simp: insertConn_def store_def Let_def split: prod.splits if_splits)

lemma chansOK_accept:
  assumes "chansOK s" "Accept s ch r s'"
  shows "chansOK s'"
  using assms(2)
proof cases
  case (conn i q)
  have "tableOK s'" using assms tables.accepting by (auto simp: chansOK_def)
  have ch: "chans s' = (chans s)(ch := q)" "delivered s' = delivered s" "nextObj s' = nextObj s"
    by (simp_all add: conn)
  note h = chansOK_head [OF assms(1) conn(3)]
  have "set (chans s' c1) \<inter> set (chans s' c2) = {}" if "c1 \<noteq> c2" for c1 c2
    using h(6) [of c1] h(6) [of c2] assms(1) that
    by (cases "c1 = ch"; cases "c2 = ch") (auto simp: ch chansOK_def)
  then show ?thesis
    using \<open>tableOK s'\<close> h(1,4,5) assms(1) by (auto simp: chansOK_def ch)
qed (use assms in simp)

lemma takenOut_accept:
  assumes "takenOut k s" "Accept s ch r s'"
  shows "takenOut k s'"
proof -
  have c: "chansOK s'" using assms chansOK_accept by (auto simp: takenOut_def)
  from assms(2) show ?thesis
  proof cases
    case (conn i q)
    have "k \<notin> set q" using assms(1) conn(3) unfolding takenOut_def by (metis list.set_intros(2))
    then show ?thesis using assms(1) c conn(2) by (auto simp: takenOut_def)
  qed (use assms(1) in simp)
qed

interpretation channels: stack_invariant chansOK
proof
  fix s assume "chansOK s"
  then have t: "tableOK s" by (simp add: chansOK_def)
  note cong = chansOK_cong [OF \<open>chansOK s\<close>]
  show "chansOK (s\<lparr>sticks := n, sout := xs\<rparr>)" for n xs
    by (rule cong [OF tables.quiet [OF t]]) simp_all
  show "chansOK (onConn s i f)" if "\<And>c. identOf (f c) = identOf c" for i f
    by (rule cong [OF tables.conn [OF t that]]) simp_all
  show "chansOK (reap s i tp)" for i tp
    by (rule cong [OF tables.reaping [OF t]]) (simp_all add: reap_def)
  show "chansOK (track s i)" for i
    by (rule cong [OF tables.tracking [OF t]]) (simp_all add: track_def)
  show "chansOK (maybeDeliver s i)" for i by (rule chansOK_deliver [OF \<open>chansOK s\<close>])
  show "chansOK s'" if "insertConn s tp mk = (s', i, b)" "\<And>old. connTuple (mk old) = tp" for tp mk s' i b
    using cong [OF tables.insert [OF t that]] insertConn_frames [OF that(1)] by simp
  show "chansOK (onConn s' i (\<lambda>c. c\<lparr>deriveTo := Some a\<rparr>))"
    if "insertConn s tp mk = (s', i, True)" "\<And>old. connTuple (mk old) = tp" for tp mk s' i a
    using cong [OF tables.owned [OF t that]] insertConn_frames [OF that(1)] by simp
  show "chansOK (fst (ListenOn s l))" for l
    by (rule cong [OF tables.listening [OF t]]) (simp_all add: ListenOn_def Let_def)
  show "epIP (leLocal le) = ip \<and> epPort (leLocal le) = port"
    if "lookupListener (stable s) ip port = Some le" for ip port le
    by (rule tables.listeners [OF t that])
  show "chansOK s'" if "Accept s ch r s'" for ch r s' by (rule chansOK_accept [OF \<open>chansOK s\<close> that])
  show "chansOK (CloseListener s l ch)" for l ch
    by (rule cong [OF tables.closing [OF t]]) (simp_all add: CloseListener_def)
qed

interpretation taken: stack_invariant "takenOut k" for k
proof
  fix s assume k: "takenOut k s"
  then have t: "tableOK s" by (simp add: chansOK_def takenOut_def)
  note cong = takenOut_cong [OF k]
  show "takenOut k (s\<lparr>sticks := n, sout := xs\<rparr>)" for n xs
    by (rule cong [OF tables.quiet [OF t]]) simp_all
  show "takenOut k (onConn s i f)" if "\<And>c. identOf (f c) = identOf c" for i f
    by (rule cong [OF tables.conn [OF t that]]) simp_all
  show "takenOut k (reap s i tp)" for i tp
    by (rule cong [OF tables.reaping [OF t]]) (simp_all add: reap_def)
  show "takenOut k (track s i)" for i
    by (rule cong [OF tables.tracking [OF t]]) (simp_all add: track_def)
  show "takenOut k (maybeDeliver s i)" for i by (rule takenOut_deliver [OF k])
  show "takenOut k s'" if "insertConn s tp mk = (s', i, b)" "\<And>old. connTuple (mk old) = tp" for tp mk s' i b
    using cong [OF tables.insert [OF t that]] insertConn_frames [OF that(1)] by simp
  show "takenOut k (onConn s' i (\<lambda>c. c\<lparr>deriveTo := Some a\<rparr>))"
    if "insertConn s tp mk = (s', i, True)" "\<And>old. connTuple (mk old) = tp" for tp mk s' i a
    using cong [OF tables.owned [OF t that]] insertConn_frames [OF that(1)] by simp
  show "takenOut k (fst (ListenOn s l))" for l
    by (rule cong [OF tables.listening [OF t]]) (simp_all add: ListenOn_def Let_def)
  show "epIP (leLocal le) = ip \<and> epPort (leLocal le) = port"
    if "lookupListener (stable s) ip port = Some le" for ip port le
    by (rule tables.listeners [OF t that])
  show "takenOut k s'" if "Accept s ch r s'" for ch r s' by (rule takenOut_accept [OF k that])
  show "takenOut k (CloseListener s l ch)" for l ch
    by (rule cong [OF tables.closing [OF t]]) (simp_all add: CloseListener_def)
qed

lemma chansOK_new: "chansOK (NewStack clock)"
  using tableOK_new [of clock] by (simp add: chansOK_def) (simp add: NewStack_def)

lemma accept_takes:
  assumes "chansOK s" "Accept s ch (Some i) s'"
  shows "takenOut i s'"
proof -
  have c: "chansOK s'" by (rule chansOK_accept [OF assms])
  obtain q where q: "chans s ch = i # q" "s' = s\<lparr>chans := (chans s)(ch := q)\<rparr>"
    using assms(2) by (auto elim: AcceptE)
  note h = chansOK_head [OF assms(1) q(1)]
  have "i \<notin> set (chans s ch')" if "ch' \<noteq> ch" for ch' using h(6) [OF that] by auto
  moreover have "i \<notin> set q" "i \<in> delivered s" using h by simp_all
  ultimately show ?thesis using c q(2) by (simp add: takenOut_def)
qed

subsection \<open>Routing\<close>

lemma sendClosedRst_simps [simp]:
  "objs (sendClosedRst s ip h p) = objs s" "stable (sendClosedRst s ip h p) = stable s"
  "chans (sendClosedRst s ip h p) = chans s" "nextObj (sendClosedRst s ip h p) = nextObj s"
  by (simp_all add: sendClosedRst_def Let_def)

lemma reap_simps [simp]:
  "objs (reap s i tp) = objs s" "nextObj (reap s i tp) = nextObj s" "sout (reap s i tp) = sout s"
  by (simp_all add: reap_def)

lemma track_simps [simp]:
  "objs (track s i) = objs s" "sout (track s i) = sout s"
  by (simp_all add: track_def)

lemma demuxListen_isolated:
  assumes "tableOK s" "objs s j = Some c" "connTuple c \<noteq> tp"
  shows "objs (demuxListen s le ip h p tp) j = Some c"
proof -
  let ?mk = "derive s le \<lparr>epIP = SrcAddr ip, epPort = SrcPort h\<rparr>"
  obtain s' i b where r: "insertConn s tp ?mk = (s', i, b)" by (metis prod_cases3)
  have "i \<noteq> j \<and> objs s' j = Some c"
  proof (cases b)
    case False
    then have "s' = s" "lookup (stable s) tp = Some i"
      using insertConn_False [of s tp ?mk s' i] r by simp_all
    with assms show ?thesis unfolding tableOK_def by fastforce
  next
    case True
    then have r': "insertConn s tp ?mk = (s', i, True)" using r by simp
    obtain old where o: "i = nextObj s" "objs s' = (objs s)(i \<mapsto> (?mk old)\<lparr>ticks := 0, outp := []\<rparr>)"
      by (rule insertConn_True [OF r'])
    have "j < nextObj s" using assms(1,2) unfolding tableOK_def by blast
    then show ?thesis using o assms(2) by simp
  qed
  then show ?thesis using assms(2) by (simp add: demuxListen_def Let_def r onConn_objs)
qed

lemma demuxRest_isolated:
  assumes "tableOK s" "objs s j = Some c" "connTuple c \<noteq> tupleOf ip h"
  shows "objs (demuxRest s ip h p) j = Some c"
  using demuxListen_isolated [OF assms] assms(2) by (simp add: demuxRest_def split: option.splits)

lemma demuxSegment_isolated:
  assumes "tableOK s" "objs s j = Some c" "connTuple c \<noteq> tupleOf ip h"
  shows "objs (demuxSegment s ip h p) j = Some c"
proof (cases "lookup (stable s) (tupleOf ip h)")
  case (Some i)
  then have "i \<noteq> j" using assms unfolding tableOK_def by fastforce
  moreover have "objs (demuxRest (reap s i (tupleOf ip h)) ip h p) j = Some c"
    using assms by (intro demuxRest_isolated tables.reaping) simp_all
  ultimately show ?thesis
    using Some assms demuxRest_isolated [OF assms]
    by (simp add: demuxSegment_def Let_def onConn_objs)
qed (use demuxRest_isolated [OF assms] in \<open>simp add: demuxSegment_def\<close>)

lemma onSegment_closed_rst:
  assumes "state c = Closed" "Has (HdrFlags h) FlagRST"
  shows "outp (onSegment c h p) = outp c"
  using assms by (simp add: onSegment_def onSegmentClosed_def Let_def)

lemma sendClosedRst_rst: "Has (HdrFlags h) FlagRST \<Longrightarrow> sout (sendClosedRst s ip h p) = sout s"
  by (simp add: sendClosedRst_def onSegment_closed_rst Let_def) (simp add: load_def NewConn_def onSegment_closed_rst)

lemma demuxRest_rst:
  assumes "Has (HdrFlags h) FlagRST"
  shows "objs (demuxRest s ip h p) = objs s \<and> stable (demuxRest s ip h p) = stable s \<and>
    sout (demuxRest s ip h p) = sout s"
  using sendClosedRst_rst [OF assms] assms
  by (simp add: demuxRest_def demuxListen_def split: option.splits)

section \<open>Properties\<close>

text \<open>
  C22: connections are isolated. A segment leaves every connection whose 4-tuple is not its
  own exactly as it was, whether it is dispatched, opens a connection at a listener,
  replaces a TIME-WAIT connection or is answered with a RST.
\<close>

theorem demux_isolates_connections:
  assumes "stackRun (NewStack clock) s" "objs s j = Some c" "connTuple c \<noteq> tupleOf ip h"
  shows "objs (demuxSegment s ip h payload) j = Some c"
  using tables.running [OF assms(1) tableOK_new] assms(2,3) by (rule demuxSegment_isolated)

theorem demux_isolates_connections_witness:
  "let s = fst (Dial (NewStack (\<lambda>_. 0)) \<lparr>epIP = (10, 0, 0, 1), epPort = 80\<rparr>
       \<lparr>epIP = (10, 0, 0, 2), epPort = 9\<rparr> 7);
       ip = \<lparr>Version = 4, IHL = 5, TotalLength = 40, ID = 0, TTL = 64, Protocol = 6,
         SrcAddr = (1, 2, 3, 4), DstAddr = (10, 0, 0, 1)\<rparr>
   in objs (demuxSegment s ip (demoHeader FlagSYN 5 0) []) 0 = objs s 0 \<and> objs s 0 \<noteq> None"
proof -
  let ?l = "\<lparr>epIP = (10, 0, 0, 1), epPort = 80\<rparr>" and ?r = "\<lparr>epIP = (10, 0, 0, 2), epPort = 9\<rparr>"
  let ?s = "fst (Dial (NewStack (\<lambda>_. 0)) ?l ?r 7)"
  let ?ip = "\<lparr>Version = 4, IHL = 5, TotalLength = 40, ID = 0, TTL = 64, Protocol = 6,
         SrcAddr = (1, 2, 3, 4), DstAddr = (10, 0, 0, 1)\<rparr>"
  have run: "stackRun (NewStack (\<lambda>_. 0)) ?s"
    by (rule stackRun.step [OF stackRun.refl stackStep.dial])
  have o: "objs ?s 0 = Some ((ActiveOpen (load (NewStack (\<lambda>_. 0)) (NewConn (\<lambda>_. 0) ?l ?r)) 7)
      \<lparr>ticks := 0, outp := []\<rparr>)"
    by (simp add: Dial_def insertConn_def insertIfAbsent_def NewStack_def newConnTable_def store_def
        track_def)
  have "connTuple ((ActiveOpen (load (NewStack (\<lambda>_. 0)) (NewConn (\<lambda>_. 0) ?l ?r)) 7)
      \<lparr>ticks := 0, outp := []\<rparr>) \<noteq> tupleOf ?ip (demoHeader FlagSYN 5 0)"
    by (simp add: connTuple_def tupleOf_def ActiveOpen_def load_def NewConn_def Let_def)
  from demux_isolates_connections [OF run o this] o show ?thesis by simp
qed

text \<open>
  C23: the connection table agrees with the connections. In every state a stack can reach by
  packets, dials, listens, ticks, user calls, accepts and closes, what the table finds under
  a 4-tuple is an existing connection with exactly these endpoints, and what it finds for a
  local address is a listener of that address.
\<close>

theorem table_agrees_with_connections:
  assumes "stackRun (NewStack clock) s"
  shows "(case lookup (stable s) tp of
      None \<Rightarrow> True | Some i \<Rightarrow> (case objs s i of None \<Rightarrow> False | Some c \<Rightarrow> connTuple c = tp)) \<and>
    (case lookupListener (stable s) ip port of
      None \<Rightarrow> True | Some le \<Rightarrow> epIP (leLocal le) = ip \<and> epPort (leLocal le) = port)"
proof
  show "case lookup (stable s) tp of
      None \<Rightarrow> True | Some i \<Rightarrow> (case objs s i of None \<Rightarrow> False | Some c \<Rightarrow> connTuple c = tp)"
    using tables.running [OF assms tableOK_new] unfolding tableOK_def by (fastforce split: option.splits)
  show "case lookupListener (stable s) ip port of
      None \<Rightarrow> True | Some le \<Rightarrow> epIP (leLocal le) = ip \<and> epPort (leLocal le) = port"
    using tables.running [OF assms tableOK_new] unfolding tableOK_def by (fastforce split: option.splits)
qed

theorem table_agrees_with_connections_witness:
  "let s = fst (Dial (NewStack (\<lambda>_. 0)) \<lparr>epIP = (10, 0, 0, 1), epPort = 80\<rparr>
       \<lparr>epIP = (10, 0, 0, 2), epPort = 9\<rparr> 7)
   in case lookup (stable s) \<lparr>localIP = (10, 0, 0, 1), localPort = 80, remoteIP = (10, 0, 0, 2),
        remotePort = 9\<rparr> of
      None \<Rightarrow> True | Some i \<Rightarrow> (case objs s i of None \<Rightarrow> False | Some c \<Rightarrow> connTuple c =
        \<lparr>localIP = (10, 0, 0, 1), localPort = 80, remoteIP = (10, 0, 0, 2), remotePort = 9\<rparr>)"
  unfolding Let_def
  by (rule table_agrees_with_connections [OF stackRun.step [OF stackRun.refl stackStep.dial], THEN conjunct1])

text \<open>
  C24: a connection is handed to the application at most once. After \<open>Accept\<close>
  has returned a connection, no later run of the stack, with whatever packets, ticks and
  calls, makes any \<open>Accept\<close> return it again. The invariant
  \<open>chansOK\<close> of the start holds in every state of a run.
\<close>

theorem accepted_at_most_once:
  assumes "chansOK s" "Accept s ch (Some i) s'" "stackRun s' t" "Accept t ch' (Some j) t'"
  shows "i \<noteq> j"
proof -
  have "takenOut i s'" by (rule accept_takes [OF assms(1,2)])
  then have "takenOut i t" by (rule taken.running [OF assms(3)])
  then have "i \<notin> set (chans t ch')" by (simp add: takenOut_def)
  moreover obtain q where "chans t ch' = j # q" using assms(4) by (auto elim: AcceptE)
  ultimately show ?thesis by auto
qed

theorem accepted_at_most_once_witness:
  "let s = (NewStack (\<lambda>_. 0))\<lparr>nextObj := 2, chans := (\<lambda>_. [])(0 := [0, 1]), delivered := {0, 1}\<rparr>;
       s' = s\<lparr>chans := (chans s)(0 := [1])\<rparr>; s'' = s'\<lparr>chans := (chans s')(0 := [])\<rparr>
   in Accept s 0 (Some 0) s' \<and> Accept s' 0 (Some 1) s'' \<and> (0 :: connId) \<noteq> 1"
proof -
  let ?s = "(NewStack (\<lambda>_. 0))\<lparr>nextObj := 2, chans := (\<lambda>_. [])(0 := [0, 1]), delivered := {0, 1}\<rparr>"
  let ?t = "?s\<lparr>chans := (chans ?s)(0 := [1])\<rparr>"
  let ?u = "?t\<lparr>chans := (chans ?t)(0 := [])\<rparr>"
  have a: "Accept ?s 0 (Some 0) ?t" "Accept ?t 0 (Some 1) ?u" by (rule Accept.conn, simp)+
  have "chansOK ?s"
    by (auto simp: chansOK_def tableOK_def NewStack_def newConnTable_def lookup_def lookupListener_def
        acceptCap_def)
  from accepted_at_most_once [OF this a(1) stackRun.refl a(2)] a show ?thesis unfolding Let_def by blast
qed


end
