(* ===== verification/Tcp_Transfer.thy ===== *)
theory Tcp_Transfer
  imports Tcp_Invariants Tcp_Reassembly Tcp_Stack
begin

unbundle bit_operations_syntax

section \<open>From one application to the other\<close>

text \<open>
  The composition of the two halves. \<open>transmits c W\<close> is a run of a sending connection with all
  bytes \<open>W\<close> that its \<open>Send\<close> has accepted; \<open>textOk\<close> says that whatever text it has on the wire
  or in its queue is the part of \<open>W\<close> that belongs to its sequence number, and that a FIN stands
  exactly behind the last byte. \<open>receives\<close> is a run of a receiving connection whose segments
  are packets of a given list, in any order, with losses and repetitions.
\<close>

subsection \<open>Text on the wire\<close>

definition piece :: "u32 \<Rightarrow> byte list \<Rightarrow> u32 \<Rightarrow> byte list \<Rightarrow> bool" where
  "piece b W s p \<longleftrightarrow> (\<exists>q. s = b + of_nat q \<and> q + length p \<le> length W \<and> p = take (length p) (drop q W))"

definition okText :: "u32 \<Rightarrow> byte list \<Rightarrow> bool \<Rightarrow> segFilter" where
  "okText b W fin f s p \<longleftrightarrow>
     (if Has f FlagFIN then fin \<and> p = [] \<and> s = b + of_nat (length W) else p = [] \<or> piece b W s p)"

definition okPacket :: "u32 \<Rightarrow> byte list \<Rightarrow> bool \<Rightarrow> byte list \<Rightarrow> bool" where
  "okPacket b W fin pkt =
     (case decodePacket pkt of
        Some (Some (ip, h, p)) \<Rightarrow> okText b W fin (HdrFlags h) (SeqNum h) p
      | _ \<Rightarrow> True)"

definition textOk :: "u32 \<Rightarrow> byte list \<Rightarrow> bool \<Rightarrow> Conn \<Rightarrow> bool" where
  "textOk b W fin c \<longleftrightarrow> (\<forall>pkt\<in>set (outp c). okPacket b W fin pkt) \<and>
     (\<forall>r\<in>set (retxQueue c). fits (okText b W fin) r)"

lemma Has_wire_FIN: "Has (f AND 0x3F) FlagFIN = Has f FlagFIN"
proof -
  have "(f AND 0x3F) AND 1 = f AND (1 :: Flags)" by (simp add: and.assoc)
  then show ?thesis by (simp add: Has_def FlagFIN_def)
qed

lemma okPacket_packetOf:
  assumes "goodOpts o'" "length p \<le> wireLimit" "okText b W fin f s p"
  shows "okPacket b W fin (packetOf c f s a p o')"
  using assms decode_packetOf [of o' p c f s a]
  by (simp add: okPacket_def goodOpts_def okText_def Has_wire_FIN)

interpretation script: wire_step "textOk b W fin" "okText b W fin" "\<lambda>_. True" for b W fin
proof
  fix c o' p f s a
  assume c: "textOk b W fin c" "goodOpts o'" "length p \<le> wireLimit" "okText b W fin f s p"
  obtain o'' where "outp (writeSegOpts c f s a p o') = outp c @ [packetOf c f s a p o'']" "goodOpts o''"
    using writeSegOpts_outp [of c f s a p o'] c(2) by blast
  then show "textOk b W fin (writeSegOpts c f s a p o')"
    using c okPacket_packetOf [of o'' p b W fin f s c a] by (auto simp: textOk_def)
next
  show "okText b W fin f s []" if "\<not> Has f FlagFIN" for f s using that by (simp add: okText_def)
qed (simp_all add: textOk_def)

lemma piece_append: "piece b W s p \<Longrightarrow> piece b (W @ x) s p"
  unfolding piece_def by (elim exE conjE, rule_tac x = q in exI) auto

lemma okText_mono: "okText b W False f s p \<Longrightarrow> okText b (W @ x) fin f s p"
  by (auto simp: okText_def piece_append split: if_splits)

lemma textOk_mono: "textOk b W False c \<Longrightarrow> textOk b (W @ x) fin c"
  using okText_mono by (fastforce simp: textOk_def okPacket_def fits_def split: option.splits)

lemma feeds_fin: "feeds (okText b W fin) c = feeds (okText b W False) c"
  by (simp add: feeds_def okText_def Has_or)

lemma feeds_suffix:
  assumes "snd_una c + of_nat (length (sndBuf c)) = b + of_nat (length W)" "suffix (sndBuf c) W"
  shows "feeds (okText b W fin) c"
proof -
  obtain us where W: "W = us @ sndBuf c" using assms(2) by (auto simp: suffix_def)
  have u: "snd_una c = b + of_nat (length us)" using assms(1) by (simp add: W add.commute)
  have "piece b W (snd_una c + of_nat off) (take n (drop off (sndBuf c)))"
    if "off + n \<le> length (sndBuf c)" for off n
    unfolding piece_def u
    by (rule exI [of _ "length us + off"]) (use that in \<open>simp add: W\<close>)
  then show ?thesis by (simp add: feeds_def okText_def Has_or)
qed

subsection \<open>What a segment does to the send buffer\<close>

definition ackedBy :: "u32 \<Rightarrow> Conn \<Rightarrow> Conn \<Rightarrow> bool" where
  "ackedBy a c d \<longleftrightarrow> sndBuf d = sndBuf c \<and> snd_una d = snd_una c \<or>
     AcceptableAck (snd_una c) a (snd_nxt c) \<and> snd_una d = a \<and>
     sndBuf d = drop (dist (snd_una c) a) (sndBuf c)"

lemma ackedBy_refl [simp]: "ackedBy a c c"
  by (simp add: ackedBy_def)

lemma ackedBy_view:
  "sndBuf d' = sndBuf d \<Longrightarrow> snd_una d' = snd_una d \<Longrightarrow> ackedBy a c d' = ackedBy a c d"
  "sndBuf c' = sndBuf c \<Longrightarrow> snd_una c' = snd_una c \<Longrightarrow> snd_nxt c' = snd_nxt c \<Longrightarrow>
     ackedBy a c' d = ackedBy a c d"
  by (simp_all add: ackedBy_def)

lemma handleAck_acked: "ackedBy (AckNum h) c (snd (handleAck c h p))"
proof -
  have o': "sndBuf (onDuplicateAck c h) = sndBuf c" "snd_una (onDuplicateAck c h) = snd_una c"
    by simp_all
  have "ackedBy (AckNum h) c (ackCore c h p)"
    by (simp add: ackedBy_def ackCore_def newAck_queue o')
  then have "ackedBy (AckNum h) c (flushSend (advanceStateOnAck (ackCore c h p) h))"
    by (subst ackedBy_view(1) [of _ "ackCore c h p"]) simp_all
  then show ?thesis by (simp add: handleAck_snd ackedBy_view(1) [of "sendRst c x" c for x]
      ackedBy_view(1) [of "sendChallengeAck c" c])
qed

lemma textAndFin_send [simp]:
  "sndBuf (textAndFin c h p) = sndBuf c" "snd_una (textAndFin c h p) = snd_una c"
  using sendView_textAndFin [of c h p] by (simp_all add: sendView_def)

lemma ackTextFin_acked: "ackedBy (AckNum h) c (ackTextFin c h p)"
proof (cases rule: ackTextFin_split [of c h p])
  case (ackless x)
  then show ?thesis by (simp add: ackedBy_def)
next
  case (acked x d)
  have d: "sndBuf d = sndBuf c" "snd_una d = snd_una c" "snd_nxt d = snd_nxt c" using acked(1) by auto
  have "ackedBy (AckNum h) c (snd (handleAck d h p))"
    using handleAck_acked [of h d p] ackedBy_view(2) [OF d] by simp
  then show ?thesis using acked(4) by (simp add: ackedBy_view(1) [of "textAndFin e h p" e for e])
qed

lemma synchronized_acked: "ackedBy (AckNum h) c (onSegmentSynchronized c h p)"
proof -
  have v: "ackedBy a c d" if "sndBuf d = sndBuf c" "snd_una d = snd_una c" for a d
    using that by (simp add: ackedBy_def)
  have "ackedBy (AckNum h) c (resetConnection c)" by (rule v) (simp_all add: resetConnection_def)
  then have "ackedBy (AckNum h) c (handleRst c h)" by (simp add: handleRst_def v)
  then show ?thesis
    using ackTextFin_acked [of h c p] by (simp add: onSegmentSynchronized_def Let_def v)
qed

text \<open>The state, the send variables and the ISS at the start of \<open>onSegment\<close>.\<close>

lemma onSegment_acked:
  assumes "state c \<notin> {Listen, SynSent}"
  shows "ackedBy (AckNum h) c (onSegment c h p)"
proof -
  define d where "d = tick (c\<lparr>lastRecvTime := now c, keepaliveProbes := 0\<rparr>)"
  have d: "sndBuf d = sndBuf c" "snd_una d = snd_una c" "snd_nxt d = snd_nxt c" "state d = state c"
    by (simp_all add: d_def)
  have "onSegment c h p = (if state c = Closed then onSegmentClosed d h p else onSegmentSynchronized d h p)"
    using assms unfolding onSegment_def Let_def d_def [symmetric] d(4) by (cases "state c") simp_all
  moreover have "ackedBy (AckNum h) d (onSegmentClosed d h p)"
    by (simp add: ackedBy_def onSegmentClosed_def Let_def)
  ultimately show ?thesis
    using synchronized_acked [of h d p] ackedBy_view(2) [OF d(1-3)] by simp
qed

lemma onSegment_opening:
  assumes "state c \<in> {Listen, SynSent}" "sndBuf c = []"
  shows "sndBuf (onSegment c h p) = []"
  using assms by (auto simp: onSegment_def onSegmentListen_def onSegmentSynSent_def Let_def)

lemma ackedBy_Nil: "ackedBy a c d \<Longrightarrow> sndBuf c = [] \<Longrightarrow> sndBuf d = []"
  by (auto simp: ackedBy_def)

lemma feeds_acked: "feeds ok c \<Longrightarrow> ackedBy a c d \<Longrightarrow> feeds ok d"
proof -
  assume f: "feeds ok c" and a: "ackedBy a c d"
  show ?thesis
  proof (cases "sndBuf d = sndBuf c \<and> snd_una d = snd_una c")
    case True
    then show ?thesis using f feeds_cong [of d c] by simp
  next
    case False
    let ?h = "\<lparr>SrcPort = 0, DstPort = 0, SeqNum = 0, AckNum = a, DataOffset = 0, HdrFlags = 0,
      Window = 0, HdrChecksum = 0, UrgentPtr = 0, Options = []\<rparr>"
    have "sndBuf d = sndBuf (newAck c ?h)" "snd_una d = snd_una (newAck c ?h)"
      using a False by (auto simp: ackedBy_def newAck_queue)
    then show ?thesis using feeds_newAck [OF f, of ?h] feeds_cong [of d "newAck c ?h"] by simp
  qed
qed

subsection \<open>The ISS never changes once a connection is open\<close>

lemma snd_iss_segment [simp]: "snd_iss (onSegment c h p) = snd_iss c"
proof -
  have "snd_iss (textAndFin d h p) = snd_iss d" for d
    using sendView_textAndFin [of d h p] by (simp add: sendView_def)
  then have "snd_iss (ackTextFin d h p) = snd_iss d" for d
    by (simp add: ackTextFin_def Let_def case_prod_unfold)
  then have "snd_iss (onSegmentSynchronized d h p) = snd_iss d" for d
    by (simp add: onSegmentSynchronized_def handleRst_def resetConnection_def Let_def)
  then show ?thesis
    by (simp add: onSegment_def onSegmentListen_def onSegmentSynSent_def onSegmentClosed_def Let_def
        split: State.splits)
qed

lemma snd_iss_step [simp]: "snd_iss (connStep c e) = snd_iss c"
  by (cases e) (simp_all add: Tick_def Close_def Send_def SetNoDelay_def SetRcvBuffer_def
      SetKeepAlive_def SetMSL_def SetCwnd_def Let_def split: State.splits)

subsection \<open>Runs of a sender\<close>

definition accepted :: "Conn \<Rightarrow> ConnEvent \<Rightarrow> byte list" where
  "accepted c e = (case e of
     EvSend d \<Rightarrow> (case fst (Send c d) of Inr n \<Rightarrow> take n d | Inl err \<Rightarrow> [])
   | _ \<Rightarrow> [])"

text \<open>
  The application accepts two duties: less than 2^30 bytes in all, and \<open>Close\<close> only when every
  byte has been sent at least once (\<open>Close\<close> does not flush the buffer).
\<close>

definition allSent :: "Conn \<Rightarrow> bool" where
  "allSent c \<longleftrightarrow> inflight c = length (sndBuf c)"

definition orderly :: "Conn \<Rightarrow> byte list \<Rightarrow> ConnEvent \<Rightarrow> bool" where
  "orderly c W e \<longleftrightarrow> length (W @ accepted c e) < 1073741824 \<and>
     (e = EvClose \<and> state c \<in> {Established, CloseWait} \<longrightarrow> allSent c)"

inductive transmits :: "Conn \<Rightarrow> byte list \<Rightarrow> bool" where
  dialled: "configured c \<Longrightarrow> transmits (ActiveOpen c iss) []"
| listening: "configured c \<Longrightarrow> transmits (openPassive c iss) []"
| step: "transmits c W \<Longrightarrow> orderly c W e \<Longrightarrow> transmits (connStep c e) (W @ accepted c e)"

abbreviation dataStates :: "State set" where
  "dataStates \<equiv> {Established, CloseWait}"

definition streamInv :: "Conn \<Rightarrow> byte list \<Rightarrow> bool" where
  "streamInv c W \<longleftrightarrow> sendInv c \<and> length W < 1073741824 \<and>
     (\<exists>fin. textOk (snd_iss c + 1) W fin c \<and> (fin \<longrightarrow> state c \<notin> preData \<union> dataStates)) \<and>
     feeds (okText (snd_iss c + 1) W False) c \<and>
     (state c \<in> preData \<longrightarrow> W = []) \<and>
     (state c \<in> dataStates \<longrightarrow> suffix (sndBuf c) W \<and>
        snd_una c + of_nat (length (sndBuf c)) = snd_iss c + 1 + of_nat (length W))"

lemma accepted_Send:
  "accepted c (EvSend d) = (if state c \<in> dataStates then d else [])"
  by (simp add: accepted_def Send_def)

lemma accepted_other: "(\<And>d. e \<noteq> EvSend d) \<Longrightarrow> accepted c e = []"
  by (cases e) (auto simp: accepted_def)

lemma sending_tail:
  assumes "dataInv c" "suffix (sndBuf c) W"
    and "snd_una c + of_nat (length (sndBuf c)) = b + of_nat (length W)" "ackedBy a c d"
  shows "suffix (sndBuf d) W \<and> snd_una d + of_nat (length (sndBuf d)) = b + of_nat (length W)"
proof (cases "sndBuf d = sndBuf c \<and> snd_una d = snd_una c")
  case False
  let ?k = "dist (snd_una c) a"
  have d: "AcceptableAck (snd_una c) a (snd_nxt c)" "snd_una d = a" "sndBuf d = drop ?k (sndBuf c)"
    using assms(4) False by (auto simp: ackedBy_def)
  have i: "inflight c \<le> length (sndBuf c)" "length (sndBuf c) < 1073741824"
    using assms(1) by (simp_all add: dataInv_def)
  have "?k \<le> inflight c"
    using d(1) AcceptableAck_inside [of "snd_una c" "snd_nxt c" a] i by (auto simp: inflight_dist)
  then have k: "?k \<le> length (sndBuf c)" using i by simp
  have "a + of_nat (length (sndBuf c) - ?k) = snd_una c + of_nat (?k + (length (sndBuf c) - ?k))"
    using add_dist [of "snd_una c" a] by (simp add: add.assoc [symmetric])
  then have "a + of_nat (length (sndBuf d)) = snd_una c + of_nat (length (sndBuf c))"
    using k by (simp add: d(3))
  then show ?thesis using assms(2,3) d(2,3) suffix_drop suffix_order.trans by fastforce
qed (use assms in simp)

lemma segment_to_sending:
  assumes "state (onSegment c h p) \<in> dataStates" "state c \<notin> dataStates"
  shows "state c \<in> preData"
proof -
  have "segMove c h p (state c) (state (onSegment c h p))" by (rule onSegment_move)
  then show ?thesis using assms
    by cases (auto simp: ackNext_def finNext_def split: State.splits if_splits)
qed

lemma segment_to_opening:
  assumes "state (onSegment c h p) \<in> preData"
  shows "state c \<in> preData"
proof -
  have "segMove c h p (state c) (state (onSegment c h p))" by (rule onSegment_move)
  then show ?thesis using assms
    by cases (auto simp: ackNext_def finNext_def split: State.splits if_splits)
qed

text \<open>The state machine on the side of the timers and the user: no way into the data states.\<close>

lemma other_state:
  assumes "\<And>h p. e \<noteq> EvSegment h p"
  shows "state (connStep c e) \<in> preData \<longrightarrow> state (connStep c e) = state c"
    "state (connStep c e) \<in> dataStates \<longrightarrow> state (connStep c e) = state c"
proof -
  have "connMove c e (state c) (state (connStep c e))" by (rule connStep_move)
  then show "state (connStep c e) \<in> preData \<longrightarrow> state (connStep c e) = state c"
    "state (connStep c e) \<in> dataStates \<longrightarrow> state (connStep c e) = state c"
    using assms by (cases; auto)+
qed

lemma other_view:
  assumes "\<And>h p. e \<noteq> EvSegment h p" "\<And>d. e \<noteq> EvSend d"
  shows "sndBuf (connStep c e) = sndBuf c" "snd_una (connStep c e) = snd_una c"
  using assms by (cases e; auto simp: Tick_def Close_def SetNoDelay_def SetRcvBuffer_def
      SetKeepAlive_def SetMSL_def SetCwnd_def Let_def split: State.splits)+

lemma Send_view:
  "sndBuf (snd (Send c d)) = sndBuf c @ (if state c \<in> dataStates then d else [])"
  "snd_una (snd (Send c d)) = snd_una c"
  by (simp_all add: Send_def)

text \<open>The first acknowledgement of the handshake puts SND.UNA to the start of the stream.\<close>

lemma quiet_nxt:
  assumes "sndBuf c = []" "state c \<in> {SynSent, SynReceived}"
  shows "snd_nxt (onSegment c h p) = snd_nxt c"
proof -
  have "sndBuf d = [] \<longrightarrow> sndBuf (flushSend d) = [] \<and> snd_nxt (flushSend d) = snd_nxt d" for d
    by (rule flushSend_rel [of "\<lambda>c d. sndBuf c = [] \<longrightarrow> sndBuf d = [] \<and> snd_nxt d = snd_nxt c"]) auto
  then have fl: "snd_nxt (flushSend d) = snd_nxt d" if "sndBuf d = []" for d using that by blast
  have core: "sndBuf (advanceStateOnAck (ackCore d h p) h) = []" if "sndBuf d = []" for d
    using that by (simp add: ackCore_def newAck_queue)
  have ha: "snd_nxt (snd (handleAck d h p)) = snd_nxt d" if "sndBuf d = []" for d
    using fl [OF core [OF that]] by (simp add: handleAck_snd)
  have tf: "snd_nxt (textAndFin d h p) = snd_nxt d" for d
    using sendView_textAndFin [of d h p] by (simp add: sendView_def)
  have atf: "snd_nxt (ackTextFin d h p) = snd_nxt d" if "sndBuf d = []" for d
    using that by (simp add: ackTextFin_def Let_def case_prod_unfold tf ha)
  have "snd_nxt (onSegmentSynchronized d h p) = snd_nxt d" if "sndBuf d = []" for d
    using that by (simp add: onSegmentSynchronized_def handleRst_def resetConnection_def Let_def atf)
  then show ?thesis
    using assms by (auto simp: onSegment_def onSegmentSynSent_def Let_def)
qed

lemma opened_una:
  assumes "sendInv c" "state c \<in> preData" "state (onSegment c h p) \<in> dataStates"
  shows "sndBuf (onSegment c h p) = []" "snd_una (onSegment c h p) = snd_iss c + 1"
proof -
  let ?d = "onSegment c h p"
  have c: "preInv c" using assms(1,2) by (auto simp: sendInv_def)
  have nl: "state c \<noteq> Listen"
  proof
    assume "state c = Listen"
    then have "segMove c h p Listen (state ?d)" using onSegment_move [of c h p] by simp
    then show False using assms(3) by cases (auto simp: ackNext_def)
  qed
  then have s: "state c \<in> {SynSent, SynReceived}" "sndBuf c = []" "snd_nxt c = snd_iss c + 1"
    using assms(2) c by (auto simp: preInv_def)
  show b: "sndBuf ?d = []"
    using s onSegment_opening [of c h p] ackedBy_Nil [OF onSegment_acked [of c h p]] by auto
  have "sendInv ?d" by (rule sendInv_segment [OF assms(1)])
  then have "dataInv ?d" using assms(3) by (auto simp: sendInv_def)
  then have "inflight ?d = 0" using b by (simp add: dataInv_def)
  then have "snd_nxt ?d = snd_una ?d" using snd_nxt_inflight [of ?d] by simp
  then show "snd_una ?d = snd_iss c + 1" using quiet_nxt [OF s(2,1)] s(3) by simp
qed

lemma feeds_step:
  assumes "feeds ok c" "state c \<in> {Listen, SynSent} \<longrightarrow> sndBuf c = []" "\<And>d. e \<noteq> EvSend d"
  shows "feeds ok (connStep c e)"
proof (cases "\<exists>h p. e = EvSegment h p")
  case True
  then obtain h p where e: "e = EvSegment h p" by blast
  show ?thesis
  proof (cases "state c \<in> {Listen, SynSent}")
    case True
    then show ?thesis using assms(2) onSegment_opening [of c h p] by (simp add: e feeds_Nil)
  next
    case False
    then show ?thesis using feeds_acked [OF assms(1) onSegment_acked [of c h p]] by (simp add: e)
  qed
next
  case False
  then show ?thesis
    using assms(1,3) other_view [of e c] feeds_cong [of "connStep c e" c] by auto
qed

text \<open>One event of a sender, with its duties, keeps the invariant.\<close>

lemma streamInv_send:
  assumes i: "streamInv c W" and o': "orderly c W (EvSend d)"
  shows "streamInv (snd (Send c d)) (W @ accepted c (EvSend d))"
proof (cases "state c \<in> dataStates")
  case False
  then have "snd (Send c d) = c" by (simp add: Send_def)
  then show ?thesis using i False by (simp add: accepted_Send)
next
  case True
  let ?b = "snd_iss c + 1" and ?c = "snd (Send c d)" and ?W = "W @ d"
  obtain fin where t: "textOk ?b W fin c" "fin \<longrightarrow> state c \<notin> preData \<union> dataStates"
    using i by (auto simp: streamInv_def)
  have W: "accepted c (EvSend d) = d" using True by (simp add: accepted_Send)
  have len: "length ?W < 1073741824" using o' by (simp add: orderly_def W)
  have s: "suffix (sndBuf c) W" "snd_una c + of_nat (length (sndBuf c)) = ?b + of_nat (length W)"
    using i True by (auto simp: streamInv_def)
  have s': "suffix (sndBuf c @ d) ?W"
    "snd_una c + of_nat (length (sndBuf c @ d)) = ?b + of_nat (length ?W)"
    using s by (auto simp: suffix_def add.assoc [symmetric])
  have f: "feeds (okText ?b ?W False) (c\<lparr>sndBuf := sndBuf c @ d\<rparr>)"
    by (rule feeds_suffix) (use s' in simp_all)
  have "textOk ?b ?W False c" using t True textOk_mono [of ?b W c d False] by (cases fin) auto
  then have x: "textOk ?b ?W False ?c" using f by (rule script.sends)
  have "length (sndBuf c) + length d < 1073741824"
    using suffix_length_le [OF s'(1)] len by simp
  then have inv: "sendInv ?c" using i by (intro sendInv_send) (simp_all add: streamInv_def)
  have fd: "feeds (okText ?b ?W False) ?c"
    using f feeds_cong [of ?c "c\<lparr>sndBuf := sndBuf c @ d\<rparr>"] True by (simp add: Send_view)
  have iss: "snd_iss ?c = snd_iss c" using snd_iss_step [of c "EvSend d"] by simp
  have "sndBuf ?c = sndBuf c @ d" using True by (simp add: Send_view)
  then show ?thesis
    unfolding streamInv_def iss W using x inv fd len s' True by (auto simp: Send_view)
qed

lemma streamInv_pre:
  assumes "streamInv c W" "state c \<in> preData"
  shows "W = []" "sndBuf c = []" "state c \<noteq> Listen \<Longrightarrow> snd_nxt c = snd_iss c + 1"
  using assms by (auto simp: streamInv_def sendInv_def preInv_def)

lemma close_position:
  assumes i: "streamInv c W" and o': "orderly c W EvClose"
    and st: "state c \<in> {Established, SynReceived, CloseWait}"
  shows "snd_nxt c = snd_iss c + 1 + of_nat (length W)"
proof (cases "state c = SynReceived")
  case True
  then show ?thesis using streamInv_pre [OF i] by simp
next
  case False
  then have d: "state c \<in> dataStates" using st by blast
  then have "inflight c = length (sndBuf c)" using o' by (auto simp: orderly_def allSent_def)
  then show ?thesis using i d snd_nxt_inflight [of c] by (auto simp: streamInv_def)
qed

lemma streamInv_close:
  assumes i: "streamInv c W" and o': "orderly c W EvClose"
  shows "streamInv (Close c) W"
proof -
  let ?b = "snd_iss c + 1"
  obtain fin where t: "textOk ?b W fin c" "fin \<longrightarrow> state c \<notin> preData \<union> dataStates"
    using i by (auto simp: streamInv_def)
  have inv: "sendInv (Close c)" using i by (intro sendInv_close) (simp add: streamInv_def)
  have f: "feeds (okText ?b W False) (Close c)"
    using i other_view [of EvClose c] feeds_cong [of "Close c" c] by (simp add: streamInv_def)
  have st: "state (Close c) \<in> preData \<longrightarrow> state (Close c) = state c"
    "state (Close c) \<in> dataStates \<longrightarrow> state (Close c) = state c"
    using other_state [of EvClose c] by simp_all
  have iss: "snd_iss (Close c) = snd_iss c" using snd_iss_step [of c EvClose] by simp
  have "\<exists>fin. textOk ?b W fin (Close c) \<and> (fin \<longrightarrow> state (Close c) \<notin> preData \<union> dataStates)"
  proof (cases "state c \<in> {Established, SynReceived, CloseWait}")
    case True
    then have "\<not> fin" using t(2) by auto
    then have "textOk ?b W True c" using t(1) textOk_mono [of ?b W c "[]" True] by simp
    moreover have "okText ?b W True (FlagFIN OR FlagACK) (snd_nxt c) []"
      using close_position [OF i o' True] by (simp add: okText_def Has_or)
    ultimately have "textOk ?b W True (Close c)" by (rule script.close)
    moreover have "state (Close c) \<notin> preData \<union> dataStates"
      using True by (auto simp: Close_state split: State.splits)
    ultimately show ?thesis by blast
  next
    case False
    then have "textOk ?b W fin (Close c)" by (rule script.close_early [OF t(1)])
    then show ?thesis using t(2) st by (intro exI [of _ fin]) auto
  qed
  then show ?thesis
    using i st inv f other_view [of EvClose c] unfolding streamInv_def iss by auto
qed

lemma streamInv_segment:
  assumes i: "streamInv c W"
  shows "streamInv (onSegment c h p) W"
proof -
  let ?b = "snd_iss c + 1" and ?d = "onSegment c h p"
  obtain fin where t: "textOk ?b W fin c" "fin \<longrightarrow> state c \<notin> preData \<union> dataStates"
    using i by (auto simp: streamInv_def)
  have f: "feeds (okText ?b W False) c" and inv: "sendInv c" using i by (simp_all add: streamInv_def)
  have x: "textOk ?b W fin ?d"
    using f by (intro script.segment [OF t(1)]) (simp_all add: feeds_fin [of _ _ fin])
  have "state c \<in> {Listen, SynSent} \<longrightarrow> sndBuf c = []" using streamInv_pre(2) [OF i] by auto
  then have fd: "feeds (okText ?b W False) ?d" using feeds_step [OF f, of "EvSegment h p"] by simp
  have st: "state ?d \<in> preData \<Longrightarrow> state c \<in> preData" by (rule segment_to_opening)
  have st': "state ?d \<in> dataStates \<Longrightarrow> state c \<in> preData \<union> dataStates"
    using segment_to_sending [of c h p] by blast
  have tail: "suffix (sndBuf ?d) W \<and> snd_una ?d + of_nat (length (sndBuf ?d)) = ?b + of_nat (length W)"
    if d: "state ?d \<in> dataStates"
  proof (cases "state c \<in> preData")
    case True
    then show ?thesis using opened_una [OF inv True d] streamInv_pre(1) [OF i True] by simp
  next
    case False
    then have s: "state c \<in> dataStates" using st' [OF d] by blast
    then have "dataInv c" using inv by (auto simp: sendInv_def)
    then show ?thesis
      by (rule sending_tail [OF _ _ _ onSegment_acked]) (use i s in \<open>auto simp: streamInv_def\<close>)
  qed
  show ?thesis
    unfolding streamInv_def snd_iss_segment
    using x fd t(2) st st' tail sendInv_segment [OF inv] i by (auto simp: streamInv_def)
qed

lemma streamInv_other:
  assumes i: "streamInv c W" and e: "\<And>h p. e \<noteq> EvSegment h p" "\<And>d. e \<noteq> EvSend d" "e \<noteq> EvClose"
  shows "streamInv (connStep c e) W"
proof -
  let ?b = "snd_iss c + 1"
  obtain fin where t: "textOk ?b W fin c" "fin \<longrightarrow> state c \<notin> preData \<union> dataStates"
    using i by (auto simp: streamInv_def)
  have f: "feeds (okText ?b W False) c" and inv: "sendInv c" using i by (simp_all add: streamInv_def)
  have ff: "feeds (okText ?b W fin) c" by (subst feeds_fin) (rule f)
  then have "script.admits ?b W fin c e" using e by (cases e) auto
  then have x: "textOk ?b W fin (connStep c e)" by (rule script.step [OF t(1)])
  have fd: "feeds (okText ?b W False) (connStep c e)"
    using f other_view [OF e(1,2)] feeds_cong [of "connStep c e" c] by simp
  have sv: "sendInv (connStep c e)"
    using e(2) by (intro sendInv_step [OF inv]) (auto simp: pacedEvent_def split: ConnEvent.splits)
  have st: "fin \<longrightarrow> state (connStep c e) \<notin> preData \<union> dataStates"
    using t(2) other_state [OF e(1), of c] by auto
  have w: "state (connStep c e) \<in> preData \<longrightarrow> W = []"
    using i other_state(1) [OF e(1), of c] by (auto simp: streamInv_def)
  have "state (connStep c e) \<in> dataStates \<longrightarrow> suffix (sndBuf c) W \<and>
      snd_una c + of_nat (length (sndBuf c)) = ?b + of_nat (length W)"
    using i other_state(2) [OF e(1), of c] unfolding streamInv_def by metis
  then show ?thesis
    using i sv x st fd w unfolding streamInv_def snd_iss_step other_view [OF e(1,2)] by blast
qed

lemma streamInv_step:
  assumes "streamInv c W" "orderly c W e"
  shows "streamInv (connStep c e) (W @ accepted c e)"
  using assms streamInv_segment streamInv_send streamInv_close streamInv_other [of c W e]
  by (cases e) (auto simp: accepted_other)

lemma streamInv_open:
  assumes "configured c"
  shows "streamInv (ActiveOpen c iss) []" "streamInv (openPassive c iss) []"
proof -
  note b = configured_blank [OF assms]
  have t: "textOk x [] False c" for x using b by (simp add: textOk_def)
  let ?c = "c\<lparr>snd_iss := iss, snd_una := iss, snd_nxt := iss + 1,
    rcv_wnd := initialRcvWindow c, state := SynSent\<rparr>"
  have "textOk x [] False ?c" for x by (rule script.keep [OF t]) simp_all
  then have "textOk x [] False (ActiveOpen c iss)" for x
    by (simp add: ActiveOpen_def Let_def script.syn Has_or)
  moreover have "sndBuf (ActiveOpen c iss) = []" "state (ActiveOpen c iss) = SynSent"
    using b by (simp_all add: ActiveOpen_def Let_def)
  ultimately show "streamInv (ActiveOpen c iss) []"
    using sendInv_open(1) [OF assms, of iss] by (auto simp: streamInv_def feeds_Nil)
  have "textOk x [] False (openPassive c iss)" for x
    by (rule script.keep [OF t]) (simp_all add: openPassive_def PassiveOpen_def)
  moreover have "sndBuf (openPassive c iss) = []" "state (openPassive c iss) = Listen"
    using b by (simp_all add: openPassive_def PassiveOpen_def)
  ultimately show "streamInv (openPassive c iss) []"
    using sendInv_open(2) [OF assms, of iss] by (auto simp: streamInv_def feeds_Nil)
qed

lemma transmits_inv: "transmits c W \<Longrightarrow> streamInv c W"
  by (induction rule: transmits.induct) (simp_all add: streamInv_open streamInv_step)

text \<open>
  The result for the sender: every packet it has written carries text of the stream, and a FIN
  only behind all of it.
\<close>

lemma transmits_packets:
  assumes "transmits a W" "pkt \<in> set (outp a)"
  shows "okPacket (snd_iss a + 1) W True pkt" "length W < 1073741824"
proof -
  have i: "streamInv a W" by (rule transmits_inv [OF assms(1)])
  then obtain fin where "textOk (snd_iss a + 1) W fin a" by (auto simp: streamInv_def)
  then have "textOk (snd_iss a + 1) W True a"
    using textOk_mono [of "snd_iss a + 1" W a "[]" True] by (cases fin) auto
  with assms(2) show "okPacket (snd_iss a + 1) W True pkt" by (simp add: textOk_def)
  show "length W < 1073741824" using i by (simp add: streamInv_def)
qed

subsection \<open>Runs of a receiver\<close>

definition ready :: "u32 \<Rightarrow> Conn \<Rightarrow> bool" where
  "ready b c \<longleftrightarrow> state c = Established \<and> rcv_nxt c = b \<and> rcvBuf c = [] \<and> oooSegs c = [] \<and>
     \<not> peerFin c \<and> unat (rcv_wnd c) \<le> unat (rcvBuffCap c) \<and> unat (rcvBuffCap c) \<le> 1073741824"

fun quietEvent :: "ConnEvent \<Rightarrow> bool" where
  "quietEvent (EvSegment h p) = False"
| "quietEvent (EvRecv n) = False"
| "quietEvent (EvRcvBuffer n) = False"
| "quietEvent e = True"

inductive receives :: "byte list set \<Rightarrow> u32 \<Rightarrow> Conn \<Rightarrow> byte list \<Rightarrow> bool" for net b where
  established: "ready b c \<Longrightarrow> receives net b c []"
| packet: "receives net b c got \<Longrightarrow> pkt \<in> net \<Longrightarrow> dispatch c pkt = Some d \<Longrightarrow> receives net b d got"
| read: "receives net b c got \<Longrightarrow>
    receives net b (snd (Recv c n)) (got @ received (fst (Recv c n)))"
| quiet: "receives net b c got \<Longrightarrow> quietEvent e \<Longrightarrow> receives net b (connStep c e) got"

definition extends :: "(nat \<Rightarrow> byte) \<Rightarrow> byte list \<Rightarrow> bool" where
  "extends S W \<longleftrightarrow> (\<forall>i<length W. S i = W ! i)"

lemma chunk_extends: "extends S W \<Longrightarrow> q + n \<le> length W \<Longrightarrow> chunk S q n = take n (drop q W)"
  by (rule nth_equalityI) (simp_all add: chunk_def extends_def)

lemma extends_pad: "extends (\<lambda>i. if i < length W then W ! i else x) W"
  by (simp add: extends_def)

definition recvInv :: "u32 \<Rightarrow> byte list \<Rightarrow> Conn \<Rightarrow> byte list \<Rightarrow> bool" where
  "recvInv b W c got \<longleftrightarrow> state c \<notin> preData \<and> bufOK c \<and> unat (rcvBuffCap c) \<le> 1073741824 \<and>
     (if peerFin c then rcv_nxt c = b + of_nat (length W) + 1 \<and> got @ rcvBuf c = W
      else \<exists>p\<le>length W. (\<forall>S. extends S W \<longrightarrow> rcvOK b S p c) \<and> got @ rcvBuf c = take p W)"

lemma recvInv_view:
  assumes "recvView d = recvView c" "state d \<notin> preData"
  shows "recvInv b W c got \<Longrightarrow> recvInv b W d got"
proof -
  have v: "rcvSide d = rcvSide c" "peerFin d = peerFin c" "rcvBuffCap d = rcvBuffCap c"
    using assms(1) by (simp_all add: recvView_def rcvBuffCap_def)
  have f: "rcvBuf d = rcvBuf c" "rcv_nxt d = rcv_nxt c" "rcv_wnd d = rcv_wnd c"
    using v(1) by (simp_all add: rcvSide_def)
  show "recvInv b W c got \<Longrightarrow> recvInv b W d got"
    using assms(2) by (simp add: recvInv_def bufOK_def v f rcvOK_side [OF v(1)])
qed

lemma quiet_view:
  assumes "quietEvent e"
  shows "recvView (connStep c e) = recvView c"
  using assms by (cases e) (simp_all add: recvView_def rcvSide_def Tick_def checkTimeWait_def Close_def Send_def
      SetNoDelay_def SetKeepAlive_def SetMSL_def SetCwnd_def Let_def split: State.splits)

text \<open>A segment touches the receiving side through \<open>textAndFin\<close> only.\<close>

lemma ackTextFin_view:
  assumes "state c \<notin> preData"
  shows "recvView (ackTextFin c h p) = recvView c \<or>
     (\<exists>e. recvView e = recvView c \<and> state e \<notin> preData \<and> ackTextFin c h p = textAndFin e h p)"
proof (cases rule: ackTextFin_split [of c h p])
  case (ackless x)
  then show ?thesis by simp
next
  case (acked x d)
  have v: "recvView (snd (handleAck d h p)) = recvView c" using acked(2) by simp
  have "state (snd (handleAck d h p)) \<notin> preData" if "ackAccepted d h"
    using assms that acked(3) by (cases "state c") (simp_all add: handleAck_state ackNext_def)
  then show ?thesis using v acked(4) by (metis (full_types))
qed

lemma onSegment_view:
  assumes "state c \<notin> preData"
  shows "recvView (onSegment c h p) = recvView c \<or>
    (\<not> Has (HdrFlags h) FlagSYN \<and>
       (\<exists>e. recvView e = recvView c \<and> state e \<notin> preData \<and> onSegment c h p = textAndFin e h p))"
proof -
  define d where "d = tick (c\<lparr>lastRecvTime := now c, keepaliveProbes := 0\<rparr>)"
  have d: "recvView d = recvView c" "state d = state c" by (simp_all add: d_def)
  have "onSegment c h p = (if state c = Closed then onSegmentClosed d h p else onSegmentSynchronized d h p)"
    using assms unfolding onSegment_def Let_def d_def [symmetric] d(2) by (cases "state c") simp_all
  moreover have "recvView (onSegmentClosed d h p) = recvView d"
    by (simp add: onSegmentClosed_def Let_def)
  moreover have "recvView (onSegmentSynchronized d h p) = recvView d \<or>
      \<not> Has (HdrFlags h) FlagSYN \<and> onSegmentSynchronized d h p = ackTextFin d h p"
    by (simp add: onSegmentSynchronized_def handleRst_def Let_def)
  ultimately show ?thesis using ackTextFin_view [of d h p] d assms by metis
qed

subsection \<open>The receiver keeps a prefix of the stream\<close>

lemma piece_genuine:
  assumes "piece b W s pl" "extends S W" "p \<le> length W" "length W < 1073741824"
  shows "\<exists>q. genuine b S p s pl q"
proof -
  obtain q where q: "s = b + of_nat q" "q + length pl \<le> length W" "pl = take (length pl) (drop q W)"
    using assms(1) by (auto simp: piece_def)
  have "pl = chunk S q (length pl)" using q(3) chunk_extends [OF assms(2) q(2)] by simp
  moreover have "p < q + 1073741824" "q + length pl < p + 1073741824" using q(2) assms(3,4) by linarith+
  ultimately show ?thesis using q(1) by (auto simp: genuine_def)
qed

text \<open>
  Nothing beyond \<open>W\<close> is taken: what the code does cannot depend on how the stream continues
  there, while a byte taken from there would.
\<close>

lemma accept_piece:
  assumes ok: "\<And>S. extends S W \<Longrightarrow> rcvOK b S p c" and p: "p \<le> length W" "length W < 1073741824"
    and got: "got @ rcvBuf c = take p W" and pc: "piece b W (SeqNum h) pl"
  shows "\<exists>p'\<ge>p. p' \<le> length W \<and> (\<forall>S. extends S W \<longrightarrow> rcvOK b S p' (acceptText c h pl)) \<and>
    got @ rcvBuf (acceptText c h pl) = take p' W"
proof -
  let ?d = "acceptText c h pl" and ?S = "\<lambda>x i. if i < length W then W ! i else (x :: byte)"
  define p' where "p' = p + (length (rcvBuf ?d) - length (rcvBuf c))"
  have step: "p \<le> p' \<and> rcvOK b S p' ?d \<and> rcvBuf ?d = rcvBuf c @ chunk S p (p' - p)"
    if S: "extends S W" for S
  proof -
    obtain q where g: "genuine b S p (SeqNum h) pl q" using piece_genuine [OF pc S p] by blast
    obtain r where r: "p \<le> r" "rcvOK b S r ?d" "rcvBuf ?d = rcvBuf c @ chunk S p (r - p)"
      by (rule acceptText_genuine [OF ok [OF S] g])
    then have "p' = r" by (simp add: p'_def)
    with r show ?thesis by simp
  qed
  have le: "p' \<le> length W"
  proof (rule ccontr)
    assume "\<not> p' \<le> length W"
    then have k: "length W - p < p' - p" "p + (length W - p) = length W" using p(1) by linarith+
    have "chunk (?S 0) p (p' - p) = chunk (?S 1) p (p' - p)"
      using step [OF extends_pad [of W 0]] step [OF extends_pad [of W 1]] by simp
    then have "chunk (?S 0) p (p' - p) ! (length W - p) = chunk (?S 1) p (p' - p) ! (length W - p)"
      by (rule arg_cong)
    then show False using k by (simp add: chunk_def)
  qed
  note s = step [OF extends_pad [of W 0]]
  have "got @ rcvBuf ?d = take p W @ chunk (?S 0) p (p' - p)" using s got by (simp flip: append_assoc)
  also have "chunk (?S 0) p (p' - p) = take (p' - p) (drop p W)"
    using le s by (intro chunk_extends extends_pad) simp
  also have "take p W @ take (p' - p) (drop p W) = take p' W" using s by (simp add: take_add [symmetric])
  finally have g: "got @ rcvBuf ?d = take p' W" .
  show ?thesis using s step le g by blast
qed

lemma recvInv_text:
  assumes i: "recvInv b W e got" and W: "length W < 1073741824" and pl: "pl = [] \<or> piece b W (SeqNum h) pl"
    and d: "recvView d = recvView (acceptText e h pl)" "state d \<notin> preData"
  shows "recvInv b W d got"
proof (cases "pl = []")
  case True
  then show ?thesis using recvInv_view [of d e] i d by (simp add: acceptText_def)
next
  case False
  then have pc: "piece b W (SeqNum h) pl" using pl by simp
  have cap: "rcvBuffCap (acceptText e h pl) = rcvBuffCap e" by (rule recvOnly_cap [OF acceptText_recvOnly])
  have st: "state (acceptText e h pl) \<notin> preData" using i by (simp add: recvInv_def)
  have "recvInv b W (acceptText e h pl) got"
  proof (cases "peerFin e")
    case True
    obtain q where q: "SeqNum h = b + of_nat q" "q + length pl \<le> length W" using pc by (auto simp: piece_def)
    have nxt: "rcv_nxt e = b + of_nat (length W + 1)" using i True by (simp add: recvInv_def add.assoc)
    have "SeqLT (SeqNum h) (rcv_nxt e)" unfolding q(1) nxt
      using q(2) W False by (intro SeqLT_pos [THEN iffD2]) simp_all
    moreover have "rcv_nxt e - SeqNum h = of_nat (length W + 1 - q)" using q nxt by (simp add: of_nat_diff)
    moreover have "(of_nat (length pl) :: u32) \<le> of_nat (length W + 1 - q)"
      using q(2) W by (subst u32_of_nat_le) simp_all
    ultimately have "trimToWindow e (SeqNum h) pl = \<lparr>fragSeq = rcv_nxt e, fragData = []\<rparr>"
      by (intro trim_seen) simp_all
    then have "rcvSide (acceptText e h pl) = rcvSide e" by (simp add: rcvSide_acceptText)
    then have "recvView (acceptText e h pl) = recvView e" by (simp add: recvView_def)
    then show ?thesis using recvInv_view [OF _ st] i by blast
  next
    case False
    then obtain p where p: "p \<le> length W" "\<And>S. extends S W \<Longrightarrow> rcvOK b S p e" "got @ rcvBuf e = take p W"
      using i by (auto simp: recvInv_def)
    obtain p' where p': "p' \<le> length W" "\<forall>S. extends S W \<longrightarrow> rcvOK b S p' (acceptText e h pl)"
      "got @ rcvBuf (acceptText e h pl) = take p' W"
      using accept_piece [OF p(2,1) W p(3) pc] by blast
    obtain q where "genuine b (\<lambda>i. if i < length W then W ! i else 0) p (SeqNum h) pl q"
      using piece_genuine [OF pc extends_pad p(1) W] by blast
    then have "bufOK (acceptText e h pl)"
      using acceptText_bufOK [OF p(2) [OF extends_pad]] i by (simp add: recvInv_def)
    then show ?thesis using p' i False st cap by (auto simp: recvInv_def)
  qed
  then show ?thesis using recvInv_view [OF d] by blast
qed

lemma recvInv_fin:
  assumes i: "recvInv b W e got" and W: "length W < 1073741824"
    and f: "SeqNum h = b + of_nat (length W)" "finInOrder e h []" "\<not> Has (HdrFlags h) FlagSYN"
    and d: "state (handleFin e h) \<notin> preData"
  shows "recvInv b W (handleFin e h) got"
proof -
  have nxt: "rcv_nxt e = b + of_nat (length W)"
    using f by (auto simp: finInOrder_def segLen_def)
  have np: "\<not> peerFin e" using i nxt by (auto simp: recvInv_def)
  then obtain p where p: "p \<le> length W" "\<And>S. extends S W \<Longrightarrow> rcvOK b S p e" "got @ rcvBuf e = take p W"
    using i by (auto simp: recvInv_def)
  have "rcv_nxt e = b + of_nat p" using p(2) [OF extends_pad] by (simp add: rcvOK_def)
  then have "(of_nat p :: u32) = of_nat (length W)" using nxt by simp
  then have "p = length W"
    using p(1) W by (simp add: word_unat_eq_iff unat_u32_of_nat)
  then have "got @ rcvBuf (handleFin e h) = W" using p(3) by simp
  moreover have cap: "rcvBuffCap (handleFin e h) = rcvBuffCap e" by (simp add: rcvBuffCap_def)
  moreover have "bufOK (handleFin e h)" using i cap by (simp add: recvInv_def bufOK_def)
  moreover have "peerFin (handleFin e h)" "rcv_nxt (handleFin e h) = rcv_nxt e + 1"
    by (simp_all add: handleFin_def Let_def split: State.splits)
  ultimately show ?thesis using i d nxt by (simp add: recvInv_def)
qed

lemma recvInv_segment:
  assumes i: "recvInv b W c got" and W: "length W < 1073741824"
    and t: "okText b W fin (HdrFlags h) (SeqNum h) pl"
  shows "recvInv b W (onSegment c h pl) got"
proof -
  let ?d = "onSegment c h pl"
  have st: "state c \<notin> preData" using i by (simp add: recvInv_def)
  have sd: "state ?d \<notin> preData" using segment_to_opening [of c h pl] st by blast
  consider (same) "recvView ?d = recvView c"
    | (delivered) e where "\<not> Has (HdrFlags h) FlagSYN" "recvView e = recvView c" "state e \<notin> preData"
        "?d = textAndFin e h pl"
    using onSegment_view [OF st] by blast
  then show ?thesis
  proof cases
    case same
    then show ?thesis using recvInv_view [OF _ sd] i by blast
  next
    case delivered
    have e: "recvInv b W e got" by (rule recvInv_view [OF delivered(2,3) i])
    show ?thesis
    proof (cases "Has (HdrFlags h) FlagFIN")
      case True
      then have f: "pl = []" "SeqNum h = b + of_nat (length W)" using t by (simp_all add: okText_def)
      show ?thesis
      proof (cases "finInOrder e h []")
        case True
        then have "?d = handleFin e h" using delivered(4) f(1) by (simp add: textAndFin_def)
        then show ?thesis using recvInv_fin [OF e W f(2) True delivered(1)] sd by simp
      next
        case False
        then show ?thesis using e delivered(4) f(1) by (simp add: textAndFin_def)
      qed
    next
      case False
      then have d: "?d = acceptText e h pl" using delivered(4)
        by (simp add: textAndFin_def finInOrder_def acceptText_def)
      show ?thesis
        by (rule recvInv_text [OF e W]) (use t False d sd in \<open>simp_all add: okText_def\<close>)
    qed
  qed
qed

lemma recvInv_recv:
  assumes i: "recvInv b W c got"
  shows "recvInv b W (snd (Recv c n)) (got @ received (fst (Recv c n)))"
proof -
  let ?d = "snd (Recv c n)"
  have buf: "bufOK c" "unat (rcvBuffCap c) \<le> 1073741824" using i by (simp_all add: recvInv_def)
  have d: "bufOK ?d" "rcvBuffCap ?d = rcvBuffCap c" "state ?d = state c" "peerFin ?d = peerFin c"
    using Recv_window [OF buf(1), of n] recvOnly_cap [OF Recv_recvOnly, of c n] by simp_all
  have g: "(got @ received (fst (Recv c n))) @ rcvBuf ?d = got @ rcvBuf c" using Recv_data [of c n] by simp
  show ?thesis
  proof (cases "peerFin c")
    case True
    then show ?thesis using i d g by (simp add: recvInv_def)
  next
    case False
    then show ?thesis using i d g Recv_rcvOK [OF _ buf] by (auto simp: recvInv_def)
  qed
qed

lemma recvInv_ready: "ready b c \<Longrightarrow> recvInv b W c []"
  by (auto simp: ready_def recvInv_def bufOK_def rcvOK_def intro!: exI [of _ 0])

lemma receives_inv:
  assumes "receives net b c got" "\<And>pkt. pkt \<in> net \<Longrightarrow> okPacket b W fin pkt" "length W < 1073741824"
  shows "recvInv b W c got"
  using assms(1)
proof (induction rule: receives.induct)
  case (established c)
  then show ?case by (rule recvInv_ready)
next
  case (packet c got pkt d)
  show ?case
  proof (cases "decodePacket pkt")
    case (Some r)
    then show ?thesis
      using packet assms(2) [OF packet(2)] recvInv_segment [OF packet.IH assms(3)]
      by (auto simp: dispatch_def okPacket_def split: option.splits)
  qed (use packet in \<open>simp add: dispatch_def\<close>)
next
  case (read c got n)
  from recvInv_recv [OF this(2)] show ?case .
next
  case (quiet c got e)
  have "e \<noteq> EvSegment h p" for h p using quiet(2) by auto
  then have "state (connStep c e) \<in> preData \<longrightarrow> state (connStep c e) = state c" by (rule other_state)
  moreover have "state c \<notin> preData" using quiet.IH by (simp add: recvInv_def)
  ultimately have "state (connStep c e) \<notin> preData" by metis
  then show ?case using recvInv_view [OF quiet_view [OF quiet(2)]] quiet.IH by blast
qed

text \<open>
  The composition: what the receiving application reads is a prefix of what the sending
  application wrote, and the end of the stream is only reported behind all of it.
\<close>

lemma transfer:
  assumes "transmits a W" "receives (set (outp a)) (snd_iss a + 1) c got"
  shows "prefix (got @ rcvBuf c) W \<and> (fst (Recv c n) = Inl EOF \<longrightarrow> got = W)"
proof -
  have len: "length W < 1073741824" using transmits_inv [OF assms(1)] by (simp add: streamInv_def)
  have i: "recvInv (snd_iss a + 1) W c got"
    by (rule receives_inv [OF assms(2) transmits_packets(1) [OF assms(1)] len])
  have "prefix (got @ rcvBuf c) W"
  proof (cases "peerFin c")
    case True
    then show ?thesis using i by (simp add: recvInv_def)
  next
    case False
    then have "\<exists>p. got @ rcvBuf c = take p W" using i unfolding recvInv_def if_not_P [OF False] by blast
    then obtain p where "got @ rcvBuf c = take p W" by blast
    then show ?thesis by (simp add: take_is_prefix)
  qed
  moreover have "got = W" if eof: "fst (Recv c n) = Inl EOF"
  proof -
    have "rcvBuf c = [] \<and> peerFin c"
      using eof by (cases "rcvBuf c = []"; cases "peerFin c") (simp_all add: Recv_def finReached_def Let_def)
    then show ?thesis using i by (simp add: recvInv_def)
  qed
  ultimately show ?thesis by blast
qed

end
