(* ===== verification/Tcp_Typing.thy ===== *)
theory Tcp_Typing
  imports Tcp_Events
begin

unbundle bit_operations_syntax

section \<open>The type of a connection\<close>

text \<open>
  What the fields of a connection range over in every reachable state, beyond their Go types:
  the window shifts, the counters, and the agreement of the flags with the state (\<open>peerFin\<close>
  with the states that follow the peer's FIN, \<open>reachedEstablished\<close> with ESTABLISHED).
\<close>

definition shiftsOK :: "Conn \<Rightarrow> bool" where
  "shiftsOK c \<longleftrightarrow> unat (sndWindShift c) \<le> 14 \<and>
     (rcvWindShift c = myWindowScale \<or> rcvWindShift c = 0 \<and> sndWindShift c = 0)"

definition countersOK :: "Conn \<Rightarrow> bool" where
  "countersOK c \<longleftrightarrow> challengeCount c \<le> challengeAckLimit \<and> keepaliveProbes c \<le> keepaliveMaxProbes \<and>
     delAckCount c \<le> 1 \<and> delAckArmed c = (delAckCount c = 1)"

definition finStates :: "State set" where
  "finStates = {CloseWait, Closing, LastAck, TimeWait}"

definition flagsOK :: "Conn \<Rightarrow> bool" where
  "flagsOK c \<longleftrightarrow> (state c \<in> finStates \<longrightarrow> peerFin c) \<and> (peerFin c \<longrightarrow> state c \<in> insert Closed finStates) \<and>
     (state c = Established \<longrightarrow> reachedEstablished c)"

definition wellTyped :: "Conn \<Rightarrow> bool" where
  "wellTyped c \<longleftrightarrow> shiftsOK c \<and> countersOK c \<and> flagsOK c"

subsection \<open>The shifts\<close>

lemma shiftsOK_cong: "sndWindShift d = sndWindShift c \<Longrightarrow> rcvWindShift d = rcvWindShift c \<Longrightarrow> shiftsOK d = shiftsOK c"
  by (simp add: shiftsOK_def)

lemma flushSend_shift [simp]: "sndWindShift (flushSend c) = sndWindShift c" "rcvWindShift (flushSend c) = rcvWindShift c"
  by simp_all

lemma textAndFin_shift [simp]:
  "sndWindShift (textAndFin c h p) = sndWindShift c" "rcvWindShift (textAndFin c h p) = rcvWindShift c"
  by (simp_all add: textAndFin_def handleFin_def Let_def split: State.splits)

lemma handleAck_shift [simp]:
  "sndWindShift (snd (handleAck c h p)) = sndWindShift c" "rcvWindShift (snd (handleAck c h p)) = rcvWindShift c"
  by (simp_all add: handleAck_snd)

lemma ackTextFin_shift [simp]:
  "sndWindShift (ackTextFin c h p) = sndWindShift c" "rcvWindShift (ackTextFin c h p) = rcvWindShift c"
  by (simp_all add: ackTextFin_def Let_def case_prod_unfold)

lemma synchronized_shift [simp]:
  "sndWindShift (onSegmentSynchronized c h p) = sndWindShift c"
  "rcvWindShift (onSegmentSynchronized c h p) = rcvWindShift c"
  by (simp_all add: onSegmentSynchronized_def handleRst_def resetConnection_def Let_def)

lemma Tick_shift [simp]: "sndWindShift (Tick c) = sndWindShift c" "rcvWindShift (Tick c) = rcvWindShift c"
  by (simp_all add: Tick_def checkTimeWait_def Let_def)

lemma optSwitch_shift:
  "optSwitch k l v o' = Some (Inr o'') \<Longrightarrow> unat (WindowScale o') \<le> 14 \<Longrightarrow> unat (WindowScale o'') \<le> 14"
  by (auto simp: optSwitch_def clampWScale_le split: if_splits Option.bind_splits)

lemma parseOpts_shift:
  "parseOpts b i o' = Some (Inr o'') \<Longrightarrow> unat (WindowScale o') \<le> 14 \<Longrightarrow> unat (WindowScale o'') \<le> 14"
proof (induction b i o' rule: parseOpts.induct)
  case (1 b i o')
  have "unat (WindowScale x) \<le> 14" if "optSwitch k l v o' = Some (Inr x)" for k l v x
    by (rule optSwitch_shift [OF that "1.prems"(2)])
  then show ?case
    using 1 by (subst (asm) (2) parseOpts.simps)
      (auto split: if_splits Option.bind_splits sum.splits)
qed

lemma ParseTCPOptions_shift: "ParseTCPOptions b = Some (Inr o') \<Longrightarrow> unat (WindowScale o') \<le> 14"
  unfolding ParseTCPOptions_def by (erule parseOpts_shift) (simp add: noOptions_def)

lemma negotiateFrom_shifts: "shiftsOK c \<Longrightarrow> shiftsOK (negotiateFrom c h)"
  using ParseTCPOptions_shift [of "Options h"]
  by (auto simp: negotiateFrom_def negotiateOptions_def shiftsOK_def Let_def split: option.splits sum.splits)

lemma listen_shifts: "shiftsOK c \<Longrightarrow> shiftsOK (onSegmentListen c h)"
proof -
  assume c: "shiftsOK c"
  let ?c = "c\<lparr>rcv_irs := SeqNum h, rcv_nxt := SeqNum h + 1, snd_una := snd_iss c,
    snd_nxt := snd_iss c + 1, origin := OriginPassive, state := SynReceived\<rparr>"
  have "shiftsOK ?c" using c by (simp add: shiftsOK_def)
  then have "shiftsOK (negotiateFrom ?c h)" by (rule negotiateFrom_shifts)
  then show ?thesis using c by (simp add: onSegmentListen_def shiftsOK_def initSendWindow_def Let_def)
qed

lemma synSent_shifts: "shiftsOK c \<Longrightarrow> shiftsOK (onSegmentSynSent c h)"
proof -
  assume c: "shiftsOK c"
  let ?c = "c\<lparr>rcv_irs := SeqNum h, rcv_nxt := SeqNum h + 1\<rparr>"
  have "shiftsOK ?c" using c by (simp add: shiftsOK_def)
  then have "shiftsOK (negotiateFrom ?c h)" by (rule negotiateFrom_shifts)
  then show ?thesis using c by (simp add: onSegmentSynSent_def shiftsOK_def initSendWindow_def Let_def)
qed

lemma connStep_shifts:
  assumes "shiftsOK c"
  shows "shiftsOK (connStep c e)"
proof (cases e)
  case (EvSegment h p)
  let ?d = "tick (c\<lparr>lastRecvTime := now c, keepaliveProbes := 0\<rparr>)"
  have d: "shiftsOK ?d" using assms by (simp add: shiftsOK_def)
  then show ?thesis
    using shiftsOK_cong [of "onSegmentSynchronized ?d h p" ?d] shiftsOK_cong [of "onSegmentClosed ?d h p" ?d]
    by (simp add: EvSegment onSegment_def Let_def listen_shifts synSent_shifts onSegmentClosed_def split: State.splits)
next
  case EvTick
  then show ?thesis using assms by (simp add: shiftsOK_def)
next
  case EvClose
  then show ?thesis using assms by (simp add: Close_def shiftsOK_def Let_def split: State.splits)
qed (use assms in \<open>simp_all add: shiftsOK_def SetNoDelay_def SetRcvBuffer_def SetKeepAlive_def SetMSL_def
    SetCwnd_def Send_def Let_def\<close>)

subsection \<open>The counters\<close>

definition acksOK :: "Conn \<Rightarrow> bool" where
  "acksOK c \<longleftrightarrow> challengeCount c \<le> challengeAckLimit \<and> delAckCount c \<le> 1 \<and> delAckArmed c = (delAckCount c = 1)"

lemma countersOK_acks: "countersOK c \<longleftrightarrow> acksOK c \<and> keepaliveProbes c \<le> keepaliveMaxProbes"
  by (auto simp: countersOK_def acksOK_def)

lemma acksOK_cong:
  "challengeCount d = challengeCount c \<Longrightarrow> delAckCount d = delAckCount c \<Longrightarrow> delAckArmed d = delAckArmed c \<Longrightarrow>
     acksOK d = acksOK c"
  by (simp add: acksOK_def)

lemma sendAck_acks: "acksOK c \<Longrightarrow> acksOK (sendAck c)"
  by (simp add: acksOK_def)

lemma sendChallengeAck_acks: "acksOK c \<Longrightarrow> acksOK (sendChallengeAck c)"
  by (auto simp: acksOK_def sendChallengeAck_def allowChallengeAck_def challengeAckLimit_def Let_def)

lemma onDelayable_acks: "acksOK c \<Longrightarrow> acksOK (onDelayableSegment c)"
  by (auto simp: acksOK_def onDelayableSegment_def sendDelayedAck_def Let_def)

lemma acceptText_acks: "acksOK c \<Longrightarrow> acksOK (acceptText c h p)"
proof -
  assume "acksOK c"
  moreover have "acksOK (takeText c d) = acksOK c" for d by (rule acksOK_cong) simp_all
  ultimately show ?thesis
    by (simp add: acceptText_def sendAck_acks onDelayable_acks Let_def)
qed

lemma handleFin_acks: "acksOK c \<Longrightarrow> acksOK (handleFin c h)"
  by (simp add: acksOK_def handleFin_def Let_def split: State.splits)

lemma textAndFin_acks: "acksOK c \<Longrightarrow> acksOK (textAndFin c h p)"
  by (simp add: textAndFin_def acceptText_acks handleFin_acks Let_def)

lemma advance_counts:
  "challengeCount (advanceStateOnAck c h) = challengeCount c" "challengeCount (ackCore c h p) = challengeCount c"
proof -
  show "challengeCount (advanceStateOnAck c h) = challengeCount c"
    by (simp add: advanceStateOnAck_def split: State.splits)
  have "challengeCount (newAck c h) = challengeCount c" "challengeCount (onDuplicateAck c h) = challengeCount c"
    "challengeCount (updateSendWindow d h) = challengeCount d" for d
    by (simp_all add: newAck_def onDuplicateAck_def updateSendWindow_def releaseAckedSend_def Let_def)
  then show "challengeCount (ackCore c h p) = challengeCount c" by (simp add: ackCore_def)
qed

lemma handleAck_acks: "acksOK c \<Longrightarrow> acksOK (snd (handleAck c h p))"
proof -
  assume c: "acksOK c"
  have "acksOK (flushSend (advanceStateOnAck (ackCore c h p) h)) = acksOK c" by (rule acksOK_cong) (simp_all add: advance_counts)
  moreover have "acksOK (sendRst c x) = acksOK c" for x by (rule acksOK_cong) simp_all
  ultimately show ?thesis using c by (simp add: handleAck_snd sendChallengeAck_acks)
qed

lemma ackTextFin_acks: "acksOK c \<Longrightarrow> acksOK (ackTextFin c h p)"
proof -
  assume c: "acksOK c"
  have "acksOK (c\<lparr>tsRecent := x\<rparr>)" for x using c by (simp add: acksOK_def)
  moreover have "acksOK (sampleRTTFromTimestamp d x)" if "acksOK d" for d x
    using that acksOK_cong [of "sampleRTTFromTimestamp d x" d] by simp
  ultimately show ?thesis using c
    by (simp add: ackTextFin_def handleAck_acks textAndFin_acks Let_def case_prod_unfold)
qed

lemma synchronized_acks: "acksOK c \<Longrightarrow> acksOK (onSegmentSynchronized c h p)"
proof -
  assume c: "acksOK c"
  have "acksOK (restartTimeWait (sendAck c))" using c by (simp add: acksOK_def)
  moreover have "acksOK (resetConnection c)" using c by (simp add: acksOK_def resetConnection_def)
  ultimately show ?thesis using c
    by (simp add: onSegmentSynchronized_def handleRst_def sendAck_acks sendChallengeAck_acks ackTextFin_acks Let_def)
qed

lemma onSegment_acks: "acksOK c \<Longrightarrow> acksOK (onSegment c h p)"
proof -
  assume "acksOK c"
  then have "acksOK (tick (c\<lparr>lastRecvTime := now c, keepaliveProbes := 0\<rparr>))" by (simp add: acksOK_def)
  moreover have "acksOK (onSegmentListen d h) = acksOK d" for d
    by (rule acksOK_cong) (simp_all add: onSegmentListen_def initSendWindow_def negotiateFrom_def negotiateOptions_def Let_def split: option.splits sum.splits)
  moreover have "acksOK (onSegmentSynSent d h)" if "acksOK d" for d
    using that by (simp add: acksOK_def onSegmentSynSent_def initSendWindow_def negotiateFrom_def negotiateOptions_def Let_def split: option.splits sum.splits)
  ultimately show ?thesis
    using acksOK_cong [of "onSegmentClosed (tick (c\<lparr>lastRecvTime := now c, keepaliveProbes := 0\<rparr>)) h p"
        "tick (c\<lparr>lastRecvTime := now c, keepaliveProbes := 0\<rparr>)"]
    by (simp add: onSegment_def onSegmentClosed_def synchronized_acks Let_def split: State.splits)
qed

lemma Tick_acks: "acksOK c \<Longrightarrow> acksOK (Tick c)"
proof -
  assume c: "acksOK c"
  have "acksOK (checkTimeWait c) = acksOK c" "acksOK (checkRetransmit d) = acksOK d"
    "acksOK (checkKeepAlive d) = acksOK d" for d
    by (rule acksOK_cong; simp add: checkTimeWait_def Let_def)+
  moreover have "acksOK (checkFlowTimers d)" if d: "acksOK d" for d
  proof -
    have "acksOK (tick e) = acksOK e" "acksOK (probePersist e) = acksOK e" "acksOK (fireOverride e) = acksOK e" for e
      by (rule acksOK_cong; simp add: probePersist_def fireOverride_def emitSegment_def Let_def)+
    then show ?thesis using d
      by (simp add: checkFlowTimers_def fireDelayedAck_def sendDelayedAck_def sendAck_acks Let_def)
  qed
  ultimately show ?thesis using c by (simp add: Tick_def)
qed

lemma keepalive_probes:
  "keepaliveProbes (onSegment c h p) = 0"
  "keepaliveProbes c \<le> keepaliveMaxProbes \<Longrightarrow> keepaliveProbes (Tick c) \<le> keepaliveMaxProbes"
proof -
  have "keepaliveProbes (textAndFin d h p) = keepaliveProbes d" for d
    by (simp add: textAndFin_def handleFin_def Let_def split: State.splits)
  moreover have "keepaliveProbes (snd (handleAck d h p)) = keepaliveProbes d" for d
    by (simp add: handleAck_snd)
  ultimately have "keepaliveProbes (ackTextFin d h p) = keepaliveProbes d" for d
    by (simp add: ackTextFin_def Let_def case_prod_unfold)
  then have s: "keepaliveProbes (onSegmentSynchronized d h p) = keepaliveProbes d" for d
    by (simp add: onSegmentSynchronized_def handleRst_def resetConnection_def Let_def)
  have "keepaliveProbes (onSegmentSynSent d h) = keepaliveProbes d" "keepaliveProbes (onSegmentListen d h) = keepaliveProbes d" for d
    by (simp_all add: onSegmentSynSent_def onSegmentListen_def initSendWindow_def negotiateFrom_def
        negotiateOptions_def Let_def split: option.splits sum.splits)
  then show "keepaliveProbes (onSegment c h p) = 0"
    by (simp add: onSegment_def onSegmentClosed_def s Let_def split: State.splits)
  have "keepaliveProbes (checkKeepAlive d) \<le> keepaliveMaxProbes" if "keepaliveProbes d \<le> keepaliveMaxProbes" for d
    using that by (simp add: checkKeepAlive_def sendKeepAliveProbe_def writeSeg_def Let_def)
  moreover have "keepaliveProbes (checkRetransmit d) = keepaliveProbes d" for d
    by (simp add: checkRetransmit_def writeSeg_def Let_def split: list.splits)
  then have "keepaliveProbes (checkFlowTimers (checkRetransmit (checkTimeWait c))) = keepaliveProbes c"
    by (simp add: checkTimeWait_def Let_def)
  ultimately show "keepaliveProbes c \<le> keepaliveMaxProbes \<Longrightarrow> keepaliveProbes (Tick c) \<le> keepaliveMaxProbes"
    by (simp add: Tick_def)
qed

subsection \<open>The flags\<close>

lemma flagsOK_cong:
  "state d = state c \<Longrightarrow> peerFin d = peerFin c \<Longrightarrow> reachedEstablished d = reachedEstablished c \<Longrightarrow>
     flagsOK d = flagsOK c"
  by (simp add: flagsOK_def)

lemma textAndFin_flags: "flagsOK c \<Longrightarrow> state c \<noteq> Listen \<Longrightarrow> state c \<noteq> SynSent \<Longrightarrow> flagsOK (textAndFin c h p)"
  by (simp add: flagsOK_def finStates_def textAndFin_def handleFin_def Let_def split: State.splits)

lemma handleAck_flags: "flagsOK c \<Longrightarrow> flagsOK (snd (handleAck c h p))"
proof -
  assume c: "flagsOK c"
  have "flagsOK (ackCore c h p) = flagsOK c" by (rule flagsOK_cong) simp_all
  then have "flagsOK (advanceStateOnAck (ackCore c h p) h)"
    using c by (auto simp: flagsOK_def finStates_def advanceStateOnAck_def split: State.splits)
  moreover have "flagsOK (flushSend d) = flagsOK d" for d by (rule flagsOK_cong) simp_all
  moreover have "flagsOK (sendRst c x) = flagsOK c" "flagsOK (sendChallengeAck c) = flagsOK c" for x
    by (rule flagsOK_cong; simp)+
  ultimately show ?thesis using c by (simp add: handleAck_snd)
qed

lemma ackTextFin_flags:
  assumes c: "flagsOK c" "state c \<noteq> Listen" "state c \<noteq> SynSent"
  shows "flagsOK (ackTextFin c h p)"
proof -
  have "flagsOK (c\<lparr>tsRecent := x\<rparr>)" for x using c(1) by (simp add: flagsOK_def)
  moreover have "flagsOK (sampleRTTFromTimestamp d x)" if "flagsOK d" for d x
    using that flagsOK_cong [of "sampleRTTFromTimestamp d x" d] by simp
  moreover have "ackNext f (state c) \<noteq> Listen" "ackNext f (state c) \<noteq> SynSent" for f
    using c(2,3) by (auto simp: ackNext_def split: State.splits)
  ultimately show ?thesis using c
    by (simp add: ackTextFin_def handleAck_flags textAndFin_flags handleAck_state Let_def case_prod_unfold)
qed

lemma synchronized_flags:
  assumes c: "flagsOK c" "state c \<noteq> Listen" "state c \<noteq> SynSent"
  shows "flagsOK (onSegmentSynchronized c h p)"
proof -
  have "flagsOK (restartTimeWait (sendAck c)) = flagsOK c" "flagsOK (sendAck c) = flagsOK c"
    "flagsOK (sendChallengeAck c) = flagsOK c"
    by (rule flagsOK_cong; simp)+
  moreover have "flagsOK (resetConnection c)"
    using c(1) by (auto simp: flagsOK_def finStates_def resetConnection_def)
  ultimately show ?thesis using c
    by (simp add: onSegmentSynchronized_def handleRst_def ackTextFin_flags Let_def)
qed

lemma onSegment_flags: "flagsOK c \<Longrightarrow> flagsOK (onSegment c h p)"
proof -
  let ?d = "tick (c\<lparr>lastRecvTime := now c, keepaliveProbes := 0\<rparr>)"
  assume "flagsOK c"
  then have d: "flagsOK ?d" "state ?d = state c" by (simp_all add: flagsOK_def)
  have "flagsOK (onSegmentListen e h)" if "flagsOK e" "state e = Listen" for e
    using that by (simp add: flagsOK_def finStates_def onSegmentListen_def Let_def)
  moreover have "flagsOK (onSegmentSynSent e h)" if "flagsOK e" "state e = SynSent" for e
    using that by (simp add: flagsOK_def finStates_def onSegmentSynSent_def Let_def)
  moreover have "flagsOK (onSegmentClosed e h p) = flagsOK e" for e
    by (rule flagsOK_cong) (simp_all add: onSegmentClosed_def)
  ultimately show ?thesis using d
    by (simp add: onSegment_def synchronized_flags Let_def split: State.splits)
qed

lemma connStep_flags:
  assumes c: "flagsOK c"
  shows "flagsOK (connStep c e)"
proof (cases e)
  case (EvSegment h p)
  then show ?thesis using c by (simp add: onSegment_flags)
next
  case EvTick
  have "reachedEstablished (Tick c) = reachedEstablished c" "peerFin (Tick c) = peerFin c"
    by (simp_all add: Tick_def checkTimeWait_def Let_def)
  then show ?thesis
    using c Tick_state [of c] by (auto simp: EvTick flagsOK_def finStates_def)
next
  case EvClose
  then show ?thesis using c by (auto simp: Close_def flagsOK_def finStates_def Let_def split: State.splits)
next
  case (EvSend d)
  have "flagsOK (snd (Send c d)) = flagsOK c" by (rule flagsOK_cong) (simp_all add: Send_def)
  then show ?thesis using c by (simp add: EvSend)
qed (use c in \<open>simp_all add: flagsOK_def SetNoDelay_def SetRcvBuffer_def SetKeepAlive_def SetMSL_def
    SetCwnd_def Let_def\<close>)

subsection \<open>Every reachable connection\<close>

lemma connStep_acks:
  assumes c: "acksOK c"
  shows "acksOK (connStep c e)"
proof (cases e)
  case (EvSend d)
  have "acksOK (flushSend x) = acksOK x" for x by (rule acksOK_cong) simp_all
  then show ?thesis using c by (simp add: EvSend Send_def acksOK_def)
next
  case EvClose
  then show ?thesis using c by (simp add: Close_def acksOK_def Let_def split: State.splits)
next
  case (EvRecv n)
  have "acksOK (recomputeRcvWindow (c\<lparr>rcvBuf := x\<rparr>))" for x
    using c by (simp add: acksOK_def recomputeRcvWindow_def Let_def)
  then show ?thesis using c by (simp add: EvRecv Recv_def sendAck_acks Let_def)
qed (use c in \<open>simp_all add: onSegment_acks Tick_acks\<close>,
    use c in \<open>simp_all add: acksOK_def SetNoDelay_def SetRcvBuffer_def SetKeepAlive_def SetMSL_def SetCwnd_def Let_def\<close>)

lemma connStep_probes: "keepaliveProbes c \<le> keepaliveMaxProbes \<Longrightarrow> keepaliveProbes (connStep c e) \<le> keepaliveMaxProbes"
proof (cases e)
  case (EvSegment h p)
  then show ?thesis using keepalive_probes(1) by simp
next
  case EvTick
  then show "keepaliveProbes c \<le> keepaliveMaxProbes \<Longrightarrow> ?thesis" using keepalive_probes(2) by simp
qed (simp_all add: SetNoDelay_def SetRcvBuffer_def SetKeepAlive_def SetMSL_def SetCwnd_def Send_def
    Recv_def recomputeRcvWindow_def Close_def Let_def split: State.splits)

lemma wellTyped_step: "wellTyped c \<Longrightarrow> wellTyped (connStep c e)"
  by (simp add: wellTyped_def countersOK_acks connStep_shifts connStep_acks connStep_probes connStep_flags)

lemma wellTyped_configured: "configured c \<Longrightarrow> wellTyped c \<and> \<not> peerFin c \<and> state c = Closed"
proof (induction rule: configured.induct)
  case (new clock l r)
  show ?case
    by (simp add: NewConn_def wellTyped_def shiftsOK_def countersOK_def flagsOK_def finStates_def)
next
  case (setter c e)
  have "configured (connStep c e)" by (rule configured.setter [OF setter.hyps])
  from configured_blank [OF this] wellTyped_step [of c e] setter.IH show ?case by blast
qed

lemma wellTyped_reachable: "reachable c \<Longrightarrow> wellTyped c"
proof (induction rule: reachable.induct)
  case (dialled c iss)
  then show ?case using wellTyped_configured [OF dialled]
    by (simp add: ActiveOpen_def wellTyped_def shiftsOK_def countersOK_def flagsOK_def finStates_def Let_def)
next
  case (listening c iss)
  then show ?case using wellTyped_configured [OF listening]
    by (simp add: openPassive_def PassiveOpen_def wellTyped_def shiftsOK_def countersOK_def flagsOK_def finStates_def Let_def)
next
  case (step c e)
  then show ?case by (simp add: wellTyped_step)
qed

subsection \<open>The scaled window\<close>

lemma scaledWindow_exact:
  assumes "unat (sndWindShift c) \<le> 14"
  shows "unat (scaledWindow c h) = unat (Window h) * 2 ^ unat (sndWindShift c)"
proof -
  let ?n = "unat (sndWindShift c)"
  have w: "unat (ucast (Window h) :: u32) = unat (Window h)"
    using unat_u16_less [of "Window h"]
    by (simp add: unsigned_ucast_eq unsigned_take_bit_eq take_bit_nat_eq_self)
  have "(2 :: nat) ^ ?n \<le> 2 ^ 14" using assms by (intro power_increasing) simp_all
  then have "unat (Window h) * 2 ^ ?n \<le> 65535 * 2 ^ 14"
    using unat_u16_less [of "Window h"] by (intro mult_le_mono) simp_all
  then have "unat (Window h) * 2 ^ ?n < 2 ^ 32" by simp
  then show ?thesis
    unfolding scaledWindow_def unsigned_push_bit_eq w by (simp add: push_bit_eq_mult take_bit_nat_eq_self)
qed

lemma scaledWindow_le:
  assumes "unat (sndWindShift c) \<le> 14"
  shows "unat (scaledWindow c h) \<le> 1073741824"
proof -
  have "(2 :: nat) ^ unat (sndWindShift c) \<le> 2 ^ 14" using assms by (intro power_increasing) simp_all
  then have "unat (Window h) * 2 ^ unat (sndWindShift c) \<le> 65535 * 2 ^ 14"
    using unat_u16_less [of "Window h"] by (intro mult_le_mono) simp_all
  then show ?thesis unfolding scaledWindow_exact [OF assms] by simp
qed

subsection \<open>Back to LISTEN\<close>

lemma relisten_keeps:
  assumes c: "state c = SynReceived" "origin c = OriginPassive"
    and r: "Has (HdrFlags r) FlagRST" "SeqNum r = rcv_nxt c" "unat (rcv_wnd c) \<le> 1073741824"
    and h: "Has (HdrFlags h) FlagSYN" "\<not> Has (HdrFlags h) FlagACK" "\<not> Has (HdrFlags h) FlagRST" "Options h = []"
  shows "state (onSegment c r []) = Listen \<and> state (onSegment (onSegment c r []) h []) = SynReceived \<and>
    sndWindShift (onSegment (onSegment c r []) h []) = sndWindShift c \<and>
    rcvWindShift (onSegment (onSegment c r []) h []) = rcvWindShift c \<and>
    tsOK (onSegment (onSegment c r []) h []) = tsOK c \<and> sackOK (onSegment (onSegment c r []) h []) = sackOK c"
proof -
  let ?d = "tick (c\<lparr>lastRecvTime := now c, keepaliveProbes := 0\<rparr>)"
  have w: "inWindow ?d (SeqNum r)"
    using r(2,3) by (simp add: inWindow_def SeqLEQ_def SeqLT_dist dist_def unat_gt_0)
  have "onSegmentSynchronized ?d r [] = ?d\<lparr>state := Listen\<rparr>"
    using c r w by (simp add: onSegmentSynchronized_def handleRst_def resetConnection_def Let_def)
  then have l: "onSegment c r [] = ?d\<lparr>state := Listen\<rparr>"
    using c(1) by (simp add: onSegment_def Let_def)
  have "ParseTCPOptions [] = Some (Inr noOptions)" by (simp add: ParseTCPOptions_def parseOpts.simps)
  then have n: "negotiateFrom x h = x\<lparr>sendMSS := defaultSendMSS\<rparr>" for x
    by (simp add: negotiateFrom_def h(4) negotiateOptions_def noOptions_def Let_def)
  show ?thesis
    unfolding l using h(1-3) by (simp add: onSegment_def onSegmentListen_def n initSendWindow_def Let_def)
qed

section \<open>Properties\<close>

text \<open>
  C18: the type of a connection. In every reachable state the peer's window shift is at most
  14 and ours is set only when both ends agreed on scaling; no more challenge ACKs are
  counted than the limit, no more keep-alive probes than nine; the delayed-ACK timer is
  armed exactly when one segment waits for its ACK; the peer's FIN has been seen exactly in
  CLOSE-WAIT, CLOSING, LAST-ACK and TIME-WAIT (CLOSED apart), and ESTABLISHED is recorded
  for \<open>ReachedEstablished\<close>. So the shift of a received window field never loses
  a bit.
\<close>

theorem reachable_well_typed:
  assumes "reachable c"
  shows "wellTyped c \<and> unat (scaledWindow c h) = unat (Window h) * 2 ^ unat (sndWindShift c)"
  using wellTyped_reachable [OF assms] scaledWindow_exact [of c h] by (simp add: wellTyped_def shiftsOK_def)

theorem reachable_well_typed_witness:
  "let c = connStep (ActiveOpen demoConn 100) EvTick in
    wellTyped c \<and> unat (scaledWindow c (demoHeader FlagACK 7 8)) = 5000 * 2 ^ unat (sndWindShift c)"
proof -
  have "configured demoConn" unfolding demoConn_def by (rule configured.new)
  then have "reachable (connStep (ActiveOpen demoConn 100) EvTick)"
    by (intro reachable.step reachable.dialled)
  from reachable_well_typed [OF this, of "demoHeader FlagACK 7 8"] show ?thesis
    by (simp add: demoHeader_def Let_def)
qed

text \<open>
  C26: options that outlive their peer. A RST takes a half-open passive connection back to
  LISTEN, and \<open>resetConnection\<close> changes nothing but the state. If the next SYN
  carries no options, the connection enters SYN-RECEIVED again with the window shifts, the
  timestamp flag and the SACK flag of the first attempt, although the new peer has offered
  none of them (RFC 7323 allows scaling only when both SYNs carry the option).
\<close>

theorem relisten_keeps_negotiated_options:
  assumes "state c = SynReceived" "origin c = OriginPassive"
    and "Has (HdrFlags r) FlagRST" "SeqNum r = rcv_nxt c" "unat (rcv_wnd c) \<le> 1073741824"
    and "Has (HdrFlags h) FlagSYN" "\<not> Has (HdrFlags h) FlagACK" "\<not> Has (HdrFlags h) FlagRST" "Options h = []"
  shows "let l = onSegment c r []; d = onSegment l h [] in
    state l = Listen \<and> state d = SynReceived \<and> sndWindShift d = sndWindShift c \<and>
    rcvWindShift d = rcvWindShift c \<and> tsOK d = tsOK c \<and> sackOK d = sackOK c"
  using relisten_keeps [OF assms] by (simp add: Let_def)

theorem relisten_keeps_negotiated_options_witness:
  "let c = demoConn\<lparr>state := SynReceived, rcv_nxt := 501, rcv_wnd := 65535, sndWindShift := 7, rcvWindShift := 7,
      tsOK := True\<rparr>;
     l = onSegment c (demoHeader FlagRST 501 0) [];
     d = onSegment l (demoHeader FlagSYN 900 0) [] in
    state l = Listen \<and> state d = SynReceived \<and> sndWindShift d = 7 \<and> rcvWindShift d = 7 \<and> tsOK d"
  using relisten_keeps_negotiated_options [of "demoConn\<lparr>state := SynReceived, rcv_nxt := 501, rcv_wnd := 65535,
      sndWindShift := 7, rcvWindShift := 7, tsOK := True\<rparr>" "demoHeader FlagRST 501 0" "demoHeader FlagSYN 900 0"]
  by (simp add: demoHeader_def demoConn_def NewConn_def Let_def)

end
