(* ===== verification/Tcp_Endpoint.thy ===== *)
theory Tcp_Endpoint
  imports Tcp_Transfer Tcp_Typing
begin

unbundle bit_operations_syntax

section \<open>One end of an exchange\<close>

text \<open>
  What the exchanges of packets (handshake, simultaneous open, close) share: the options of the
  segments and how the other end reads them, the packet that a step writes last, and the steps of
  an end that has no data in flight: sending a FIN, receiving one, receiving the ACK of a SYN or a
  FIN. The clock enters through the timestamps: \<open>tsForward\<close> says that no reading falls behind an
  earlier one by half the timestamp space.
\<close>

subsection \<open>Packets and options\<close>

definition tsAt :: "Conn \<Rightarrow> nat \<Rightarrow> u32" where
  "tsAt c n = word_of_int (unixMilli (clk c n))"

definition tsForward :: "Conn \<Rightarrow> bool" where
  "tsForward c \<longleftrightarrow> (\<forall>m n. m \<le> n \<longrightarrow> \<not> pawsStale (tsAt c n) (tsAt c m))"

lemma Has_wire [simp]:
  "Has (f AND 0x3F) FlagSYN = Has f FlagSYN" "Has (f AND 0x3F) FlagACK = Has f FlagACK"
  "Has (f AND 0x3F) FlagRST = Has f FlagRST" "Has (f AND 0x3F) FlagFIN = Has f FlagFIN"
proof -
  have "(f AND 0x3F) AND m = f AND m" if "0x3F AND m = m" for m :: Flags
    using that by (simp add: and.assoc)
  then show "Has (f AND 0x3F) FlagSYN = Has f FlagSYN" "Has (f AND 0x3F) FlagACK = Has f FlagACK"
    "Has (f AND 0x3F) FlagRST = Has f FlagRST" "Has (f AND 0x3F) FlagFIN = Has f FlagFIN"
    by (simp_all add: Has_def FlagSYN_def FlagACK_def FlagRST_def FlagFIN_def)
qed

lemma dispatch_packetOf:
  "goodOpts o' \<Longrightarrow> dispatch c (packetOf d f s a [] o') = Some (onSegment c (seenHeader d f s a [] o') [])"
  using decode_packetOf [of o' "[]" d f s a] by (simp add: dispatch_def goodOpts_def)

text \<open>The options of a SYN, as the peer reads them.\<close>

definition synOptions :: "u32 \<Rightarrow> u32 \<Rightarrow> TCPOptions" where
  "synOptions v e = noOptions\<lparr>HasMSS := True, MSS := ucast defaultMSS, HasWScale := True,
     WindowScale := myWindowScale, HasTimestamp := True, TSVal := v, TSecr := e, SACKPermitted := True\<rparr>"

lemma goodOpts_syn: "goodOpts (MarshalOptions (synOptions v e))"
  by (rule goodOpts_Marshal) (simp_all add: synOptions_def noOptions_def length_optionBytes)

lemma parse_synOptions:
  "ParseTCPOptions (MarshalOptions (synOptions v e)) = Some (Inr (wireOptions (synOptions v e)))"
  by (rule ParseTCPOptions_Marshal) (simp add: synOptions_def noOptions_def)

text \<open>What a SYN leaves behind: one packet with these options.\<close>

lemma sendSyn_out:
  assumes "Has f FlagSYN"
  shows "\<exists>d e. outp (sendSyn c f s a) = outp c @ [packetOf d f s a [] (MarshalOptions (synOptions (tsAt c (ticks c)) e))] \<and>
    ticks c < ticks (sendSyn c f s a)"
proof -
  have o': "fst (synOptionBytes c a) = MarshalOptions (synOptions (tsAt c (ticks c)) (if a = 0 then 0 else tsRecent c))"
    by (simp add: synOptionBytes_def synOptions_def tsNow_def tsAt_def now_def noOptions_def Let_def)
  show ?thesis
    using assms unfolding sendSyn_def writeSegOpts_def case_prod_unfold Let_def o'
    by (auto simp: enqueueRetx_def Let_def tick_def)
qed

lemma ackPop_ticks: "ticks c \<le> ticks (snd (ackPop x q r c))"
proof (induction q arbitrary: r c)
  case (Cons s q)
  show ?case
    by (simp add: Let_def) (intro conjI impI order_trans [OF _ Cons.IH], simp_all add: sampleRTT_def Let_def)
qed simp

lemma ackRetxQueue_ticks: "ticks c \<le> ticks (ackRetxQueue c x)"
  using ackPop_ticks [of c x "retxQueue c" False]
  by (auto simp: ackRetxQueue_def case_prod_unfold Let_def split: list.splits)

definition tsOptions :: "u32 \<Rightarrow> u32 \<Rightarrow> TCPOptions" where
  "tsOptions v e = noOptions\<lparr>HasTimestamp := True, TSVal := v, TSecr := e\<rparr>"

lemma goodOpts_ts: "goodOpts (MarshalOptions (tsOptions v e))"
  by (rule goodOpts_Marshal) (simp_all add: tsOptions_def noOptions_def length_optionBytes)

lemma parse_tsOptions:
  "ParseTCPOptions (MarshalOptions (tsOptions v e)) = Some (Inr (wireOptions (tsOptions v e)))"
  by (rule ParseTCPOptions_Marshal) (simp add: tsOptions_def noOptions_def)

lemma sendAck_out:
  assumes "tsOK c" "oooSegs c = []"
  shows "\<exists>d. outp (sendAck c) = outp c @ [packetOf d FlagACK (snd_nxt c) (rcv_nxt c) []
    (MarshalOptions (tsOptions (tsAt c (ticks c)) (tsRecent c)))]"
  using assms
  by (auto simp: sendAck_def ackOptions_def send_def sendData_def writeSeg_def writeSegOpts_def
      tsNow_def tsAt_def tsOptions_def now_def tick_def enqueueRetx_def Let_def)

lemma sendAck_ticks: "tsOK c \<Longrightarrow> oooSegs c = [] \<Longrightarrow> ticks c < ticks (sendAck c)"
  by (simp add: sendAck_def ackOptions_def send_def sendData_def writeSeg_def writeSegOpts_def
      tsNow_def tick_def enqueueRetx_def Let_def)

lemma inWindow_left: "unat (rcv_wnd c) \<le> 1073741824 \<Longrightarrow> inWindow c (rcv_nxt c)"
  by (simp add: inWindow_def SeqLEQ_def SeqLT_dist dist_def unat_gt_0)

lemma segOptions_ts:
  "Options h = MarshalOptions (tsOptions v e) \<Longrightarrow>
     HasTimestamp (segOptions h) \<and> TSVal (segOptions h) = v"
  by (simp add: segOptions_def parse_tsOptions) (simp add: wireOptions_def tsOptions_def)

subsection \<open>The state of an end\<close>

text \<open>One end between two steps of the exchange: SND.UNA, SND.NXT and RCV.NXT.\<close>

definition endAt :: "State \<Rightarrow> u32 \<Rightarrow> u32 \<Rightarrow> u32 \<Rightarrow> Conn \<Rightarrow> bool" where
  "endAt s una nxt rn c \<longleftrightarrow> state c = s \<and> snd_una c = una \<and> snd_nxt c = nxt \<and> rcv_nxt c = rn \<and>
     sndBuf c = [] \<and> oooSegs c = [] \<and> tsOK c \<and> unat (sndWindShift c) \<le> 14 \<and>
     0 < rcv_wnd c \<and> unat (rcv_wnd c) \<le> 1073741824 \<and> unat (maxSndWnd c) \<le> 1073741824"

text \<open>The last timestamp that \<open>b\<close> has kept is one of \<open>a\<close>'s.\<close>

definition behind :: "Conn \<Rightarrow> Conn \<Rightarrow> bool" where
  "behind a b \<longleftrightarrow> (\<exists>k\<le>ticks a. tsRecent b = tsAt a k)"

lemma behind_fresh: "tsForward a \<Longrightarrow> behind a b \<Longrightarrow> ticks a \<le> n \<Longrightarrow> \<not> pawsStale (tsAt a n) (tsRecent b)"
  unfolding behind_def tsForward_def using le_trans by metis

lemma tsAt_cong: "clk d = clk c \<Longrightarrow> tsAt d = tsAt c"
  by (simp add: tsAt_def fun_eq_iff)

lemma behind_step:
  assumes "behind a b" "clk a' = clk a" "ticks a \<le> ticks a'" "tsRecent b' = tsRecent b \<or> tsRecent b' = tsAt a n" "n \<le> ticks a'"
  shows "behind a' b'"
proof -
  obtain k where k: "k \<le> ticks a" "tsRecent b = tsAt a k" using assms(1) by (auto simp: behind_def)
  have e: "tsAt a' = tsAt a" by (rule tsAt_cong [OF assms(2)])
  have "k \<le> ticks a'" using k(1) assms(3) by simp
  then show ?thesis unfolding behind_def e using k(2) assms(4,5) by auto
qed

subsection \<open>Sending the FIN\<close>

lemma send_out:
  assumes "tsOK c" "\<not> Has f FlagSYN" "\<not> Has f FlagRST" "Has f FlagACK"
  shows "\<exists>d. outp (send c f s a) = outp c @ [packetOf d f s a []
    (MarshalOptions (tsOptions (tsAt c (ticks c)) (tsRecent c)))]" "ticks c < ticks (send c f s a)"
  using assms
  by (auto simp: send_def sendData_def writeSeg_def writeSegOpts_def tsNow_def tsAt_def tsOptions_def now_def
      tick_def enqueueRetx_def Let_def)

lemma close_sends:
  assumes c: "endAt s x x y c" "s = Established \<or> s = CloseWait" and d_def: "d = Close c"
  shows "endAt (if s = Established then FinWait1 else LastAck) x (x + 1) y d" "clk d = clk c" "ticks c < ticks d"
    "tsRecent d = tsRecent c"
    "\<exists>k f. last (outp d) = packetOf k (FlagFIN OR FlagACK) x y [] (MarshalOptions (tsOptions (tsAt c (ticks c)) f))"
proof -
  let ?e = "send c (FlagFIN OR FlagACK) x y"
  have e: "d = ?e\<lparr>snd_nxt := snd_nxt c + 1, state := if s = Established then FinWait1 else LastAck\<rparr>"
    using c by (auto simp: d_def Close_def endAt_def Let_def)
  have c': "tsOK c" "sndBuf c = []" "snd_nxt c = x" using c(1) by (simp_all add: endAt_def)
  show "endAt (if s = Established then FinWait1 else LastAck) x (x + 1) y d" "clk d = clk c" "tsRecent d = tsRecent c"
    using c(1) unfolding e endAt_def by simp_all
  note o' = send_out [OF c'(1), of "FlagFIN OR FlagACK" x y]
  then show "ticks c < ticks d" unfolding e by (simp add: Has_or)
  obtain k where "outp ?e = outp c @ [packetOf k (FlagFIN OR FlagACK) x y []
      (MarshalOptions (tsOptions (tsAt c (ticks c)) (tsRecent c)))]"
    using o'(1) by (auto simp: Has_or)
  then show "\<exists>k f. last (outp d) = packetOf k (FlagFIN OR FlagACK) x y [] (MarshalOptions (tsOptions (tsAt c (ticks c)) f))"
    unfolding e by auto
qed

subsection \<open>A segment at RCV.NXT\<close>

lemma flushSend_ticks: "ticks c \<le> ticks (flushSend c)"
  by (rule flushSend_rel [of "\<lambda>c d. ticks c \<le> ticks d"])
    (auto simp: emitSegment_def sendData_def writeSeg_def writeSegOpts_def tsNow_def tick_def enqueueRetx_def
      disarmOverride_def disarmPersist_def armOverride_def armPersist_def Let_def)

lemma flushSend_empty: "sndBuf c = [] \<Longrightarrow> snd_nxt (flushSend c) = snd_nxt c"
  by (rule flushSend_rel [of "\<lambda>c d. sndBuf c = [] \<longrightarrow> sndBuf d = [] \<and> snd_nxt d = snd_nxt c", THEN mp, THEN conjunct2])
    auto

lemma sync_core:
  assumes c: "endAt s una nxt rn c" "s \<in> {SynReceived, Established, FinWait1, FinWait2, LastAck}"
    and v: "\<not> pawsStale v (tsRecent c)"
    and h: "\<not> Has (HdrFlags h) FlagSYN" "Has (HdrFlags h) FlagACK" "\<not> Has (HdrFlags h) FlagRST" "SeqNum h = rn"
      "Options h = MarshalOptions (tsOptions v e)" "ackAccepted c h"
  obtains n where "onSegment c h [] = textAndFin (flushSend (advanceStateOnAck (ackCore n h []) h)) h []"
    "endAt s una nxt rn n" "clk n = clk c" "ticks c \<le> ticks n" "tsRecent n = tsRecent c \<or> tsRecent n = v"
proof -
  define l where "l = tick (c\<lparr>lastRecvTime := now c, keepaliveProbes := 0\<rparr>)"
  have l: "endAt s una nxt rn l" "clk l = clk c" "ticks l = Suc (ticks c)" "tsRecent l = tsRecent c" "state l = s" "tsOK l"
    using c(1) by (simp_all add: l_def endAt_def)
  define m where "m = l\<lparr>tsRecent := tsRecentUpdate (tsRecent l) v (SeqNum h) (lastAckSent l)\<rparr>"
  define n where "n = (if TSecr (segOptions h) \<noteq> 0 then sampleRTTFromTimestamp m (TSecr (segOptions h)) else m)"
  note o' = segOptions_ts [OF h(5)]
  have m: "endAt s una nxt rn m" "clk m = clk c" "ticks m = Suc (ticks c)" "tsRecent m = tsRecent c \<or> tsRecent m = v"
    using l by (simp_all add: m_def endAt_def tsRecentUpdate_def)
  have n: "endAt s una nxt rn n" "clk n = clk c" "ticks c \<le> ticks n" "tsRecent n = tsRecent c \<or> tsRecent n = v"
    using m by (auto simp: n_def endAt_def sampleRTTFromTimestamp_def tsNow_def tick_def Let_def)
  have w: "inWindow l (rcv_nxt l)" "rcv_nxt l = rn" "rcv_wnd l \<noteq> 0"
    using l(1) inWindow_left [of l] by (auto simp: endAt_def)
  have acc: "acceptable l h []" using w h(4) by (simp add: acceptable_def word_gt_0 Let_def)
  have "ackAccepted n = ackAccepted c"
    by (rule ack_reads_cong(1)) (use c(1) n(1) in \<open>simp_all add: endAt_def n_def m_def l_def\<close>)
  then have ack: "ackAccepted n h" using h(6) by simp
  have "onSegmentSynchronized l h [] = ackTextFin l h []"
    using l c(2) h o' acc v by (auto simp: onSegmentSynchronized_def Let_def)
  also have "\<dots> = (let (ok, c) = handleAck n h [] in if \<not> ok then c else textAndFin c h [])"
    using l(6) o' h(2) by (simp add: ackTextFin_def Let_def n_def m_def)
  also have "\<dots> = textAndFin (flushSend (advanceStateOnAck (ackCore n h []) h)) h []"
    using ack by (simp add: case_prod_unfold handleAck_snd)
  finally have "onSegment c h [] = textAndFin (flushSend (advanceStateOnAck (ackCore n h []) h)) h []"
    using l(5) c(2) unfolding onSegment_def Let_def l_def [symmetric] by auto
  with n that show ?thesis by blast
qed

lemma in_range: "unat m < 2147483648 \<Longrightarrow> \<not> SeqLT x (x - m)"
proof (cases "m = 0")
  case False
  assume "unat m < 2147483648"
  then have "unat (- m) \<ge> 2147483648" using False unat_sub_if' [of 0 m] by (simp add: unat_eq_zero)
  then show ?thesis by (simp add: SeqLT_dist dist_def)
qed (simp add: SeqLT_def)

lemma updateSendWindow_end:
  assumes "endAt s una nxt rn c"
  shows "endAt s una nxt rn (updateSendWindow c h)" "clk (updateSendWindow c h) = clk c"
    "tsRecent (updateSendWindow c h) = tsRecent c" "ticks (updateSendWindow c h) = ticks c"
proof -
  have "unat (scaledWindow c h) \<le> 1073741824" using assms by (intro scaledWindow_le) (simp add: endAt_def)
  then show "endAt s una nxt rn (updateSendWindow c h)"
    using assms by (simp add: endAt_def updateSendWindow_def Let_def)
  show "clk (updateSendWindow c h) = clk c" "tsRecent (updateSendWindow c h) = tsRecent c"
    by simp_all
  show "ticks (updateSendWindow c h) = ticks c"
    by (simp add: updateSendWindow_def disarmPersist_def Let_def)
qed

lemma flushSend_end:
  assumes "endAt s una nxt rn c"
  shows "endAt s una nxt rn (flushSend c)" "clk (flushSend c) = clk c"
    "tsRecent (flushSend c) = tsRecent c" "ticks c \<le> ticks (flushSend c)"
  using assms flushSend_empty [of c] by (simp_all add: endAt_def flushSend_ticks)

subsection \<open>Receiving the FIN\<close>

lemma fin_received:
  assumes c: "endAt s x x y c" "s = Established \<or> s = FinWait2"
    and v: "\<not> pawsStale v (tsRecent c)"
    and h: "\<not> Has (HdrFlags h) FlagSYN" "Has (HdrFlags h) FlagACK" "\<not> Has (HdrFlags h) FlagRST" "SeqNum h = y"
      "Options h = MarshalOptions (tsOptions v e)" "Has (HdrFlags h) FlagFIN" "AckNum h = x"
    and d_def: "d = onSegment c h []"
  shows "state d = (if s = Established then CloseWait else TimeWait)"
    "s = Established \<Longrightarrow> endAt CloseWait x x (y + 1) d" "clk d = clk c" "tsRecent d = tsRecent c \<or> tsRecent d = v"
    "\<exists>k n f. last (outp d) = packetOf k FlagACK x (y + 1) [] (MarshalOptions (tsOptions (tsAt c n) f)) \<and>
      ticks c \<le> n \<and> n < ticks d"
proof -
  have "ackAccepted c h"
    using c h(7) in_range [of "maxSndWnd c" x]
    by (auto simp: ackAccepted_def ackOutOfRange_def endAt_def SeqGT_def SeqLT_def)
  then obtain n where n: "d = textAndFin (flushSend (advanceStateOnAck (ackCore n h []) h)) h []"
    "endAt s x x y n" "clk n = clk c" "ticks c \<le> ticks n" "tsRecent n = tsRecent c \<or> tsRecent n = v"
    using sync_core [OF c(1) _ v h(1-5)] c(2) unfolding d_def by blast
  define w where "w = flushSend (updateSendWindow n h)"
  have "\<not> AcceptableAck x x x" by (simp add: AcceptableAck_dist)
  then have "ackCore n h [] = updateSendWindow n h"
    using n(2) h(6,7) by (simp add: ackCore_def endAt_def isDupAck_def)
  moreover have "advanceStateOnAck (updateSendWindow n h) h = updateSendWindow n h"
    using n(2) c(2) by (auto simp: advanceStateOnAck_def endAt_def)
  ultimately have d: "d = textAndFin w h []" using n(1) by (simp add: w_def)
  note u = updateSendWindow_end [OF n(2), of h]
  have w: "endAt s x x y w" "clk w = clk c" "ticks c \<le> ticks w" "tsRecent w = tsRecent c \<or> tsRecent w = v"
    using flushSend_end [OF u(1)] u(2-4) n(3-5) by (auto simp: w_def)
  have "finInOrder w h []" using w(1) h by (simp add: finInOrder_def segLen_def endAt_def Let_def)
  then have df: "d = handleFin w h" by (simp add: d textAndFin_def)
  let ?p = "w\<lparr>peerFin := True, peerFinSeq := rcv_nxt w, rcv_nxt := rcv_nxt w + 1\<rparr>"
  have p: "tsOK ?p" "oooSegs ?p = []" "snd_nxt ?p = x" "rcv_nxt ?p = y + 1" using w(1) by (simp_all add: endAt_def)
  have tk: "ticks ?p < ticks (sendAck ?p)" by (rule sendAck_ticks [OF p(1,2)])
  have st: "state (sendAck ?p) = s" using w(1) by (simp add: endAt_def)
  have fin: "d = (if s = Established then (sendAck ?p)\<lparr>state := CloseWait\<rparr> else enterTimeWait (sendAck ?p))"
    unfolding df handleFin_def Let_def st using c(2) by auto
  show "state d = (if s = Established then CloseWait else TimeWait)" unfolding fin by simp
  show "endAt CloseWait x x (y + 1) d" if "s = Established"
    unfolding fin using that w(1) by (simp add: endAt_def)
  show "clk d = clk c" "tsRecent d = tsRecent c \<or> tsRecent d = v" unfolding fin using w(2,4) by simp_all
  obtain k where "outp (sendAck ?p) = outp ?p @ [packetOf k FlagACK x (y + 1) []
      (MarshalOptions (tsOptions (tsAt ?p (ticks ?p)) (tsRecent ?p)))]"
    using sendAck_out [OF p(1,2)] p(3,4) by auto
  moreover have "tsAt ?p = tsAt c" by (rule tsAt_cong) (simp add: w(2))
  moreover have "outp d = outp (sendAck ?p)" "ticks (sendAck ?p) \<le> ticks d"
    unfolding fin by (simp_all add: enterTimeWait_def restartTimeWait_def)
  ultimately have "last (outp d) = packetOf k FlagACK x (y + 1) [] (MarshalOptions (tsOptions (tsAt c (ticks w)) (tsRecent w))) \<and>
      ticks c \<le> ticks w \<and> ticks w < ticks d"
    using w(3) tk by simp
  then show "\<exists>k n f. last (outp d) = packetOf k FlagACK x (y + 1) [] (MarshalOptions (tsOptions (tsAt c n) f)) \<and>
      ticks c \<le> n \<and> n < ticks d" by blast
qed

subsection \<open>The ACK of a SYN or a FIN\<close>

lemma newAck_end:
  assumes "endAt s x (x + 1) y c" "AckNum h = x + 1"
  shows "endAt s (x + 1) (x + 1) y (newAck c h)" "clk (newAck c h) = clk c" "tsRecent (newAck c h) = tsRecent c"
    "ticks c \<le> ticks (newAck c h)"
proof -
  show "endAt s (x + 1) (x + 1) y (newAck c h)"
    using assms by (simp add: endAt_def newAck_queue)
      (simp add: newAck_def releaseAckedSend_def Let_def)
  show "clk (newAck c h) = clk c" "tsRecent (newAck c h) = tsRecent c" by simp_all
  show "ticks c \<le> ticks (newAck c h)"
    using ackRetxQueue_ticks [of "c\<lparr>snd_una := AckNum h\<rparr>" "AckNum h"]
    by (simp add: newAck_def releaseAckedSend_def Let_def)
qed

lemma ack_received:
  assumes c: "endAt s x (x + 1) y c" "s \<in> {SynReceived, FinWait1, LastAck}"
    and v: "\<not> pawsStale v (tsRecent c)"
    and h: "\<not> Has (HdrFlags h) FlagSYN" "Has (HdrFlags h) FlagACK" "\<not> Has (HdrFlags h) FlagRST" "SeqNum h = y"
      "Options h = MarshalOptions (tsOptions v e)" "\<not> Has (HdrFlags h) FlagFIN" "AckNum h = x + 1"
    and d_def: "d = onSegment c h []"
  shows "endAt (ackNext True s) (x + 1) (x + 1) y d" "clk d = clk c"
    "tsRecent d = tsRecent c \<or> tsRecent d = v" "ticks c \<le> ticks d"
proof -
  have acc: "AcceptableAck x (x + 1) (x + 1)" by (simp add: AcceptableAck_dist dist_def)
  have "ackAccepted c h"
  proof -
    let ?m = "maxSndWnd c"
    have "unat (?m + 1) < 2147483648" using c(1) by (simp add: endAt_def unat_word_ariths)
    from in_range [OF this, of "x + 1"] have "\<not> SeqLT (x + 1) (x - ?m)" by simp
    then show ?thesis
      using c(1) h(7) acc by (simp add: ackAccepted_def ackOutOfRange_def endAt_def SeqGT_def SeqLT_def)
  qed
  then obtain n where n: "d = textAndFin (flushSend (advanceStateOnAck (ackCore n h []) h)) h []"
    "endAt s x (x + 1) y n" "clk n = clk c" "ticks c \<le> ticks n" "tsRecent n = tsRecent c \<or> tsRecent n = v"
    using sync_core [OF c(1) _ v h(1-5)] c(2) unfolding d_def by blast
  have core: "ackCore n h [] = updateSendWindow (newAck n h) h"
    using acc n(2) h(7) by (simp add: ackCore_def endAt_def)
  note a = newAck_end [OF n(2) h(7)]
  note u = updateSendWindow_end [OF a(1), of h]
  let ?u = "updateSendWindow (newAck n h) h"
  have adv: "endAt (ackNext True s) (x + 1) (x + 1) y (advanceStateOnAck ?u h)"
    "ticks (advanceStateOnAck ?u h) = ticks ?u"
    using u(1) c(2) by (auto simp: advanceStateOnAck_def endAt_def finAcked_def ackNext_def)
  note f = flushSend_end [OF adv(1)]
  have d: "d = flushSend (advanceStateOnAck ?u h)"
    using h(6) unfolding n(1) core by (simp add: textAndFin_def finInOrder_def)
  show "endAt (ackNext True s) (x + 1) (x + 1) y d" "clk d = clk c"
    "tsRecent d = tsRecent c \<or> tsRecent d = v" "ticks c \<le> ticks d"
    unfolding d using f adv(2) a(2-4) u(2-4) n(3-5) by simp_all
qed

end
