(* ===== verification/Tcp_Handshake.thy ===== *)
theory Tcp_Handshake
  imports Tcp_Endpoint
begin

unbundle bit_operations_syntax

section \<open>The three-way handshake\<close>

text \<open>
  The packets of the handshake, one by one, over the receive path of the code: what a dialled
  connection writes, what a listening one answers, and what both know after the last ACK.
\<close>

subsection \<open>SYN\<close>

lemma configured_window: "configured c \<Longrightarrow> maxSndWnd c = 65535"
  by (induction rule: configured.induct, simp add: NewConn_def maxWindow_def)
    (erule isSetter.elims; simp add: SetNoDelay_def SetRcvBuffer_def SetKeepAlive_def SetMSL_def
      SetCwnd_def Let_def)

lemma rcvBuffCap_cong: "rcvBuffTotal d = rcvBuffTotal c \<Longrightarrow> rcvBuffCap d = rcvBuffCap c"
  by (simp add: rcvBuffCap_def)

lemma active_syn:
  assumes "configured c" and a_def: "a = ActiveOpen c iss"
  shows "state a = SynSent" "snd_iss a = iss" "snd_una a = iss" "snd_nxt a = iss + 1"
    "rcvBuf a = []" "oooSegs a = []" "\<not> peerFin a" "rcvBuffCap a = rcvBuffCap c"
    "rcv_wnd a = rcvBuffCap c" "clk a = clk c" "ticks c < ticks a"
    "\<exists>d e. last (outp a) = packetOf d FlagSYN iss 0 [] (MarshalOptions (synOptions (tsAt c (ticks c)) e))"
proof -
  note b = configured_blank [OF assms(1)]
  let ?c = "c\<lparr>snd_iss := iss, snd_una := iss, snd_nxt := iss + 1, rcv_wnd := initialRcvWindow c,
    state := SynSent\<rparr>"
  have a: "a = sendSyn ?c FlagSYN iss 0" by (simp add: a_def ActiveOpen_def Let_def)
  show "state a = SynSent" "snd_iss a = iss" "snd_una a = iss" "snd_nxt a = iss + 1"
    "rcvBuf a = []" "oooSegs a = []" "\<not> peerFin a" "clk a = clk c"
    unfolding a using b by simp_all
  show "rcvBuffCap a = rcvBuffCap c" unfolding a by (rule rcvBuffCap_cong) simp
  show "rcv_wnd a = rcvBuffCap c" unfolding a by (simp add: initialRcvWindow_def)
  obtain d e where o': "outp a = outp ?c @ [packetOf d FlagSYN iss 0 [] (MarshalOptions (synOptions (tsAt ?c (ticks ?c)) e))]"
    "ticks ?c < ticks a"
    using sendSyn_out [of FlagSYN ?c iss 0] unfolding a by auto
  then show "ticks c < ticks a" by simp
  have "tsAt ?c (ticks ?c) = tsAt c (ticks c)" by (simp add: tsAt_def)
  then show "\<exists>d e. last (outp a) = packetOf d FlagSYN iss 0 [] (MarshalOptions (synOptions (tsAt c (ticks c)) e))"
    using o'(1) by auto
qed

subsection \<open>SYN-ACK\<close>

lemma negotiate_syn:
  "Options h = MarshalOptions (synOptions v e) \<Longrightarrow> negotiateFrom c h = negotiateOptions c (wireOptions (synOptions v e))"
  by (simp add: negotiateFrom_def parse_synOptions)

lemma negotiate_ts:
  "tsOK (negotiateOptions c (wireOptions (synOptions v e)))"
  "tsRecent (negotiateOptions c (wireOptions (synOptions v e))) = v"
  by (simp_all add: negotiateOptions_def wireOptions_def synOptions_def Let_def)

lemma initSendWindow_max: "maxSndWnd c = 65535 \<Longrightarrow> maxSndWnd (initSendWindow c h) = 65535"
proof -
  have "unat (ucast (Window h) :: u32) = unat (Window h)"
    using unat_u16_less [of "Window h"] by (simp add: unsigned_ucast_eq unsigned_take_bit_eq take_bit_nat_eq_self)
  then have "\<not> (65535 :: u32) < ucast (Window h)"
    using unat_u16_less [of "Window h"] by (simp add: word_less_nat_alt)
  then show "maxSndWnd c = 65535 \<Longrightarrow> maxSndWnd (initSendWindow c h) = 65535"
    by (simp add: initSendWindow_def Let_def)
qed

lemma initSendWindow_ts [simp]:
  "tsOK (initSendWindow c h) = tsOK c" "tsRecent (initSendWindow c h) = tsRecent c"
  by (simp_all add: initSendWindow_def Let_def)

lemma listen_syn:
  assumes "configured c" and h: "Has (HdrFlags h) FlagSYN" "\<not> Has (HdrFlags h) FlagACK"
    "\<not> Has (HdrFlags h) FlagRST" "Options h = MarshalOptions (synOptions v e)"
    and b_def: "b = onSegment (openPassive c iss) h []"
  shows "state b = SynReceived" "snd_iss b = iss" "snd_una b = iss" "snd_nxt b = iss + 1"
    "rcv_nxt b = SeqNum h + 1" "rcvBuf b = []" "oooSegs b = []" "\<not> peerFin b"
    "rcvBuffCap b = rcvBuffCap c" "rcv_wnd b = rcvBuffCap c" "maxSndWnd b = 65535" "tsOK b"
    "tsRecent b = v"
    "\<exists>d n x. last (outp b) = packetOf d (FlagSYN OR FlagACK) iss (SeqNum h + 1) []
       (MarshalOptions (synOptions (tsAt c n) x)) \<and> n < ticks b" "sndBuf b = []" "clk b = clk c" "ticks c \<le> ticks b"
proof -
  note b = configured_blank [OF assms(1)] configured_window [OF assms(1)]
  define l where "l = tick ((openPassive c iss)\<lparr>lastRecvTime := now (openPassive c iss), keepaliveProbes := 0\<rparr>)"
  define m where "m = initSendWindow (negotiateOptions (l\<lparr>rcv_irs := SeqNum h, rcv_nxt := SeqNum h + 1,
    snd_una := snd_iss l, snd_nxt := snd_iss l + 1, origin := OriginPassive, state := SynReceived\<rparr>)
    (wireOptions (synOptions v e))) h"
  have l: "state l = Listen" "snd_iss l = iss" "rcv_wnd l = rcvBuffCap c" "rcvBuffTotal l = rcvBuffTotal c"
    "rcvBuf l = []" "oooSegs l = []" "\<not> peerFin l" "maxSndWnd l = 65535" "sndBuf l = []" "clk l = clk c"
    "ticks l = Suc (ticks c)"
    using b by (simp_all add: l_def openPassive_def PassiveOpen_def initialRcvWindow_def rcvBuffCap_def)
  have m: "state m = SynReceived" "snd_iss m = iss" "snd_una m = iss" "snd_nxt m = iss + 1"
    "rcv_nxt m = SeqNum h + 1" "rcvBuf m = []" "oooSegs m = []" "\<not> peerFin m" "rcv_wnd m = rcvBuffCap c"
    "rcvBuffTotal m = rcvBuffTotal c" "tsOK m" "tsRecent m = v" "sndBuf m = []" "clk m = clk c"
    "ticks m = Suc (ticks c)"
    using l by (simp_all add: m_def negotiate_ts initSendWindow_def Let_def)
      (simp_all add: negotiateOptions_def Let_def)
  have w: "maxSndWnd m = 65535"
    unfolding m_def by (rule initSendWindow_max) (simp add: negotiateOptions_def l(8) Let_def)
  have bb: "b = sendSyn m (FlagSYN OR FlagACK) iss (SeqNum h + 1)"
    using l(1) h m(2,5) unfolding b_def onSegment_def Let_def l_def [symmetric] onSegmentListen_def
    by (simp add: negotiate_syn [OF h(4)] m_def [symmetric])
  show "state b = SynReceived" "snd_iss b = iss" "snd_una b = iss" "snd_nxt b = iss + 1"
    "rcv_nxt b = SeqNum h + 1" "rcvBuf b = []" "oooSegs b = []" "\<not> peerFin b"
    "rcv_wnd b = rcvBuffCap c" "maxSndWnd b = 65535" "tsOK b" "tsRecent b = v"
    unfolding bb using m w by simp_all
  show "rcvBuffCap b = rcvBuffCap c" unfolding bb by (rule rcvBuffCap_cong) (simp add: m(10))
  show "sndBuf b = []" "clk b = clk c" unfolding bb using m by simp_all
  obtain d x where o': "outp b = outp m @ [packetOf d (FlagSYN OR FlagACK) iss (SeqNum h + 1) []
      (MarshalOptions (synOptions (tsAt m (ticks m)) x))]" "ticks m < ticks b"
    using sendSyn_out [of "FlagSYN OR FlagACK" m iss "SeqNum h + 1"] unfolding bb by (auto simp: Has_or)
  have "tsAt m = tsAt c" by (rule tsAt_cong [OF m(14)])
  then show "\<exists>d n x. last (outp b) = packetOf d (FlagSYN OR FlagACK) iss (SeqNum h + 1) []
       (MarshalOptions (synOptions (tsAt c n) x)) \<and> n < ticks b"
    using o' by auto
  show "ticks c \<le> ticks b" using o'(2) m(15) by simp
qed

lemma synsent_synack:
  assumes a: "state a = SynSent" "snd_iss a = i" "snd_nxt a = i + 1" "rcvBuf a = []" "oooSegs a = []"
      "\<not> peerFin a"
    and h: "Has (HdrFlags h) FlagSYN" "Has (HdrFlags h) FlagACK" "\<not> Has (HdrFlags h) FlagRST"
      "AckNum h = i + 1" "Options h = MarshalOptions (synOptions v e)"
    and d_def: "d = onSegment a h []"
  shows "state d = Established" "rcv_nxt d = SeqNum h + 1" "rcvBuf d = []" "oooSegs d = []"
    "\<not> peerFin d" "rcv_wnd d = rcv_wnd a" "rcvBuffTotal d = rcvBuffTotal a"
    "\<exists>k n x. last (outp d) = packetOf k FlagACK (i + 1) (SeqNum h + 1) [] (MarshalOptions (tsOptions (tsAt a n) x)) \<and>
       ticks a \<le> n \<and> n < ticks d"
    "snd_una d = i + 1" "snd_nxt d = i + 1" "sndBuf d = sndBuf a" "tsOK d" "tsRecent d = v" "clk d = clk a"
    "maxSndWnd a = 65535 \<Longrightarrow> maxSndWnd d = 65535"
proof -
  define l where "l = tick (a\<lparr>lastRecvTime := now a, keepaliveProbes := 0\<rparr>)"
  define n where "n = negotiateOptions (l\<lparr>rcv_irs := SeqNum h, rcv_nxt := SeqNum h + 1\<rparr>) (wireOptions (synOptions v e))"
  define k where "k = ackRetxQueue (n\<lparr>snd_una := i + 1\<rparr>) (i + 1)"
  define m where "m = (initSendWindow k h)\<lparr>state := Established, reachedEstablished := True\<rparr>"
  have l: "state l = SynSent" "snd_iss l = i" "snd_nxt l = i + 1" "rcvBuf l = []" "oooSegs l = []"
    "\<not> peerFin l" "rcv_wnd l = rcv_wnd a" "rcvBuffTotal l = rcvBuffTotal a" "clk l = clk a"
    "ticks l = Suc (ticks a)" "sndBuf l = sndBuf a" "maxSndWnd l = maxSndWnd a"
    using a by (simp_all add: l_def)
  have n: "snd_nxt n = i + 1" "rcvBuf n = []" "oooSegs n = []" "\<not> peerFin n" "rcv_wnd n = rcv_wnd a"
    "rcvBuffTotal n = rcvBuffTotal a" "tsOK n" "rcv_nxt n = SeqNum h + 1" "clk n = clk a" "ticks n = Suc (ticks a)"
    "tsRecent n = v" "sndBuf n = sndBuf a" "maxSndWnd n = maxSndWnd a"
    using l by (simp_all add: n_def negotiate_ts)
      (simp_all add: negotiateOptions_def Let_def)
  have m: "snd_nxt m = i + 1" "rcvBuf m = []" "oooSegs m = []" "\<not> peerFin m" "rcv_wnd m = rcv_wnd a"
    "rcvBuffTotal m = rcvBuffTotal a" "tsOK m" "rcv_nxt m = SeqNum h + 1" "clk m = clk a" "state m = Established"
    "snd_una m = i + 1" "tsRecent m = v" "sndBuf m = sndBuf a"
    using n by (simp_all add: m_def k_def initSendWindow_def Let_def)
  have mx: "maxSndWnd a = 65535 \<Longrightarrow> maxSndWnd m = 65535"
    using initSendWindow_max [of k h] n(13) by (simp add: m_def k_def)
  have t: "ticks a \<le> ticks m"
    using ackRetxQueue_ticks [of "n\<lparr>snd_una := i + 1\<rparr>" "i + 1"] n(10)
    by (simp add: m_def k_def initSendWindow_def Let_def)
  have "\<not> SeqLEQ (i + 1) i" "\<not> SeqGT (i + 1) (i + 1)"
    by (simp_all add: SeqLEQ_def SeqLT_def SeqGT_def halfSeqSpace_def)
  then have d: "d = sendAck m"
    using l h unfolding d_def onSegment_def Let_def l_def [symmetric] onSegmentSynSent_def
    by (simp add: negotiate_syn [OF h(5)] n_def [symmetric] k_def [symmetric] m_def [symmetric])
  show "state d = Established" "rcv_nxt d = SeqNum h + 1" "rcvBuf d = []" "oooSegs d = []"
    "\<not> peerFin d" "rcv_wnd d = rcv_wnd a" "rcvBuffTotal d = rcvBuffTotal a"
    unfolding d using m by simp_all
  show "snd_una d = i + 1" "snd_nxt d = i + 1" "sndBuf d = sndBuf a" "tsOK d" "tsRecent d = v" "clk d = clk a"
    "maxSndWnd a = 65535 \<Longrightarrow> maxSndWnd d = 65535"
    unfolding d using m mx by simp_all
  obtain k where "outp d = outp m @ [packetOf k FlagACK (i + 1) (SeqNum h + 1) []
    (MarshalOptions (tsOptions (tsAt m (ticks m)) (tsRecent m)))]"
    using sendAck_out [of m] m unfolding d by auto
  then show "\<exists>k n x. last (outp d) = packetOf k FlagACK (i + 1) (SeqNum h + 1) [] (MarshalOptions (tsOptions (tsAt a n) x)) \<and>
       ticks a \<le> n \<and> n < ticks d"
    using t m(9) sendAck_ticks [of m] m(3,7) unfolding d by (auto simp: tsAt_def)
qed

text \<open>
  An ACK of the SYN in SYN-RECEIVED is the work of \<open>handleAck\<close> on a state \<open>n\<close> that differs in the
  timestamps and timers only.
\<close>

lemma synrcvd_ack_core:
  assumes b: "state b = SynReceived" "snd_una b = i" "snd_nxt b = i + 1" "0 < rcv_wnd b"
      "unat (rcv_wnd b) \<le> 1073741824" "maxSndWnd b = 65535" "tsOK b" "\<not> pawsStale v (tsRecent b)"
    and h: "\<not> Has (HdrFlags h) FlagSYN" "Has (HdrFlags h) FlagACK" "\<not> Has (HdrFlags h) FlagRST"
      "\<not> Has (HdrFlags h) FlagFIN" "SeqNum h = rcv_nxt b" "AckNum h = i + 1"
      "Options h = MarshalOptions (tsOptions v e)"
  obtains n where "onSegment b h [] = snd (handleAck n h [])" "ackAccepted n h"
    "state n = SynReceived" "snd_una n = i" "snd_nxt n = i + 1" "rcvBuf n = rcvBuf b" "oooSegs n = oooSegs b"
    "peerFin n = peerFin b" "rcv_nxt n = rcv_nxt b" "rcv_wnd n = rcv_wnd b"
    "rcvBuffTotal n = rcvBuffTotal b" "snd_wnd n = snd_wnd b" "snd_wl1 n = snd_wl1 b" "snd_wl2 n = snd_wl2 b"
proof -
  define l where "l = tick (b\<lparr>lastRecvTime := now b, keepaliveProbes := 0\<rparr>)"
  have l: "state l = SynReceived" "snd_una l = i" "snd_nxt l = i + 1" "rcvBuf l = rcvBuf b" "oooSegs l = oooSegs b"
    "peerFin l = peerFin b" "0 < rcv_wnd l" "unat (rcv_wnd l) \<le> 1073741824" "maxSndWnd l = 65535" "tsOK l"
    "tsRecent l = tsRecent b" "rcv_nxt l = rcv_nxt b" "rcv_wnd l = rcv_wnd b" "rcvBuffTotal l = rcvBuffTotal b"
    "snd_wnd l = snd_wnd b" "snd_wl1 l = snd_wl1 b" "snd_wl2 l = snd_wl2 b"
    using b by (simp_all add: l_def)
  define m where "m = l\<lparr>tsRecent := tsRecentUpdate (tsRecent l) v (SeqNum h) (lastAckSent l)\<rparr>"
  define n where "n = (if TSecr (segOptions h) \<noteq> 0 then sampleRTTFromTimestamp m (TSecr (segOptions h)) else m)"
  note o' = segOptions_ts [OF h(7)]
  have n: "state n = SynReceived" "snd_una n = i" "snd_nxt n = i + 1" "rcvBuf n = rcvBuf b" "oooSegs n = oooSegs b"
    "peerFin n = peerFin b" "maxSndWnd n = 65535" "rcv_nxt n = rcv_nxt b" "rcv_wnd n = rcv_wnd b"
    "rcvBuffTotal n = rcvBuffTotal b" "snd_wnd n = snd_wnd b" "snd_wl1 n = snd_wl1 b" "snd_wl2 n = snd_wl2 b"
    using l by (simp_all add: n_def m_def)
  have acc: "acceptable l h []"
    using l h inWindow_left [of l] by (simp add: acceptable_def segLen_def Let_def)
  have ok: "AcceptableAck i (i + 1) (i + 1)" "\<not> SeqLT (i + 1) (i - 65535)" "\<not> SeqGT (i + 1) (i + 1)"
    by (simp_all add: AcceptableAck_dist SeqGT_def SeqLT_dist dist_def)
  have ack: "ackAccepted n h"
    using ok n h by (simp add: ackAccepted_def ackOutOfRange_def)
  have "onSegmentSynchronized l h [] = ackTextFin l h []"
    using l h o' acc b(8) by (simp add: onSegmentSynchronized_def Let_def)
  also have "\<dots> = (let (ok, c) = handleAck n h [] in if \<not> ok then c else textAndFin c h [])"
    using l(10) o' h(2) by (simp add: ackTextFin_def Let_def n_def m_def)
  also have "\<dots> = snd (handleAck n h [])"
    using ack h(4) by (simp add: case_prod_unfold textAndFin_def finInOrder_def)
  finally have "onSegment b h [] = snd (handleAck n h [])"
    using l unfolding onSegment_def Let_def l_def [symmetric] by simp
  with ack n that show ?thesis by blast
qed

lemma synrcvd_ack:
  assumes b: "state b = SynReceived" "snd_una b = i" "snd_nxt b = i + 1" "rcvBuf b = []" "oooSegs b = []"
      "\<not> peerFin b" "0 < rcv_wnd b" "unat (rcv_wnd b) \<le> 1073741824" "maxSndWnd b = 65535" "tsOK b"
      "\<not> pawsStale v (tsRecent b)"
    and h: "\<not> Has (HdrFlags h) FlagSYN" "Has (HdrFlags h) FlagACK" "\<not> Has (HdrFlags h) FlagRST"
      "\<not> Has (HdrFlags h) FlagFIN" "SeqNum h = rcv_nxt b" "AckNum h = i + 1"
      "Options h = MarshalOptions (tsOptions v e)"
    and d_def: "d = onSegment b h []"
  shows "state d = Established \<and> rcv_nxt d = rcv_nxt b \<and> rcvBuf d = [] \<and> oooSegs d = [] \<and>
    \<not> peerFin d \<and> rcv_wnd d = rcv_wnd b \<and> rcvBuffTotal d = rcvBuffTotal b"
proof -
  obtain n where n: "d = snd (handleAck n h [])" "ackAccepted n h" "state n = SynReceived"
    "rcvBuf n = rcvBuf b" "oooSegs n = oooSegs b" "peerFin n = peerFin b" "rcv_nxt n = rcv_nxt b"
    "rcv_wnd n = rcv_wnd b" "rcvBuffTotal n = rcvBuffTotal b"
    unfolding d_def by (rule synrcvd_ack_core [OF b(1-3,7-11) h])
  then have "state d = Established" by (simp add: handleAck_state ackNext_def)
  then show ?thesis using n b unfolding n(1) by simp
qed

subsection \<open>All three\<close>

text \<open>Each end reads the last packet the other has written, three times.\<close>

definition handshake :: "Conn \<Rightarrow> Conn \<Rightarrow> (Conn \<times> Conn) option" where
  "handshake a b =
     do { b \<leftarrow> dispatch b (last (outp a));
          a \<leftarrow> dispatch a (last (outp b));
          b \<leftarrow> dispatch b (last (outp a));
          Some (a, b) }"

text \<open>Both ends after the exchange, as \<open>endAt\<close> describes them.\<close>

lemma listen_end:
  assumes conf: "configured c" and cap: "0 < rcvBuffCap c" "unat (rcvBuffCap c) \<le> 1073741824"
    and h: "Has (HdrFlags h) FlagSYN" "\<not> Has (HdrFlags h) FlagACK" "\<not> Has (HdrFlags h) FlagRST"
    "Options h = MarshalOptions (synOptions v e)"
  shows "endAt SynReceived iss (iss + 1) (SeqNum h + 1) (onSegment (openPassive c iss) h [])"
proof -
  note b = listen_syn [OF conf h HOL.refl, of iss]
  have "reachable (connStep (openPassive c iss) (EvSegment h []))"
    by (intro reachable.step reachable.listening conf)
  then have "unat (sndWindShift (onSegment (openPassive c iss) h [])) \<le> 14"
    using wellTyped_reachable by (simp add: wellTyped_def shiftsOK_def)
  then show ?thesis using b cap by (simp add: endAt_def)
qed

lemma synack_end:
  assumes conf: "configured c" and cap: "0 < rcvBuffCap c" "unat (rcvBuffCap c) \<le> 1073741824"
    and h: "Has (HdrFlags h) FlagSYN" "Has (HdrFlags h) FlagACK" "\<not> Has (HdrFlags h) FlagRST"
      "AckNum h = iss + 1" "Options h = MarshalOptions (synOptions v e)"
  shows "endAt Established (iss + 1) (iss + 1) (SeqNum h + 1) (onSegment (ActiveOpen c iss) h [])"
proof -
  note a = active_syn [OF conf HOL.refl, of iss]
  note d = synsent_synack [OF a(1,2,4-7) h HOL.refl]
  have "reachable (connStep (ActiveOpen c iss) (EvSegment h []))"
    by (intro reachable.step reachable.dialled conf)
  then have "unat (sndWindShift (onSegment (ActiveOpen c iss) h [])) \<le> 14"
    using wellTyped_reachable by (simp add: wellTyped_def shiftsOK_def)
  moreover have "sndBuf (ActiveOpen c iss) = []" "maxSndWnd (ActiveOpen c iss) = 65535"
    using configured_blank [OF conf] configured_window [OF conf] by (simp_all add: ActiveOpen_def Let_def)
  ultimately show ?thesis using d a(9) cap by (simp add: endAt_def)
qed

lemma handshake_steps:
  assumes conf: "configured a" "configured b"
    and cap: "unat (rcvBuffCap a) \<le> 1073741824" "unat (rcvBuffCap b) \<le> 1073741824" "0 < rcvBuffCap b"
    and ts: "tsForward a"
  shows "\<exists>c d. handshake (ActiveOpen a x) (openPassive b y) = Some (c, d) \<and> ready (y + 1) c \<and> ready (x + 1) d \<and>
    (0 < rcvBuffCap a \<longrightarrow> endAt Established (x + 1) (x + 1) (y + 1) c) \<and>
    endAt Established (y + 1) (y + 1) (x + 1) d \<and> behind c d \<and> behind d c \<and> clk c = clk a \<and> clk d = clk b \<and>
    (\<exists>h1 h2 h3. SeqNum h1 = x \<and> SeqNum h2 = y \<and> AckNum h2 = x + 1 \<and>
       Has (HdrFlags h1) FlagSYN \<and> \<not> Has (HdrFlags h1) FlagACK \<and> \<not> Has (HdrFlags h1) FlagRST \<and>
       Has (HdrFlags h2) FlagSYN \<and> Has (HdrFlags h2) FlagACK \<and> \<not> Has (HdrFlags h2) FlagRST \<and>
       c = onSegment (ActiveOpen a x) h2 [] \<and> rcv_nxt (onSegment (openPassive b y) h1 []) = x + 1 \<and>
       state (onSegment (openPassive b y) h1 []) = SynReceived \<and>
       d = onSegment (onSegment (openPassive b y) h1 []) h3 [])"
proof -
  define a1 where "a1 = ActiveOpen a x"
  note a1 = active_syn [OF conf(1) a1_def]
  obtain k e where syn: "last (outp a1) = packetOf k FlagSYN x 0 [] (MarshalOptions (synOptions (tsAt a (ticks a)) e))"
    using a1(12) by blast
  let ?h1 = "seenHeader k FlagSYN x 0 [] (MarshalOptions (synOptions (tsAt a (ticks a)) e))"
  define b1 where "b1 = onSegment (openPassive b y) ?h1 []"
  have h1: "Has (HdrFlags ?h1) FlagSYN" "\<not> Has (HdrFlags ?h1) FlagACK" "\<not> Has (HdrFlags ?h1) FlagRST"
    "Options ?h1 = MarshalOptions (synOptions (tsAt a (ticks a)) e)" "SeqNum ?h1 = x"
    by simp_all
  note b1 = listen_syn [OF conf(2) h1(1-4) b1_def, unfolded h1(5)]
  obtain l q f where synack: "last (outp b1) = packetOf l (FlagSYN OR FlagACK) y (x + 1) []
      (MarshalOptions (synOptions (tsAt b q) f))" and q: "q < ticks b1"
    using b1(14) by blast
  let ?h2 = "seenHeader l (FlagSYN OR FlagACK) y (x + 1) [] (MarshalOptions (synOptions (tsAt b q) f))"
  define a2 where "a2 = onSegment a1 ?h2 []"
  have h2: "Has (HdrFlags ?h2) FlagSYN" "Has (HdrFlags ?h2) FlagACK" "\<not> Has (HdrFlags ?h2) FlagRST"
    "AckNum ?h2 = x + 1" "Options ?h2 = MarshalOptions (synOptions (tsAt b q) f)" "SeqNum ?h2 = y"
    by (simp_all add: Has_or)
  note a2 = synsent_synack [OF a1(1,2,4-7) h2(1-5) a2_def, unfolded h2(6) tsAt_cong [OF a1(10)]]
  obtain m n g where ack: "last (outp a2) = packetOf m FlagACK (x + 1) (y + 1) [] (MarshalOptions (tsOptions (tsAt a n) g))"
    and n: "ticks a \<le> n" "n < ticks a2"
    using a2(8) a1(11) by (meson less_imp_le less_le_trans)
  let ?h3 = "seenHeader m FlagACK (x + 1) (y + 1) [] (MarshalOptions (tsOptions (tsAt a n) g))"
  define b2 where "b2 = onSegment b1 ?h3 []"
  have fresh: "\<not> pawsStale (tsAt a n) (tsRecent b1)"
    using ts n(1) b1(13) by (simp add: tsForward_def)
  have h3: "\<not> Has (HdrFlags ?h3) FlagSYN" "Has (HdrFlags ?h3) FlagACK" "\<not> Has (HdrFlags ?h3) FlagRST"
    "\<not> Has (HdrFlags ?h3) FlagFIN" "SeqNum ?h3 = rcv_nxt b1" "AckNum ?h3 = y + 1"
    "Options ?h3 = MarshalOptions (tsOptions (tsAt a n) g)"
    using b1(5) by simp_all
  have w: "0 < rcv_wnd b1" "unat (rcv_wnd b1) \<le> 1073741824" using b1(10) cap by simp_all
  note b2 = synrcvd_ack [OF b1(1,3,4,6-8) w b1(11,12) fresh h3 b2_def]
  have e1: "endAt SynReceived y (y + 1) (x + 1) b1"
    using listen_end [OF conf(2) cap(3,2) h1(1-4), of y] by (simp add: b1_def h1(5))
  have s3: "SeqNum ?h3 = x + 1" by simp
  note e2 = ack_received [OF e1 _ fresh h3(1-3) s3 h3(7,4,6) b2_def]
  have "handshake a1 (openPassive b y) = Some (a2, b2)"
    unfolding handshake_def syn synack ack a2_def b2_def b1_def
    by (simp add: dispatch_packetOf goodOpts_syn goodOpts_ts syn synack ack b1_def [symmetric] a2_def [symmetric])
  moreover have "ready (y + 1) a2"
    using a2(1-7) rcvBuffCap_cong [OF a2(7)] a1(8,9) cap(1) by (simp add: ready_def)
  moreover have "ready (x + 1) b2"
    using b2 rcvBuffCap_cong [of b2 b1] b1(5,9,10) cap(2) by (simp add: ready_def)
  moreover have "endAt Established (x + 1) (x + 1) (y + 1) a2" if "0 < rcvBuffCap a"
    using synack_end [OF conf(1) that cap(1) h2(1-5)] by (simp add: a2_def a1_def)
  moreover have "endAt Established (y + 1) (y + 1) (x + 1) b2" using e2(1) by (simp add: ackNext_def)
  moreover have "behind a2 b2"
  proof -
    have t: "tsAt a2 = tsAt a" by (rule tsAt_cong) (simp add: a2(14) a1(10))
    have "tsRecent b2 = tsAt a (ticks a) \<or> tsRecent b2 = tsAt a n" using e2(3) b1(13) by simp
    then show ?thesis using n unfolding behind_def t by (meson le_trans less_imp_le)
  qed
  moreover have "behind b2 a2"
  proof -
    have t: "tsAt b2 = tsAt b" by (rule tsAt_cong) (simp add: e2(2) b1(16))
    have "q \<le> ticks b2" using q e2(4) by simp
    then show ?thesis unfolding behind_def t a2(13) by blast
  qed
  moreover have "clk a2 = clk a" "clk b2 = clk b" using a2(14) a1(10) e2(2) b1(16) by simp_all
  moreover have "SeqNum ?h1 = x \<and> SeqNum ?h2 = y \<and> AckNum ?h2 = x + 1 \<and>
       Has (HdrFlags ?h1) FlagSYN \<and> \<not> Has (HdrFlags ?h1) FlagACK \<and> \<not> Has (HdrFlags ?h1) FlagRST \<and>
       Has (HdrFlags ?h2) FlagSYN \<and> Has (HdrFlags ?h2) FlagACK \<and> \<not> Has (HdrFlags ?h2) FlagRST \<and>
       a2 = onSegment (ActiveOpen a x) ?h2 [] \<and> rcv_nxt (onSegment (openPassive b y) ?h1 []) = x + 1 \<and>
       state (onSegment (openPassive b y) ?h1 []) = SynReceived \<and>
       b2 = onSegment (onSegment (openPassive b y) ?h1 []) ?h3 []"
    using b1(1,5) h1(1-3) h2(1-4,6) unfolding a2_def a1_def b2_def b1_def by simp
  ultimately show ?thesis unfolding a1_def by blast
qed

lemma handshake_ready:
  assumes conf: "configured a" "configured b"
    and cap: "unat (rcvBuffCap a) \<le> 1073741824" "unat (rcvBuffCap b) \<le> 1073741824" "0 < rcvBuffCap b"
    and ts: "tsForward a"
  shows "\<exists>c d. handshake (ActiveOpen a x) (openPassive b y) = Some (c, d) \<and> ready (y + 1) c \<and> ready (x + 1) d \<and>
    (0 < rcvBuffCap a \<longrightarrow> endAt Established (x + 1) (x + 1) (y + 1) c) \<and>
    endAt Established (y + 1) (y + 1) (x + 1) d \<and> behind c d \<and> behind d c \<and> clk c = clk a \<and> clk d = clk b"
  using handshake_steps [OF assms, of x y] by (elim exE conjE) (intro exI conjI; assumption)

section \<open>Properties\<close>

text \<open>
  C5: the three-way handshake completes. Dial one fresh connection, open another passively,
  and let each read, through the receive path, the packet the other has written last: SYN,
  SYN-ACK, ACK. Then both are ESTABLISHED, each expects exactly the byte after the other's
  SYN, and both can receive (\<open>ready\<close>, where the runs of the stream property
  start). It holds for every pair of initial sequence numbers, on a clock that does not fall
  behind by half the timestamp space (PAWS would drop the last ACK otherwise) and with
  receive windows below half the sequence space.
\<close>

theorem handshake_establishes:
  assumes "configured a" "configured b" "tsForward a"
    and "unat (rcvBuffCap a) \<le> 1073741824" "unat (rcvBuffCap b) \<le> 1073741824" "0 < rcvBuffCap b"
  shows "case handshake (ActiveOpen a x) (openPassive b y) of
     None \<Rightarrow> False
   | Some (c, d) \<Rightarrow> ready (y + 1) c \<and> ready (x + 1) d"
proof -
  obtain c d where "handshake (ActiveOpen a x) (openPassive b y) = Some (c, d)" "ready (y + 1) c" "ready (x + 1) d"
    using handshake_ready [OF assms(1,2,4-6,3), of x y] by blast
  then show ?thesis by simp
qed

theorem handshake_establishes_witness:
  "case handshake (ActiveOpen demoConn 4294967295) (openPassive demoConn 500) of
     None \<Rightarrow> False
   | Some (c, d) \<Rightarrow> ready 501 c \<and> ready 0 d"
proof -
  have conf: "configured demoConn" unfolding demoConn_def by (rule configured.new)
  have ts: "tsForward demoConn"
    by (simp add: tsForward_def tsAt_def demoConn_def NewConn_def pawsStale_def SeqLT_def)
  have cap: "rcvBuffCap demoConn = 65535"
    by (simp add: demoConn_def NewConn_def rcvBuffCap_def defaultRcvWindow_def maxWindow_def)
  have e: "(501 :: u32) = 500 + 1" "(0 :: u32) = 4294967295 + 1" by simp_all
  show ?thesis unfolding e by (rule handshake_establishes [OF conf conf ts]) (simp_all add: cap)
qed

end
