(* ===== verification/Tcp_Crossing.thy ===== *)
theory Tcp_Crossing
  imports Tcp_Handshake
begin

unbundle bit_operations_syntax

section \<open>Simultaneous open\<close>

text \<open>
  Two dialled connections whose SYNs cross. Each end answers the SYN by SYN-ACK, answers the
  SYN-ACK (which lies before its RCV.NXT) by an ACK, and is established by the ACK of the other.
  In contrast to the two usual ways to ESTABLISHED, the code does not initialise the send
  window here: SND.WND, SND.WL1 and SND.WL2 are still zero when the last ACK is processed, and
  whether it updates the window depends on how its sequence number compares with 0.
\<close>

lemma configured_send_window: "configured c \<Longrightarrow> snd_wnd c = 0 \<and> snd_wl1 c = 0 \<and> snd_wl2 c = 0"
  by (induction rule: configured.induct, simp add: NewConn_def)
    (erule isSetter.elims; simp add: SetNoDelay_def SetRcvBuffer_def SetKeepAlive_def SetMSL_def
      SetCwnd_def Let_def)

text \<open>What the dialled connection looks like in SYN-SENT, as far as this section needs it.\<close>

definition dialled :: "u32 \<Rightarrow> Conn \<Rightarrow> bool" where
  "dialled i c \<longleftrightarrow> snd_iss c = i \<and> snd_una c = i \<and> snd_nxt c = i + 1 \<and> rcvBuf c = [] \<and>
     oooSegs c = [] \<and> \<not> peerFin c \<and> maxSndWnd c = 65535 \<and> snd_wnd c = 0 \<and> snd_wl1 c = 0 \<and> snd_wl2 c = 0"

lemma dialled_cong:
  assumes "dialled i c" "snd_iss d = snd_iss c" "snd_una d = snd_una c" "snd_nxt d = snd_nxt c"
    "rcvBuf d = rcvBuf c" "oooSegs d = oooSegs c" "peerFin d = peerFin c" "maxSndWnd d = maxSndWnd c"
    "snd_wnd d = snd_wnd c" "snd_wl1 d = snd_wl1 c" "snd_wl2 d = snd_wl2 c"
  shows "dialled i d"
  using assms by (simp add: dialled_def)

lemma active_dialled:
  assumes "configured c"
  shows "dialled i (ActiveOpen c i)"
  using configured_blank [OF assms] configured_window [OF assms] configured_send_window [OF assms]
  by (simp add: dialled_def ActiveOpen_def Let_def)

subsection \<open>The crossing SYN\<close>

lemma crossing_syn:
  assumes a: "dialled i a" "state a = SynSent"
    and h: "Has (HdrFlags h) FlagSYN" "\<not> Has (HdrFlags h) FlagACK" "\<not> Has (HdrFlags h) FlagRST"
      "Options h = MarshalOptions (synOptions v e)"
    and d_def: "d = onSegment a h []"
  shows "dialled i d" "state d = SynReceived" "rcv_nxt d = SeqNum h + 1" "rcv_wnd d = rcv_wnd a"
    "rcvBuffTotal d = rcvBuffTotal a" "tsOK d" "tsRecent d = v" "clk d = clk a" "ticks a < ticks d"
    "\<exists>k n f. last (outp d) = packetOf k (FlagSYN OR FlagACK) i (SeqNum h + 1) []
       (MarshalOptions (synOptions (tsAt a n) f)) \<and> ticks a \<le> n \<and> n < ticks d"
proof -
  define l where "l = tick (a\<lparr>lastRecvTime := now a, keepaliveProbes := 0\<rparr>)"
  define m where "m = (negotiateOptions (l\<lparr>rcv_irs := SeqNum h, rcv_nxt := SeqNum h + 1\<rparr>)
    (wireOptions (synOptions v e)))\<lparr>origin := OriginActive, state := SynReceived\<rparr>"
  have l: "dialled i l" "state l = SynSent" "rcv_wnd l = rcv_wnd a" "rcvBuffTotal l = rcvBuffTotal a"
    "clk l = clk a" "ticks l = Suc (ticks a)"
    using a by (simp_all add: l_def dialled_def)
  have m: "dialled i m" "state m = SynReceived" "rcv_nxt m = SeqNum h + 1" "rcv_wnd m = rcv_wnd a"
    "rcvBuffTotal m = rcvBuffTotal a" "tsOK m" "tsRecent m = v" "clk m = clk a" "ticks m = Suc (ticks a)"
    using l by (simp_all add: m_def negotiate_ts)
      (simp_all add: negotiateOptions_def dialled_def Let_def)
  have i: "snd_iss m = i" using m(1) by (simp add: dialled_def)
  have d: "d = sendSyn m (FlagSYN OR FlagACK) i (SeqNum h + 1)"
    using l(2) h i m(3) unfolding d_def onSegment_def Let_def l_def [symmetric] onSegmentSynSent_def
    by (simp add: negotiate_syn [OF h(4)] m_def [symmetric])
  show "state d = SynReceived" "rcv_nxt d = SeqNum h + 1" "rcv_wnd d = rcv_wnd a"
    "rcvBuffTotal d = rcvBuffTotal a" "tsOK d" "tsRecent d = v" "clk d = clk a"
    unfolding d using m by simp_all
  show "dialled i d" unfolding d by (rule dialled_cong [OF m(1)]) simp_all
  obtain k f where o': "outp d = outp m @ [packetOf k (FlagSYN OR FlagACK) i (SeqNum h + 1) []
      (MarshalOptions (synOptions (tsAt m (ticks m)) f))]" "ticks m < ticks d"
    using sendSyn_out [of "FlagSYN OR FlagACK" m i "SeqNum h + 1"] unfolding d by (auto simp: Has_or)
  then show "ticks a < ticks d" using m(9) by simp
  have "tsAt m n = tsAt a n" for n by (simp add: tsAt_def m(8))
  then have "last (outp d) = packetOf k (FlagSYN OR FlagACK) i (SeqNum h + 1) []
      (MarshalOptions (synOptions (tsAt a (ticks m)) f)) \<and> ticks a \<le> ticks m \<and> ticks m < ticks d"
    using o' m(9) by simp
  then show "\<exists>k n f. last (outp d) = packetOf k (FlagSYN OR FlagACK) i (SeqNum h + 1) []
       (MarshalOptions (synOptions (tsAt a n) f)) \<and> ticks a \<le> n \<and> n < ticks d" by blast
qed

subsection \<open>The crossing SYN-ACK\<close>

text \<open>It lies before RCV.NXT, so all it gets is an ACK.\<close>

lemma before_window:
  assumes "sq + 1 = rcv_nxt c" "unat (rcv_wnd c) \<le> 1073741824"
  shows "\<not> inWindow c sq"
proof -
  have n: "rcv_nxt c = sq + 1" using assms(1) by simp
  have "\<not> SeqLEQ (sq + 1) sq" by (simp add: SeqLEQ_def SeqLT_def halfSeqSpace_def)
  moreover have "sq \<noteq> sq + 1" by simp
  ultimately show ?thesis unfolding inWindow_def n by presburger
qed

lemma crossing_synack:
  assumes b: "state b = SynReceived" "tsOK b" "oooSegs b = []" "0 < rcv_wnd b" "unat (rcv_wnd b) \<le> 1073741824"
    and h: "Has (HdrFlags h) FlagSYN" "\<not> Has (HdrFlags h) FlagRST" "\<not> Has (HdrFlags h) FlagFIN"
      "SeqNum h + 1 = rcv_nxt b"
    and d_def: "d = onSegment b h []"
  shows "state d = SynReceived" "\<And>i. dialled i b \<Longrightarrow> dialled i d" "rcv_nxt d = rcv_nxt b" "rcv_wnd d = rcv_wnd b"
    "rcvBuffTotal d = rcvBuffTotal b" "tsOK d" "tsRecent d = tsRecent b" "clk d = clk b"
    "\<exists>k n x. last (outp d) = packetOf k FlagACK (snd_nxt b) (rcv_nxt b) []
       (MarshalOptions (tsOptions (tsAt b n) x)) \<and> ticks b \<le> n"
proof -
  define l where "l = tick (b\<lparr>lastRecvTime := now b, keepaliveProbes := 0\<rparr>)"
  have l: "state l = SynReceived" "tsOK l" "oooSegs l = []" "0 < rcv_wnd l" "unat (rcv_wnd l) \<le> 1073741824"
    "rcv_nxt l = rcv_nxt b" "rcv_wnd l = rcv_wnd b" "rcvBuffTotal l = rcvBuffTotal b" "tsRecent l = tsRecent b"
    "clk l = clk b" "ticks l = Suc (ticks b)" "snd_nxt l = snd_nxt b"
    using b by (simp_all add: l_def)
  have "segLen h [] = 1" using h by (simp add: segLen_def Let_def)
  moreover have "rcv_nxt b - 1 = SeqNum h" using h(4) by (metis add_diff_cancel_right')
  ultimately have acc: "\<not> acceptable l h []"
    using l h before_window [of "SeqNum h" l] by (simp add: acceptable_def Let_def)
  have d: "d = sendAck l"
    using l h acc unfolding d_def onSegment_def Let_def l_def [symmetric]
    by (simp add: onSegmentSynchronized_def Let_def)
  show "state d = SynReceived" "rcv_nxt d = rcv_nxt b" "rcv_wnd d = rcv_wnd b"
    "rcvBuffTotal d = rcvBuffTotal b" "tsOK d" "tsRecent d = tsRecent b" "clk d = clk b"
    unfolding d using l by simp_all
  show "dialled i d" if "dialled i b" for i
    unfolding d using that by (simp add: l_def dialled_def)
  obtain k where "outp d = outp l @ [packetOf k FlagACK (snd_nxt l) (rcv_nxt l) []
    (MarshalOptions (tsOptions (tsAt l (ticks l)) (tsRecent l)))]"
    using sendAck_out [of l] l unfolding d by auto
  then have "last (outp d) = packetOf k FlagACK (snd_nxt b) (rcv_nxt b) []
    (MarshalOptions (tsOptions (tsAt b (ticks l)) (tsRecent l))) \<and> ticks b \<le> ticks l"
    using l by (simp add: tsAt_def)
  then show "\<exists>k n x. last (outp d) = packetOf k FlagACK (snd_nxt b) (rcv_nxt b) []
       (MarshalOptions (tsOptions (tsAt b n) x)) \<and> ticks b \<le> n" by blast
qed

subsection \<open>The last ACK\<close>

text \<open>The test of \<open>updateSendWindow\<close> that an ACK has to pass.\<close>

definition windowUpdates :: "Conn \<Rightarrow> TCPHeader \<Rightarrow> bool" where
  "windowUpdates c h \<longleftrightarrow> SeqLT (snd_wl1 c) (SeqNum h) \<or>
     (snd_wl1 c = SeqNum h \<and> SeqLEQ (snd_wl2 c) (AckNum h))"

lemma handleAck_keeps_window:
  assumes "state c = SynReceived" "ackAccepted c h" "\<not> windowUpdates c h"
  shows "snd_wnd (snd (handleAck c h [])) = snd_wnd c"
proof -
  have a: "AcceptableAck (snd_una c) (AckNum h) (snd_nxt c)" using assms(1,2) by (simp add: ackAccepted_def)
  have n: "snd_wl1 (newAck c h) = snd_wl1 c" "snd_wl2 (newAck c h) = snd_wl2 c" "snd_wnd (newAck c h) = snd_wnd c"
    "state (newAck c h) = state c"
    by (simp_all add: newAck_def releaseAckedSend_def Let_def)
  have core: "ackCore c h [] = updateSendWindow (newAck c h) h" using a by (simp add: ackCore_def)
  have "snd_wnd (ackCore c h []) = snd_wnd c"
    using assms(3) n unfolding core by (auto simp: updateSendWindow_def windowUpdates_def Let_def)
  moreover have "state (ackCore c h []) = SynReceived" using assms(1) by simp
  ultimately show ?thesis
    using assms(2) by (simp add: handleAck_snd advanceStateOnAck_def)
qed

subsection \<open>The exchange\<close>

text \<open>
  Each end reads the last packet the other has written, three times, in lockstep: the SYNs, the
  SYN-ACKs and the ACKs cross.
\<close>

definition crossing :: "Conn \<times> Conn \<Rightarrow> (Conn \<times> Conn) option" where
  "crossing p =
     do { a \<leftarrow> dispatch (fst p) (last (outp (snd p)));
          b \<leftarrow> dispatch (snd p) (last (outp (fst p)));
          Some (a, b) }"

definition simultaneousOpen :: "Conn \<Rightarrow> Conn \<Rightarrow> (Conn \<times> Conn) option" where
  "simultaneousOpen a b = do { p \<leftarrow> crossing (a, b); p \<leftarrow> crossing p; crossing p }"

text \<open>
  One end, with the three headers it sees; \<open>w\<close>, \<open>w'\<close> are the timestamps of the other end.
\<close>

lemma crossing_end:
  assumes conf: "configured a" and cap: "unat (rcvBuffCap a) \<le> 1073741824" "0 < rcvBuffCap a"
    and a1: "a1 = onSegment (ActiveOpen a x) h1 []" and a2: "a2 = onSegment a1 h2 []"
    and a3: "a3 = onSegment a2 h3 []"
    and h1: "Has (HdrFlags h1) FlagSYN" "\<not> Has (HdrFlags h1) FlagACK" "\<not> Has (HdrFlags h1) FlagRST"
      "Options h1 = MarshalOptions (synOptions v e)" "SeqNum h1 = y"
    and h2: "Has (HdrFlags h2) FlagSYN" "\<not> Has (HdrFlags h2) FlagRST" "\<not> Has (HdrFlags h2) FlagFIN" "SeqNum h2 = y"
    and h3: "\<not> Has (HdrFlags h3) FlagSYN" "Has (HdrFlags h3) FlagACK" "\<not> Has (HdrFlags h3) FlagRST"
      "\<not> Has (HdrFlags h3) FlagFIN" "SeqNum h3 = y + 1" "AckNum h3 = x + 1"
      "Options h3 = MarshalOptions (tsOptions v' e')" "\<not> pawsStale v' v"
  shows "ready (y + 1) a3" "\<not> SeqLT 0 (y + 1) \<Longrightarrow> y + 1 \<noteq> 0 \<Longrightarrow> snd_wnd a3 = 0"
proof -
  let ?a = "ActiveOpen a x"
  note act = active_syn [OF conf HOL.refl, of x]
  note c1 = crossing_syn [OF active_dialled [OF conf] act(1) h1(1-4) a1, unfolded h1(5)]
  have w: "0 < rcv_wnd a1" "unat (rcv_wnd a1) \<le> 1073741824" using c1(4) act(9) cap by simp_all
  have o1: "oooSegs a1 = []" using c1(1) by (simp add: dialled_def)
  have s2: "SeqNum h2 + 1 = rcv_nxt a1" using c1(3) h2(4) by simp
  note c2 = crossing_synack [OF c1(2,6) o1 w h2(1-3) s2 a2]
  have d2: "dialled x a2" by (rule c2(2) [OF c1(1)])
  then have f2: "snd_una a2 = x" "snd_nxt a2 = x + 1" "maxSndWnd a2 = 65535" "rcvBuf a2 = []" "oooSegs a2 = []"
    "\<not> peerFin a2" "snd_wnd a2 = 0" "snd_wl1 a2 = 0" by (simp_all add: dialled_def)
  have w2: "0 < rcv_wnd a2" "unat (rcv_wnd a2) \<le> 1073741824" using c2(4) w by simp_all
  have ts: "\<not> pawsStale v' (tsRecent a2)" using h3(8) c2(7) c1(7) by simp
  have s3: "SeqNum h3 = rcv_nxt a2" using h3(5) c2(3) c1(3) by simp
  obtain n where n: "a3 = snd (handleAck n h3 [])" "ackAccepted n h3"
    "state n = SynReceived" "rcvBuf n = rcvBuf a2" "oooSegs n = oooSegs a2" "peerFin n = peerFin a2"
    "rcv_nxt n = rcv_nxt a2" "rcv_wnd n = rcv_wnd a2" "rcvBuffTotal n = rcvBuffTotal a2"
    "snd_wnd n = snd_wnd a2" "snd_wl1 n = snd_wl1 a2"
    unfolding a3
    by (rule synrcvd_ack_core [OF c2(1) f2(1,2) w2 f2(3) c2(6) ts h3(1-4) s3 h3(6,7)])
  have "rcvBuffCap a3 = rcvBuffCap a"
    using rcvBuffCap_cong [of a3 ?a] n(1,9) c2(5) c1(5) act(8) by simp
  moreover have "state a3 = Established" using n(1-3) by (simp add: handleAck_state ackNext_def)
  ultimately show "ready (y + 1) a3"
    using n f2 c2(3,4) c1(3,4) act(9) cap by (simp add: ready_def)
  assume "\<not> SeqLT 0 (y + 1)" "y + 1 \<noteq> 0"
  then have "\<not> windowUpdates n h3" using n(11) f2(8) h3(5) by (simp add: windowUpdates_def)
  then show "snd_wnd a3 = 0"
    unfolding n(1) using handleAck_keeps_window [OF n(3,2)] n(10) f2(7) by simp
qed

text \<open>What an end writes: a SYN, then the answer to a SYN, then the answer to a SYN-ACK.\<close>

lemma crossing_writes:
  assumes conf: "configured a" and cap: "unat (rcvBuffCap a) \<le> 1073741824" "0 < rcvBuffCap a"
    and a1: "a1 = onSegment (ActiveOpen a x) h1 []" and a2: "a2 = onSegment a1 h2 []"
    and h1: "Has (HdrFlags h1) FlagSYN" "\<not> Has (HdrFlags h1) FlagACK" "\<not> Has (HdrFlags h1) FlagRST"
      "Options h1 = MarshalOptions (synOptions v e)" "SeqNum h1 = y"
  shows "\<exists>k n f. last (outp a1) = packetOf k (FlagSYN OR FlagACK) x (y + 1) []
       (MarshalOptions (synOptions (tsAt a n) f)) \<and> ticks a \<le> n"
    and "Has (HdrFlags h2) FlagSYN \<Longrightarrow> \<not> Has (HdrFlags h2) FlagRST \<Longrightarrow> \<not> Has (HdrFlags h2) FlagFIN \<Longrightarrow>
      SeqNum h2 = y \<Longrightarrow> \<exists>k n f. last (outp a2) = packetOf k FlagACK (x + 1) (y + 1) []
       (MarshalOptions (tsOptions (tsAt a n) f)) \<and> ticks a \<le> n"
proof -
  let ?a = "ActiveOpen a x"
  note act = active_syn [OF conf HOL.refl, of x]
  note c1 = crossing_syn [OF active_dialled [OF conf] act(1) h1(1-4) a1, unfolded h1(5)]
  have ts: "tsAt ?a = tsAt a" "tsAt a1 = tsAt a" using act(10) c1(8) by (simp_all add: tsAt_def fun_eq_iff)
  have tk: "ticks a < ticks a1" using act(11) c1(9) by simp
  show "\<exists>k n f. last (outp a1) = packetOf k (FlagSYN OR FlagACK) x (y + 1) []
       (MarshalOptions (synOptions (tsAt a n) f)) \<and> ticks a \<le> n"
    using c1(10) act(11) unfolding ts by (meson le_trans less_imp_le)
  assume h2: "Has (HdrFlags h2) FlagSYN" "\<not> Has (HdrFlags h2) FlagRST" "\<not> Has (HdrFlags h2) FlagFIN" "SeqNum h2 = y"
  have w: "0 < rcv_wnd a1" "unat (rcv_wnd a1) \<le> 1073741824" using c1(4) act(9) cap by simp_all
  have o1: "oooSegs a1 = []" "snd_nxt a1 = x + 1" using c1(1) by (simp_all add: dialled_def)
  have s2: "SeqNum h2 + 1 = rcv_nxt a1" using c1(3) h2(4) by simp
  show "\<exists>k n f. last (outp a2) = packetOf k FlagACK (x + 1) (y + 1) []
       (MarshalOptions (tsOptions (tsAt a n) f)) \<and> ticks a \<le> n"
    using crossing_synack(9) [OF c1(2,6) o1(1) w h2(1-3) s2 a2] tk
    unfolding ts o1(2) c1(3) by (meson le_trans less_imp_le)
qed

lemma crossing_ready:
  assumes conf: "configured a" "configured b"
    and cap: "unat (rcvBuffCap a) \<le> 1073741824" "0 < rcvBuffCap a"
      "unat (rcvBuffCap b) \<le> 1073741824" "0 < rcvBuffCap b"
    and ts: "tsForward a" "tsForward b"
  shows "\<exists>c d. simultaneousOpen (ActiveOpen a x) (ActiveOpen b y) = Some (c, d) \<and>
     ready (y + 1) c \<and> ready (x + 1) d \<and>
     (\<not> SeqLT 0 (y + 1) \<longrightarrow> y + 1 \<noteq> 0 \<longrightarrow> snd_wnd c = 0) \<and> (\<not> SeqLT 0 (x + 1) \<longrightarrow> x + 1 \<noteq> 0 \<longrightarrow> snd_wnd d = 0)"
proof -
  let ?a = "ActiveOpen a x" and ?b = "ActiveOpen b y"
  obtain k e where A1: "last (outp ?a) = packetOf k FlagSYN x 0 [] (MarshalOptions (synOptions (tsAt a (ticks a)) e))"
    using active_syn(12) [OF conf(1) HOL.refl] by blast
  obtain k' e' where B1: "last (outp ?b) = packetOf k' FlagSYN y 0 [] (MarshalOptions (synOptions (tsAt b (ticks b)) e'))"
    using active_syn(12) [OF conf(2) HOL.refl] by blast
  let ?h1 = "seenHeader k FlagSYN x 0 [] (MarshalOptions (synOptions (tsAt a (ticks a)) e))"
  let ?g1 = "seenHeader k' FlagSYN y 0 [] (MarshalOptions (synOptions (tsAt b (ticks b)) e'))"
  define a1 where "a1 = onSegment ?a ?g1 []"
  define b1 where "b1 = onSegment ?b ?h1 []"
  have g1: "Has (HdrFlags ?g1) FlagSYN" "\<not> Has (HdrFlags ?g1) FlagACK" "\<not> Has (HdrFlags ?g1) FlagRST"
    "Options ?g1 = MarshalOptions (synOptions (tsAt b (ticks b)) e')" "SeqNum ?g1 = y" by simp_all
  have h1: "Has (HdrFlags ?h1) FlagSYN" "\<not> Has (HdrFlags ?h1) FlagACK" "\<not> Has (HdrFlags ?h1) FlagRST"
    "Options ?h1 = MarshalOptions (synOptions (tsAt a (ticks a)) e)" "SeqNum ?h1 = x" by simp_all
  obtain l m f where A2: "last (outp a1) = packetOf l (FlagSYN OR FlagACK) x (y + 1) []
      (MarshalOptions (synOptions (tsAt a m) f))"
    using crossing_writes(1) [OF conf(1) cap(1,2) a1_def HOL.refl g1] by blast
  obtain l' m' f' where B2: "last (outp b1) = packetOf l' (FlagSYN OR FlagACK) y (x + 1) []
      (MarshalOptions (synOptions (tsAt b m') f'))"
    using crossing_writes(1) [OF conf(2) cap(3,4) b1_def HOL.refl h1] by blast
  let ?h2 = "seenHeader l (FlagSYN OR FlagACK) x (y + 1) [] (MarshalOptions (synOptions (tsAt a m) f))"
  let ?g2 = "seenHeader l' (FlagSYN OR FlagACK) y (x + 1) [] (MarshalOptions (synOptions (tsAt b m') f'))"
  define a2 where "a2 = onSegment a1 ?g2 []"
  define b2 where "b2 = onSegment b1 ?h2 []"
  have g2: "Has (HdrFlags ?g2) FlagSYN" "\<not> Has (HdrFlags ?g2) FlagRST" "\<not> Has (HdrFlags ?g2) FlagFIN"
    "SeqNum ?g2 = y" by (simp_all add: Has_or)
  have h2: "Has (HdrFlags ?h2) FlagSYN" "\<not> Has (HdrFlags ?h2) FlagRST" "\<not> Has (HdrFlags ?h2) FlagFIN"
    "SeqNum ?h2 = x" by (simp_all add: Has_or)
  obtain j n g where A3: "last (outp a2) = packetOf j FlagACK (x + 1) (y + 1) []
      (MarshalOptions (tsOptions (tsAt a n) g))" and n: "ticks a \<le> n"
    using crossing_writes(2) [OF conf(1) cap(1,2) a1_def a2_def g1 g2] by blast
  obtain j' n' g' where B3: "last (outp b2) = packetOf j' FlagACK (y + 1) (x + 1) []
      (MarshalOptions (tsOptions (tsAt b n') g'))" and n': "ticks b \<le> n'"
    using crossing_writes(2) [OF conf(2) cap(3,4) b1_def b2_def h1 h2] by blast
  let ?h3 = "seenHeader j FlagACK (x + 1) (y + 1) [] (MarshalOptions (tsOptions (tsAt a n) g))"
  let ?g3 = "seenHeader j' FlagACK (y + 1) (x + 1) [] (MarshalOptions (tsOptions (tsAt b n') g'))"
  have g3: "\<not> Has (HdrFlags ?g3) FlagSYN" "Has (HdrFlags ?g3) FlagACK" "\<not> Has (HdrFlags ?g3) FlagRST"
    "\<not> Has (HdrFlags ?g3) FlagFIN" "SeqNum ?g3 = y + 1" "AckNum ?g3 = x + 1"
    "Options ?g3 = MarshalOptions (tsOptions (tsAt b n') g')" "\<not> pawsStale (tsAt b n') (tsAt b (ticks b))"
    using ts(2) n' by (simp_all add: tsForward_def)
  have h3: "\<not> Has (HdrFlags ?h3) FlagSYN" "Has (HdrFlags ?h3) FlagACK" "\<not> Has (HdrFlags ?h3) FlagRST"
    "\<not> Has (HdrFlags ?h3) FlagFIN" "SeqNum ?h3 = x + 1" "AckNum ?h3 = y + 1"
    "Options ?h3 = MarshalOptions (tsOptions (tsAt a n) g)" "\<not> pawsStale (tsAt a n) (tsAt a (ticks a))"
    using ts(1) n by (simp_all add: tsForward_def)
  define a3 where "a3 = onSegment a2 ?g3 []"
  define b3 where "b3 = onSegment b2 ?h3 []"
  note a3 = crossing_end [OF conf(1) cap(1,2) a1_def a2_def a3_def g1 g2 g3]
  note b3 = crossing_end [OF conf(2) cap(3,4) b1_def b2_def b3_def h1 h2 h3]
  have "crossing (?a, ?b) = Some (a1, b1)" "crossing (a1, b1) = Some (a2, b2)" "crossing (a2, b2) = Some (a3, b3)"
    unfolding crossing_def fst_conv snd_conv A1 A2 A3 B1 B2 B3
    by (simp_all add: dispatch_packetOf goodOpts_syn goodOpts_ts a1_def b1_def a2_def b2_def a3_def b3_def)
  then have "simultaneousOpen ?a ?b = Some (a3, b3)" by (simp add: simultaneousOpen_def)
  with a3 b3 show ?thesis by blast
qed

section \<open>Properties\<close>

text \<open>
  C13: a simultaneous open. Two fresh connections dial each other and their SYNs, SYN-ACKs
  and ACKs cross, each read through the receive path. Both reach ESTABLISHED and expect
  exactly the byte after the other's SYN. But unlike the two usual ways to ESTABLISHED this
  one never calls \<open>initSendWindow\<close>: the last ACK has to pass the update test
  against SND.WL1 = 0, so when the peer's first sequence number lies in the upper half of
  the sequence space, SND.WND is still 0 in ESTABLISHED although the peer has announced a
  window.
\<close>

theorem simultaneous_open_leaves_window_zero:
  assumes "configured a" "configured b" "tsForward a" "tsForward b"
    and "unat (rcvBuffCap a) \<le> 1073741824" "0 < rcvBuffCap a" "unat (rcvBuffCap b) \<le> 1073741824" "0 < rcvBuffCap b"
  shows "case simultaneousOpen (ActiveOpen a x) (ActiveOpen b y) of
     None \<Rightarrow> False
   | Some (c, d) \<Rightarrow> ready (y + 1) c \<and> ready (x + 1) d \<and>
       (SeqLT 0 (y + 1) \<or> y + 1 = 0 \<or> snd_wnd c = 0) \<and> (SeqLT 0 (x + 1) \<or> x + 1 = 0 \<or> snd_wnd d = 0)"
  using crossing_ready [OF assms(1,2,5-8,3,4), of x y] by auto

theorem simultaneous_open_leaves_window_zero_witness:
  "case simultaneousOpen (ActiveOpen demoConn 100) (ActiveOpen demoConn 3000000000) of
     None \<Rightarrow> False
   | Some (c, d) \<Rightarrow> ready 3000000001 c \<and> ready 101 d \<and> snd_wnd c = 0"
proof -
  have conf: "configured demoConn" unfolding demoConn_def by (rule configured.new)
  have ts: "tsForward demoConn"
    by (simp add: tsForward_def tsAt_def demoConn_def NewConn_def pawsStale_def SeqLT_def)
  have cap: "rcvBuffCap demoConn = 65535"
    by (simp add: demoConn_def NewConn_def rcvBuffCap_def defaultRcvWindow_def maxWindow_def)
  have half: "\<not> SeqLT 0 (3000000001 :: u32)" by (simp add: SeqLT_def halfSeqSpace_def)
  have "case simultaneousOpen (ActiveOpen demoConn 100) (ActiveOpen demoConn 3000000000) of
     None \<Rightarrow> False
   | Some (c, d) \<Rightarrow> ready (3000000000 + 1) c \<and> ready (100 + 1) d \<and>
       (SeqLT 0 (3000000000 + 1) \<or> 3000000000 + 1 = (0 :: u32) \<or> snd_wnd c = 0) \<and>
       (SeqLT 0 (100 + 1) \<or> 100 + 1 = (0 :: u32) \<or> snd_wnd d = 0)"
    by (rule simultaneous_open_leaves_window_zero [OF conf conf ts ts]) (simp_all add: cap)
  with half show ?thesis by (auto split: option.splits)
qed

end
