(* ===== verification/Tcp_Teardown.thy ===== *)
theory Tcp_Teardown
  imports Tcp_Handshake
begin

unbundle bit_operations_syntax

section \<open>The four-way close\<close>

text \<open>
  Two established connections with nothing in flight are closed from both sides: FIN, ACK, FIN,
  ACK, each read through the receive path from what the other end has written last. The end
  that closed first is left in TIME-WAIT, the other one is CLOSED.
\<close>

definition teardown :: "Conn \<Rightarrow> Conn \<Rightarrow> (Conn \<times> Conn) option" where
  "teardown a b =
     (let a = Close a in do {
        b \<leftarrow> dispatch b (last (outp a));
        a \<leftarrow> dispatch a (last (outp b));
        let b = Close b;
        a \<leftarrow> dispatch a (last (outp b));
        b \<leftarrow> dispatch b (last (outp a));
        Some (a, b) })"

lemma tsForward_cong: "clk d = clk c \<Longrightarrow> tsForward d = tsForward c"
  by (simp add: tsForward_def tsAt_def)

lemma teardown_closes:
  assumes a: "endAt Established x x y a" "behind a b" "tsForward a"
    and b: "endAt Established y y x b" "behind b a" "tsForward b"
  shows "\<exists>c d. teardown a b = Some (c, d) \<and> state c = TimeWait \<and> state d = Closed"
proof -
  define a1 where "a1 = Close a"
  note a1 = close_sends [OF a(1) disjI1 [OF HOL.refl] a1_def, simplified]
  obtain k f where fin: "last (outp a1) = packetOf k (FlagFIN OR FlagACK) x y [] (MarshalOptions (tsOptions (tsAt a (ticks a)) f))"
    using a1(5) by blast
  let ?h1 = "seenHeader k (FlagFIN OR FlagACK) x y [] (MarshalOptions (tsOptions (tsAt a (ticks a)) f))"
  define b1 where "b1 = onSegment b ?h1 []"
  have h1: "\<not> Has (HdrFlags ?h1) FlagSYN" "Has (HdrFlags ?h1) FlagACK" "\<not> Has (HdrFlags ?h1) FlagRST" "SeqNum ?h1 = x"
    "Options ?h1 = MarshalOptions (tsOptions (tsAt a (ticks a)) f)" "Has (HdrFlags ?h1) FlagFIN" "AckNum ?h1 = y"
    by (simp_all add: Has_or)
  note b1 = fin_received [OF b(1) disjI1 [OF HOL.refl] behind_fresh [OF a(3,2) le_refl] h1 b1_def]
  obtain l m g where ack: "last (outp b1) = packetOf l FlagACK y (x + 1) [] (MarshalOptions (tsOptions (tsAt b m) g))"
    and m: "ticks b \<le> m" "m < ticks b1"
    using b1(5) by blast
  let ?h2 = "seenHeader l FlagACK y (x + 1) [] (MarshalOptions (tsOptions (tsAt b m) g))"
  define a2 where "a2 = onSegment a1 ?h2 []"
  have h2: "\<not> Has (HdrFlags ?h2) FlagSYN" "Has (HdrFlags ?h2) FlagACK" "\<not> Has (HdrFlags ?h2) FlagRST" "SeqNum ?h2 = y"
    "Options ?h2 = MarshalOptions (tsOptions (tsAt b m) g)" "\<not> Has (HdrFlags ?h2) FlagFIN" "AckNum ?h2 = x + 1"
    by simp_all
  have f2: "\<not> pawsStale (tsAt b m) (tsRecent a1)" using behind_fresh [OF b(3,2) m(1)] a1(4) by simp
  note a2 = ack_received [OF a1(1) _ f2 h2 a2_def, unfolded ackNext_def, simplified]
  define b2 where "b2 = Close b1"
  note b2 = close_sends [OF b1(2) disjI2 [OF HOL.refl] b2_def, simplified]
  obtain i u where fin2: "last (outp b2) = packetOf i (FlagFIN OR FlagACK) y (x + 1) []
      (MarshalOptions (tsOptions (tsAt b1 (ticks b1)) u))"
    using b2(5) by blast
  let ?h3 = "seenHeader i (FlagFIN OR FlagACK) y (x + 1) [] (MarshalOptions (tsOptions (tsAt b1 (ticks b1)) u))"
  define a3 where "a3 = onSegment a2 ?h3 []"
  have h3: "\<not> Has (HdrFlags ?h3) FlagSYN" "Has (HdrFlags ?h3) FlagACK" "\<not> Has (HdrFlags ?h3) FlagRST" "SeqNum ?h3 = y"
    "Options ?h3 = MarshalOptions (tsOptions (tsAt b1 (ticks b1)) u)" "Has (HdrFlags ?h3) FlagFIN" "AckNum ?h3 = x + 1"
    by (simp_all add: Has_or)
  have "behind b1 a2"
    by (rule behind_step [OF b(2) b1(3)]) (use m a2(3) a1(4) in auto)
  then have f3: "\<not> pawsStale (tsAt b1 (ticks b1)) (tsRecent a2)"
    using behind_fresh [of b1 a2 "ticks b1"] b(3) tsForward_cong [OF b1(3)] by simp
  note a3 = fin_received [OF a2(1) disjI2 [OF HOL.refl] f3 h3 a3_def]
  obtain j n v where ack2: "last (outp a3) = packetOf j FlagACK (x + 1) (y + 1) [] (MarshalOptions (tsOptions (tsAt a2 n) v))"
    and n: "ticks a2 \<le> n"
    using a3(5) by blast
  let ?h4 = "seenHeader j FlagACK (x + 1) (y + 1) [] (MarshalOptions (tsOptions (tsAt a2 n) v))"
  define b3 where "b3 = onSegment b2 ?h4 []"
  have h4: "\<not> Has (HdrFlags ?h4) FlagSYN" "Has (HdrFlags ?h4) FlagACK" "\<not> Has (HdrFlags ?h4) FlagRST" "SeqNum ?h4 = x + 1"
    "Options ?h4 = MarshalOptions (tsOptions (tsAt a2 n) v)" "\<not> Has (HdrFlags ?h4) FlagFIN" "AckNum ?h4 = y + 1"
    by simp_all
  have "behind a2 b2"
    by (rule behind_step [OF a(2), of a2 b2 "ticks a"]) (use a2(2,4) a1(2,3) b1(4) b2(4) in auto)
  then have f4: "\<not> pawsStale (tsAt a2 n) (tsRecent b2)"
    using behind_fresh [of a2 b2 n] a(3) tsForward_cong [of a2 a] a2(2) a1(2) n by simp
  note b3 = ack_received [OF b2(1) _ f4 h4 b3_def, unfolded ackNext_def, simplified]
  have "teardown a b = Some (a3, b3)"
    unfolding teardown_def Let_def a1_def [symmetric] fin
    by (simp add: dispatch_packetOf goodOpts_ts b1_def [symmetric] ack a2_def [symmetric] b2_def [symmetric] fin2
        a3_def [symmetric] ack2 b3_def [symmetric])
  then show ?thesis using a3(1) b3(1) by (simp add: endAt_def)
qed

text \<open>How the exchange has to end.\<close>

definition closedBy :: "(Conn \<times> Conn) option \<Rightarrow> bool" where
  "closedBy r \<longleftrightarrow> (case r of None \<Rightarrow> False | Some (c, d) \<Rightarrow> state c = TimeWait \<and> state d = Closed)"

section \<open>Properties\<close>

text \<open>
  C6: a whole connection. Dial, listen and run the handshake; then let one end close, the
  other acknowledge, close as well, and the first acknowledge, each packet read through the
  receive path. The end that closed first is in TIME-WAIT (from where
  \<open>time_wait_lasts_2msl\<close> leads to CLOSED) and the other one is CLOSED,
  whichever of the two begins and whatever the initial sequence numbers are.
\<close>

theorem open_close_cycle:
  assumes "configured a" "configured b" "tsForward a" "tsForward b"
    and "unat (rcvBuffCap a) \<le> 1073741824" "0 < rcvBuffCap a" "unat (rcvBuffCap b) \<le> 1073741824" "0 < rcvBuffCap b"
  shows "case handshake (ActiveOpen a x) (openPassive b y) of
     None \<Rightarrow> False
   | Some (c, d) \<Rightarrow> closedBy (teardown c d) \<and> closedBy (teardown d c)"
proof -
  obtain c d where h: "handshake (ActiveOpen a x) (openPassive b y) = Some (c, d)"
    "endAt Established (x + 1) (x + 1) (y + 1) c" "endAt Established (y + 1) (y + 1) (x + 1) d"
    "behind c d" "behind d c" "tsForward c" "tsForward d"
    using handshake_ready [OF assms(1,2,5,7,8,3), of x y] assms(3,4,6) tsForward_cong by metis
  show ?thesis
    using teardown_closes [OF h(2,4,6) h(3,5,7)] teardown_closes [OF h(3,5,7) h(2,4,6)]
    unfolding h(1) by (auto simp: closedBy_def)
qed

theorem open_close_cycle_witness:
  "case handshake (ActiveOpen demoConn 4294967295) (openPassive demoConn 500) of
     None \<Rightarrow> False
   | Some (c, d) \<Rightarrow> closedBy (teardown c d) \<and> closedBy (teardown d c)"
proof -
  have conf: "configured demoConn" unfolding demoConn_def by (rule configured.new)
  have ts: "tsForward demoConn"
    by (simp add: tsForward_def tsAt_def demoConn_def NewConn_def pawsStale_def SeqLT_def)
  have cap: "rcvBuffCap demoConn = 65535"
    by (simp add: demoConn_def NewConn_def rcvBuffCap_def defaultRcvWindow_def maxWindow_def)
  show ?thesis by (rule open_close_cycle [OF conf conf ts ts]) (simp_all add: cap)
qed

end
