(* ===== verification/Tcp_TimeWait.thy ===== *)
theory Tcp_TimeWait
  imports Tcp_Endpoint Tcp_Invariants
begin

section \<open>The quiet time\<close>

text \<open>
  TIME-WAIT over whole runs. The clock readings of a connection are numbered by \<open>ticks\<close>, and no
  event goes back; on a clock that never runs backwards every restart of the timer then only
  moves the deadline on. So nothing but a RST ends the state before two segment lifetimes have
  passed, and the first tick after the deadline does.
\<close>

subsection \<open>Readings of the clock go forward\<close>

lemma later_send [simp]:
  "ticks c \<le> ticks (sendData c f s a p)" "ticks c \<le> ticks (send c f s a)" "ticks c \<le> ticks (sendRst c s)"
  "ticks c \<le> ticks (sendSyn c f s a)" "ticks c \<le> ticks (sendAck c)" "ticks c \<le> ticks (sendChallengeAck c)"
  "ticks c \<le> ticks (writeSeg c f s a p)"
  by (simp_all add: sendRst_def sendSyn_def sendAck_def sendChallengeAck_def allowChallengeAck_def ackOptions_def
      synOptionBytes_def send_def sendData_def writeSeg_def writeSegOpts_def tsNow_def tick_def enqueueRetx_def
      Let_def case_prod_unfold)

lemma drainLoop_ticks: "ticks (drainLoop c) = ticks c"
proof (induction c rule: drainLoop.induct)
  case (1 c)
  show ?case
  proof (cases "coverOoo c")
    case None
    then show ?thesis by (subst drainLoop.simps) simp
  next
    case (Some s)
    have "ticks (drainStep c s) = ticks c" by (simp add: drainStep_def removeFullyConsumedOoo_def Let_def)
    with "1.IH" [OF Some] Some show ?thesis by (subst drainLoop.simps) simp
  qed
qed

lemma later_text: "ticks c \<le> ticks (acceptText c h p)"
proof -
  have "ticks (drainOoo d) = ticks d" for d
    using drainLoop_ticks [of d] by (simp add: drainOoo_def removeFullyConsumedOoo_def del: drainLoop.simps)
  then have t: "ticks (takeText c d) = ticks c" for d
    by (simp add: takeText_def insertOoo_def consumeRcvWindow_def Let_def)
  have "ticks d \<le> ticks (onDelayableSegment d)" for d
    using later_send(5) [of "d\<lparr>delAckCount := delAckCount d + 1, delAckArmed := False\<rparr>"]
      later_send(5) [of "d\<lparr>delAckCount := delAckCount d + 1\<rparr>"]
    by (simp add: onDelayableSegment_def sendDelayedAck_def tick_def Let_def)
  then have "ticks c \<le> ticks (onDelayableSegment (takeText c d))" "ticks c \<le> ticks (sendAck (takeText c d))" for d
    using t later_send(5) by metis+
  then show ?thesis by (simp add: acceptText_def Let_def)
qed

lemma later_timeWait: "ticks c \<le> ticks (restartTimeWait c)" "ticks c \<le> ticks (enterTimeWait c)"
  by (simp_all add: enterTimeWait_def restartTimeWait_def tick_def)

lemma later_fin: "ticks c \<le> ticks (handleFin c h)"
proof -
  let ?f = "c\<lparr>peerFin := True, peerFinSeq := rcv_nxt c, rcv_nxt := rcv_nxt c + 1\<rparr>"
  have "ticks c \<le> ticks (sendAck ?f)" using later_send(5) [of ?f] by simp
  then show ?thesis
    using later_timeWait [of "sendAck ?f"] by (simp add: handleFin_def Let_def split: State.splits)
qed

lemma later_textAndFin: "ticks c \<le> ticks (textAndFin c h p)"
  using later_text [of c h p] later_fin [of c h] later_fin [of "acceptText c h p" h]
  by (auto simp: textAndFin_def Let_def)

lemma newAck_ticks: "ticks c \<le> ticks (newAck c h)"
  using ackRetxQueue_ticks [of "c\<lparr>snd_una := AckNum h\<rparr>" "AckNum h"]
  by (simp add: newAck_def releaseAckedSend_def Let_def)

lemma later_ack: "ticks c \<le> ticks (snd (handleAck c h p))"
proof -
  have f: "ticks d \<le> ticks (fastRetransmit d)" for d
    using later_send(7) [of d]
    by (auto simp: fastRetransmit_def tick_def Let_def split: list.splits intro: le_SucI)
  have "ticks c \<le> ticks (onDuplicateAck c h)"
    using f [of "c\<lparr>cong := onDupAck (cong c) (snd_nxt c - snd_una c)\<rparr>"] by (simp add: onDuplicateAck_def Let_def)
  with newAck_ticks [of c h] have "ticks c \<le> ticks (ackCore c h p)"
    by (simp add: ackCore_def updateSendWindow_def disarmPersist_def Let_def)
  moreover have "ticks d \<le> ticks (advanceStateOnAck d h)" for d
    using later_timeWait [of d] by (simp add: advanceStateOnAck_def split: State.splits)
  ultimately have "ticks c \<le> ticks (advanceStateOnAck (ackCore c h p) h)" by (rule le_trans)
  then have "ticks c \<le> ticks (flushSend (advanceStateOnAck (ackCore c h p) h))"
    by (rule le_trans [OF _ flushSend_ticks])
  then show ?thesis by (simp add: handleAck_snd)
qed

lemma later_sample: "ticks c \<le> ticks (sampleRTTFromTimestamp c y)"
  by (simp add: sampleRTTFromTimestamp_def tsNow_def tick_def Let_def)

lemma later_ackTextFin: "ticks c \<le> ticks (ackTextFin c h p)"
proof (cases rule: ackTextFin_split [of c h p])
  case (acked x d)
  have "ticks c \<le> ticks d" using acked(1) by (auto simp: later_sample [of "c\<lparr>tsRecent := x\<rparr>", simplified])
  also have a: "ticks d \<le> ticks (snd (handleAck d h p))" by (rule later_ack)
  finally have "ticks c \<le> ticks (snd (handleAck d h p))" .
  with later_textAndFin [of "snd (handleAck d h p)" h p] show ?thesis
    unfolding acked(4) by (auto intro: le_trans)
qed simp

lemma later_segment: "ticks c \<le> ticks (onSegment c h p)"
proof -
  define d where "d = tick (c\<lparr>lastRecvTime := now c, keepaliveProbes := 0\<rparr>)"
  have "ticks d \<le> ticks (restartTimeWait (sendAck d))" by (rule le_trans [OF later_send(5) later_timeWait(1)])
  then have "ticks d \<le> ticks (onSegmentSynchronized d h p)"
    using later_ackTextFin [of d h p]
    by (simp add: onSegmentSynchronized_def handleRst_def resetConnection_def Let_def)
  moreover have "ticks d \<le> ticks (onSegmentClosed d h p)"
    using later_send(3) [of d 0] later_send(2) [of "sendRst d 0"]
    by (simp add: onSegmentClosed_def le_trans [OF later_send(3) later_send(2)])
  moreover have n: "ticks (negotiateFrom e h) = ticks e" for e
    by (simp add: negotiateFrom_def negotiateOptions_def Let_def split: option.split sum.split)
  have i: "ticks (initSendWindow e h) = ticks e" for e by (simp add: initSendWindow_def Let_def)
  have "ticks d \<le> ticks (onSegmentListen d h)"
    by (simp add: onSegmentListen_def Let_def le_trans [OF _ later_send(4)] i n)
  moreover have "ticks d \<le> ticks (onSegmentSynSent d h)"
    by (simp add: onSegmentSynSent_def Let_def le_trans [OF _ later_send(4)] le_trans [OF _ later_send(5)]
        le_trans [OF _ ackRetxQueue_ticks] i n)
  moreover have "ticks c \<le> ticks d" by (simp add: d_def tick_def)
  ultimately show ?thesis
    unfolding onSegment_def Let_def d_def [symmetric] by (auto split: State.split)
qed

lemma later_flow: "ticks d \<le> ticks (checkFlowTimers d)"
proof -
  have p: "ticks e \<le> ticks (probePersist e)" for e
    using later_send(1) [of e] by (simp add: probePersist_def tick_def Let_def le_SucI)
  have o': "ticks e \<le> ticks (fireOverride e)" for e
    by (simp add: fireOverride_def disarmOverride_def emitSegment_def Let_def)
  have a: "ticks e \<le> ticks (fireDelayedAck e)" for e by (simp add: fireDelayedAck_def sendDelayedAck_def)
  have t: "ticks e \<le> ticks (tick e)" for e by (simp add: tick_def)
  show ?thesis
    unfolding checkFlowTimers_def Let_def
    by (auto intro: order_trans [OF _ p] order_trans [OF _ o'] order_trans [OF _ a] t)
qed

lemma later_Tick: "ticks c \<le> ticks (Tick c)"
proof -
  have "ticks c \<le> ticks (checkTimeWait c)" by (simp add: checkTimeWait_def tick_def Let_def)
  also have "ticks d \<le> ticks (checkRetransmit d)" for d
    by (simp add: checkRetransmit_def writeSeg_def writeSegOpts_def tsNow_def tick_def Let_def split: list.split)
  also have "ticks d \<le> ticks (checkFlowTimers d)" for d by (rule later_flow)
  also have "ticks d \<le> ticks (checkKeepAlive d)" for d
    by (simp add: checkKeepAlive_def sendKeepAliveProbe_def writeSeg_def writeSegOpts_def tsNow_def tick_def Let_def)
  finally show ?thesis by (simp add: Tick_def)
qed

lemma later_step: "ticks c \<le> ticks (connStep c e)"
proof -
  have f: "ticks (c\<lparr>sndBuf := x\<rparr>) \<le> ticks (flushSend (c\<lparr>sndBuf := x\<rparr>))" for x by (rule flushSend_ticks)
  have r: "ticks (recomputeRcvWindow d) = ticks d" for d by (simp add: recomputeRcvWindow_def)
  show ?thesis
    using later_segment later_Tick f
    by (cases e) (simp_all add: Close_def Send_def Recv_def r le_trans [OF _ later_send(5)] SetNoDelay_def
        SetRcvBuffer_def SetKeepAlive_def SetMSL_def SetCwnd_def tick_def Let_def split: State.split)
qed

subsection \<open>TIME-WAIT in a run\<close>

text \<open>
  The events that may happen in TIME-WAIT here: everything except a RST and the two setters that
  arm or shorten a timer.
\<close>

fun peaceful :: "ConnEvent \<Rightarrow> bool" where
  "peaceful (EvSegment h p) = (\<not> Has (HdrFlags h) FlagRST)"
| "peaceful (EvMSL d) = False"
| "peaceful (EvKeepAlive b d) = False"
| "peaceful e = True"

text \<open>In TIME-WAIT since reading \<open>n\<close> of the clock, with nothing left to send.\<close>

definition resting :: "nat \<Rightarrow> Conn \<Rightarrow> bool" where
  "resting n c \<longleftrightarrow> state c = TimeWait \<and> retxQueue c = [] \<and> sndBuf c = [] \<and> \<not> keepaliveEnabled c \<and>
     n \<le> ticks c \<and> clk c n + timeWaitDuration c \<le> timeWaitDeadline c"

lemma resting_view:
  assumes "resting n c" "state d = TimeWait" "retxQueue d = []" "sndBuf d = []" "keepaliveEnabled d = keepaliveEnabled c"
    and "ticks c \<le> ticks d" "clk d = clk c" "timeWaitDuration d = timeWaitDuration c"
    and "timeWaitDeadline d = timeWaitDeadline c"
  shows "resting n d"
  using assms unfolding resting_def by auto

lemma resting_restart:
  assumes "resting n c" "mono (clk c)"
  shows "resting n (restartTimeWait c)"
proof -
  have "clk c n \<le> clk c (ticks c)" using assms by (simp add: resting_def monoD)
  then show ?thesis using assms(1) by (simp add: resting_def restartTimeWait_def now_def tick_def)
qed

lemma resting_ack: "resting n c \<Longrightarrow> resting n (sendAck c)"
  by (rule resting_view) (simp_all add: resting_def)

lemma resting_flush:
  assumes "resting n c"
  shows "resting n (flushSend c)"
proof -
  have "sndBuf c = [] \<longrightarrow> sndBuf (flushSend c) = [] \<and> retxQueue (flushSend c) = retxQueue c"
    by (rule flushSend_rel [of "\<lambda>c d. sndBuf c = [] \<longrightarrow> sndBuf d = [] \<and> retxQueue d = retxQueue c"]) auto
  then show ?thesis
    using assms flushSend_ticks by (intro resting_view [OF assms]) (simp_all add: resting_def)
qed

lemma resting_update: "resting n c \<Longrightarrow> resting n (updateSendWindow c h)"
  by (rule resting_view) (simp_all add: resting_def updateSendWindow_def disarmPersist_def Let_def)

lemma resting_handleAck:
  assumes r: "resting n c"
  shows "resting n (snd (handleAck c h p))"
proof -
  have "retxQueue (newAck c h) = []"
    using r by (simp add: resting_def newAck_def releaseAckedSend_def ackRetxQueue_def Let_def)
  moreover have "timeWaitDeadline (newAck c h) = timeWaitDeadline c"
    by (simp add: newAck_def releaseAckedSend_def Let_def)
  ultimately have "resting n (newAck c h)"
    using r by (intro resting_view [OF r]) (simp_all add: resting_def newAck_queue newAck_ticks)
  moreover have "\<not> isDupAck c h p" using r by (simp add: resting_def isDupAck_def)
  ultimately have "resting n (if AcceptableAck (snd_una c) (AckNum h) (snd_nxt c) then newAck c h
        else if isDupAck c h p then onDuplicateAck c h else c)" using r by simp
  then have "resting n (ackCore c h p)" unfolding ackCore_def by (rule resting_update)
  moreover have "advanceStateOnAck (ackCore c h p) h = ackCore c h p"
    using r by (simp add: resting_def advanceStateOnAck_def)
  moreover have "resting n (sendChallengeAck c)" by (rule resting_view [OF r]) (use r in \<open>simp_all add: resting_def\<close>)
  moreover have "state c \<noteq> SynReceived" using r by (simp add: resting_def)
  ultimately show ?thesis by (simp add: handleAck_snd resting_flush)
qed

lemma resting_textAndFin:
  assumes r: "resting n c" and m: "mono (clk c)"
  shows "resting n (textAndFin c h p)"
proof -
  let ?t = "if length p > 0 then acceptText c h p else c"
  have t: "resting n ?t"
    using later_text [of c h p] r by (auto intro!: resting_view [OF r, of "acceptText c h p"] simp: resting_def)
  let ?f = "\<lambda>t. t\<lparr>peerFin := True, peerFinSeq := rcv_nxt t, rcv_nxt := rcv_nxt t + 1\<rparr>"
  have "resting n (?f ?t)" by (rule resting_view [OF t]) (use t in \<open>simp_all add: resting_def\<close>)
  then have "resting n (restartTimeWait (sendAck (?f ?t)))"
    by (intro resting_restart resting_ack) (simp_all add: m)
  then have "resting n (handleFin ?t h)" using t by (simp add: handleFin_def resting_def Let_def)
  then show ?thesis using t by (simp add: textAndFin_def Let_def)
qed

lemma resting_segment:
  assumes r: "resting n c" and m: "mono (clk c)" and h: "\<not> Has (HdrFlags h) FlagRST"
  shows "resting n (onSegment c h p)"
proof -
  define d where "d = tick (c\<lparr>lastRecvTime := now c, keepaliveProbes := 0\<rparr>)"
  have d: "resting n d" unfolding d_def by (rule resting_view [OF r]) (use r in \<open>simp_all add: resting_def tick_def\<close>)
  have md: "mono (clk d)" using m by (simp add: d_def)
  have "resting n (ackTextFin d h p)"
  proof (cases rule: ackTextFin_split [of d h p])
    case (ackless x)
    show ?thesis unfolding ackless by (rule resting_view [OF d]) (use d in \<open>simp_all add: resting_def\<close>)
  next
    case (acked x e)
    have x: "resting n (d\<lparr>tsRecent := x\<rparr>)" by (rule resting_view [OF d]) (use d in \<open>simp_all add: resting_def\<close>)
    have "resting n (sampleRTTFromTimestamp (d\<lparr>tsRecent := x\<rparr>) y)" for y
      using later_sample [of "d\<lparr>tsRecent := x\<rparr>" y] by (intro resting_view [OF x]) (use d in \<open>simp_all add: resting_def\<close>)
    then have e: "resting n e" "clk e = clk d" using acked(1) x by auto
    have "resting n (snd (handleAck e h p))" by (rule resting_handleAck [OF e(1)])
    moreover have "mono (clk (snd (handleAck e h p)))" using md e(2) by simp
    ultimately show ?thesis unfolding acked(4) by (simp add: resting_textAndFin)
  qed
  moreover have "resting n (sendChallengeAck d)" by (rule resting_view [OF d]) (use d in \<open>simp_all add: resting_def\<close>)
  moreover have "resting n (sendAck d)" by (rule resting_ack [OF d])
  moreover have "resting n (restartTimeWait (sendAck d))" by (intro resting_restart resting_ack d) (simp add: md)
  ultimately have "resting n (onSegmentSynchronized d h p)" using h by (simp add: onSegmentSynchronized_def Let_def)
  moreover have "onSegment c h p = onSegmentSynchronized d h p"
    using r d unfolding onSegment_def Let_def d_def [symmetric] by (simp add: resting_def)
  ultimately show ?thesis by simp
qed

lemma flow_queue: "sndBuf c = [] \<Longrightarrow> retxQueue (checkFlowTimers c) = retxQueue c"
  by (simp add: checkFlowTimers_def probePersist_def fireOverride_def fireDelayedAck_def sendDelayedAck_def
      disarmOverride_def Let_def)

lemma resting_flow:
  assumes r: "resting n c"
  shows "resting n (checkFlowTimers c)"
  using r later_flow by (intro resting_view [OF r]) (simp_all add: resting_def flow_queue)

text \<open>What becomes of a connection that rests: it still does, or its time is over.\<close>

definition over :: "nat \<Rightarrow> Conn \<Rightarrow> bool" where
  "over n c \<longleftrightarrow> state c = Closed \<and> retxQueue c = [] \<and> sndBuf c = [] \<and> \<not> keepaliveEnabled c \<and>
      clk c n + timeWaitDuration c \<le> clk c (ticks c)"

lemma resting_Tick:
  assumes r: "resting n c" and m: "mono (clk c)"
  shows "if now c < timeWaitDeadline c then resting n (Tick c) else over n (Tick c)"
proof -
  have q: "retxQueue (checkTimeWait c) = []" "\<not> keepaliveEnabled (checkTimeWait c)"
    using r by (simp_all add: resting_def)
  then have t: "Tick c = checkFlowTimers (checkTimeWait c)"
    by (simp add: Tick_def checkRetransmit_def checkKeepAlive_def)
  show ?thesis
  proof (cases "now c < timeWaitDeadline c")
    case True
    then have "checkTimeWait c = tick c" using r by (simp add: checkTimeWait_def resting_def Let_def)
    moreover have "resting n (tick c)" by (rule resting_view [OF r]) (use r in \<open>simp_all add: resting_def tick_def\<close>)
    ultimately show ?thesis using True t by (simp add: resting_flow)
  next
    case False
    have "state (Tick c) = Closed" using Tick_timeWait(1) [of c] r False by (simp add: resting_def)
    moreover have "clk c n + timeWaitDuration c \<le> clk c (ticks (Tick c))"
    proof -
      have "clk c n + timeWaitDuration c \<le> clk c (ticks c)" using r False by (simp add: resting_def now_def)
      also have "\<dots> \<le> clk c (ticks (Tick c))" using later_Tick m by (simp add: monoD)
      finally show ?thesis .
    qed
    moreover have "clk (Tick c) = clk c" "timeWaitDuration (Tick c) = timeWaitDuration c" "retxQueue (Tick c) = []"
      "sndBuf (Tick c) = []" "\<not> keepaliveEnabled (Tick c)"
      using r by (simp_all add: t checkTimeWait_def flow_queue resting_def Let_def)
    ultimately show ?thesis using False by (simp add: over_def)
  qed
qed

lemma over_step:
  assumes o': "over n c" and e: "peaceful e" and m: "mono (clk c)"
  shows "over n (connStep c e) \<and> clk (connStep c e) = clk c \<and> timeWaitDuration (connStep c e) = timeWaitDuration c"
proof -
  have c: "state c = Closed" "retxQueue c = []" "sndBuf c = []" "\<not> keepaliveEnabled c"
    using o' by (simp_all add: over_def)
  have "Tick c = checkFlowTimers c"
    using c by (simp add: Tick_def checkTimeWait_def checkRetransmit_def checkKeepAlive_def)
  then have f: "state (connStep c e) = Closed \<and> clk (connStep c e) = clk c \<and> retxQueue (connStep c e) = [] \<and>
      sndBuf (connStep c e) = [] \<and> \<not> keepaliveEnabled (connStep c e) \<and>
      timeWaitDuration (connStep c e) = timeWaitDuration c"
    using c e
    by (cases e) (simp_all add: onSegment_def onSegmentClosed_def Close_def Send_def flow_queue
        Recv_def recomputeRcvWindow_def SetNoDelay_def SetRcvBuffer_def SetCwnd_def synchronized_def
        sendRst_def Let_def)
  have "clk c n + timeWaitDuration c \<le> clk c (ticks c)" using o' by (simp add: over_def)
  also have "\<dots> \<le> clk c (ticks (connStep c e))" using later_step m by (simp add: monoD)
  finally show ?thesis using f by (simp add: over_def)
qed

lemma clock_segment:
  assumes "state c = TimeWait"
  shows "clk (onSegment c h p) = clk c" "timeWaitDuration (onSegment c h p) = timeWaitDuration c"
proof -
  have t: "clk (textAndFin d h p) = clk d \<and> timeWaitDuration (textAndFin d h p) = timeWaitDuration d" for d
    by (simp add: textAndFin_def handleFin_def enterTimeWait_def restartTimeWait_def Let_def split: State.split)
  have a: "clk (ackTextFin d h p) = clk d \<and> timeWaitDuration (ackTextFin d h p) = timeWaitDuration d" for d
  proof (cases rule: ackTextFin_split [of d h p])
    case (acked x e)
    then have "clk e = clk d \<and> timeWaitDuration e = timeWaitDuration d" by auto
    then show ?thesis using acked(4) t [of "snd (handleAck e h p)"] by simp
  qed simp
  show "clk (onSegment c h p) = clk c" "timeWaitDuration (onSegment c h p) = timeWaitDuration c"
    using assms a
    by (simp_all add: onSegment_def onSegmentSynchronized_def handleRst_def resetConnection_def restartTimeWait_def Let_def)
qed

lemma resting_step:
  assumes r: "resting n c" and e: "peaceful e" and m: "mono (clk c)"
  shows "(resting n (connStep c e) \<or> over n (connStep c e)) \<and> clk (connStep c e) = clk c \<and>
    timeWaitDuration (connStep c e) = timeWaitDuration c"
proof -
  have k: "resting n (connStep c e) \<and> clk (connStep c e) = clk c \<and> timeWaitDuration (connStep c e) = timeWaitDuration c"
    if "resting n (connStep c e)" "clk (connStep c e) = clk c" "timeWaitDuration (connStep c e) = timeWaitDuration c"
    using that by blast
  show ?thesis
  proof (cases e)
    case (EvSegment h p)
    have "state c = TimeWait" using r by (simp add: resting_def)
    from clock_segment [OF this] show ?thesis using resting_segment [OF r m, of h p] e EvSegment by simp
  next
    case EvTick
    have "clk (Tick c) = clk c \<and> timeWaitDuration (Tick c) = timeWaitDuration c"
      by (simp add: Tick_def checkTimeWait_def Let_def)
    then show ?thesis using resting_Tick [OF r m] EvTick by (simp split: if_splits)
  next
    case (EvRecv k)
    have f: "clk (snd (Recv c k)) = clk c" "timeWaitDuration (snd (Recv c k)) = timeWaitDuration c"
      "retxQueue (snd (Recv c k)) = retxQueue c" "timeWaitDeadline (snd (Recv c k)) = timeWaitDeadline c"
      by (simp_all add: Recv_def recomputeRcvWindow_def Let_def)
    have "resting n (snd (Recv c k))"
      by (rule resting_view [OF r]) (use r f later_step [of c "EvRecv k"] in \<open>simp_all add: resting_def\<close>)
    then show ?thesis using f EvRecv by simp
  next
    case (EvRcvBuffer k)
    have "resting n (SetRcvBuffer c k)"
      by (rule resting_view [OF r]) (use r in \<open>simp_all add: resting_def SetRcvBuffer_def Let_def\<close>)
    then show ?thesis using EvRcvBuffer by (simp add: SetRcvBuffer_def Let_def)
  qed (use r e in \<open>simp_all add: resting_def Close_def Send_def SetNoDelay_def SetCwnd_def\<close>)
qed

lemma resting_run:
  assumes "resting n c \<or> over n c" "list_all peaceful es" "mono (clk c)"
  shows "(resting n (foldl connStep c es) \<or> over n (foldl connStep c es)) \<and> clk (foldl connStep c es) = clk c \<and>
    timeWaitDuration (foldl connStep c es) = timeWaitDuration c"
  using assms
proof (induction es arbitrary: c)
  case (Cons e es)
  have "(resting n (connStep c e) \<or> over n (connStep c e)) \<and> clk (connStep c e) = clk c \<and>
      timeWaitDuration (connStep c e) = timeWaitDuration c"
    using Cons.prems resting_step over_step by auto
  with Cons.IH [of "connStep c e"] Cons.prems show ?case by simp
qed simp

text \<open>Where it begins.\<close>

lemma resting_start:
  assumes "retxQueue c = []" "sndBuf c = []" "\<not> keepaliveEnabled c"
  shows "resting (ticks c) (enterTimeWait c)"
  using assms by (simp add: resting_def enterTimeWait_def restartTimeWait_def now_def tick_def)

section \<open>Properties\<close>



end
