(* ===== verification/Tcp_Session.thy ===== *)
theory Tcp_Session
  imports Tcp_Handshake
begin

section \<open>Sessions\<close>

text \<open>
  Two connections over a network, from the handshake on. Every packet that one end reads is one
  that the other end has written at some time: the network loses, repeats and reorders as it likes. Both
  applications write and read as they please, and time passes on both sides. The lists are what
  the applications have written and read so far.
\<close>

inductive session :: "Conn \<Rightarrow> byte list \<Rightarrow> byte list \<Rightarrow> Conn \<Rightarrow> byte list \<Rightarrow> byte list \<Rightarrow> bool" where
  opened: "configured x \<Longrightarrow> configured y \<Longrightarrow> tsForward x \<Longrightarrow> unat (rcvBuffCap x) \<le> 1073741824 \<Longrightarrow>
    unat (rcvBuffCap y) \<le> 1073741824 \<Longrightarrow> 0 < rcvBuffCap y \<Longrightarrow>
    handshake (ActiveOpen x i) (openPassive y j) = Some (a, b) \<Longrightarrow> session a [] [] b [] []"
| swapped: "session a Wa Ga b Wb Gb \<Longrightarrow> session b Wb Gb a Wa Ga"
| packet: "session a Wa Ga b Wb Gb \<Longrightarrow> pkt \<in> set (outp b) \<Longrightarrow> dispatch a pkt = Some a' \<Longrightarrow>
    session a' Wa Ga b Wb Gb"
| read: "session a Wa Ga b Wb Gb \<Longrightarrow>
    session (snd (Recv a n)) Wa (Ga @ received (fst (Recv a n))) b Wb Gb"
| event: "session a Wa Ga b Wb Gb \<Longrightarrow> quietEvent e \<Longrightarrow> orderly a Wa e \<Longrightarrow>
    session (connStep a e) (Wa @ accepted a e) Ga b Wb Gb"

subsection \<open>Both ends are senders and receivers\<close>

lemma transmits_reachable: "transmits c W \<Longrightarrow> reachable c"
  by (induction rule: transmits.induct) (auto intro: reachable.intros)

lemma transmits_event:
  assumes "transmits c W" "\<And>d. e \<noteq> EvSend d" "e \<noteq> EvClose"
  shows "transmits (connStep c e) W"
proof -
  have "length W < 1073741824" using transmits_inv [OF assms(1)] by (simp add: streamInv_def)
  then have "orderly c W e" using assms(3) by (simp add: orderly_def accepted_other [OF assms(2)])
  from transmits.step [OF assms(1) this] show ?thesis by (simp add: accepted_other [OF assms(2)])
qed

lemma dispatch_event:
  assumes "dispatch c pkt = Some d"
  obtains "d = c" | h p where "d = connStep c (EvSegment h p)"
  using assms by (auto simp: dispatch_def split: option.splits Option.bind_splits)

lemma transmits_dispatch:
  assumes "transmits c W" "dispatch c pkt = Some d"
  shows "transmits d W"
  using assms(2)
proof (rule dispatch_event)
  show "transmits d W" if "d = connStep c (EvSegment h p)" for h p
    unfolding that by (rule transmits_event [OF assms(1)]) simp_all
qed (use assms(1) in simp)

lemma iss_dispatch: "dispatch c pkt = Some d \<Longrightarrow> snd_iss d = snd_iss c"
  by (erule dispatch_event) auto

lemma outp_step:
  assumes "transmits c W"
  shows "set (outp c) \<subseteq> set (outp (connStep c e))"
proof -
  have "outputFrom [] c" by (rule quiet.always [OF transmits_reachable [OF assms]])
  then have "outputFrom (outp c) c" by (simp add: outputFrom_def)
  from output_grows [OF this, of e] show ?thesis by (auto simp: outputFrom_def prefix_def)
qed

lemma outp_dispatch:
  assumes "transmits c W" "dispatch c pkt = Some d"
  shows "set (outp c) \<subseteq> set (outp d)"
  using assms(2)
proof (rule dispatch_event)
  show "set (outp c) \<subseteq> set (outp d)" if "d = connStep c (EvSegment h p)" for h p
    unfolding that by (rule outp_step [OF assms(1)])
qed simp

lemma receives_mono: "receives net b c got \<Longrightarrow> net \<subseteq> net' \<Longrightarrow> receives net' b c got"
  by (induction rule: receives.induct) (auto intro: receives.intros)

subsection \<open>The invariant\<close>

definition linked :: "Conn \<Rightarrow> byte list \<Rightarrow> byte list \<Rightarrow> Conn \<Rightarrow> byte list \<Rightarrow> byte list \<Rightarrow> bool" where
  "linked a Wa Ga b Wb Gb \<longleftrightarrow> transmits a Wa \<and> transmits b Wb \<and>
     receives (set (outp b)) (snd_iss b + 1) a Ga \<and> receives (set (outp a)) (snd_iss a + 1) b Gb"

lemma linked_step:
  assumes l: "linked a Wa Ga b Wb Gb" and a': "transmits a' Wa'" "snd_iss a' = snd_iss a" "set (outp a) \<subseteq> set (outp a')"
    and r: "receives (set (outp b)) (snd_iss b + 1) a' Ga'"
  shows "linked a' Wa' Ga' b Wb Gb"
  using l a'(1) r receives_mono [OF _ a'(3)] unfolding linked_def a'(2) by blast

lemma session_linked: "session a Wa Ga b Wb Gb \<Longrightarrow> linked a Wa Ga b Wb Gb"
proof (induction rule: session.induct)
  case (opened x y i j a b)
  obtain b1 where p: "dispatch (openPassive y j) (last (outp (ActiveOpen x i))) = Some b1"
    "dispatch (ActiveOpen x i) (last (outp b1)) = Some a" "dispatch b1 (last (outp a)) = Some b"
    using opened(7) unfolding handshake_def by (auto split: Option.bind_splits)
  have t: "transmits a []" "transmits b []"
    using transmits_dispatch [OF transmits.dialled [OF opened(1)] p(2)]
      transmits_dispatch [OF transmits_dispatch [OF transmits.listening [OF opened(2)] p(1)] p(3)] by simp_all
  have s: "snd_iss a = i" "snd_iss b = j"
    using iss_dispatch [OF p(2)] iss_dispatch [OF p(3)] iss_dispatch [OF p(1)]
    by (simp_all add: ActiveOpen_def openPassive_def PassiveOpen_def Let_def)
  have "ready (j + 1) a \<and> ready (i + 1) b"
    using handshake_ready [OF opened(1,2,4-6,3), of i j] opened(7) by auto
  then show ?case using t unfolding linked_def s by (blast intro: receives.established)
next
  case (swapped a Wa Ga b Wb Gb)
  then show ?case unfolding linked_def by blast
next
  case (packet a Wa Ga b Wb Gb pkt a')
  have l: "transmits a Wa" "receives (set (outp b)) (snd_iss b + 1) a Ga"
    using packet.IH unfolding linked_def by blast+
  show ?case
    by (rule linked_step [OF packet.IH transmits_dispatch [OF l(1) packet(3)] iss_dispatch [OF packet(3)]
      outp_dispatch [OF l(1) packet(3)] receives.packet [OF l(2) packet(2,3)]])
next
  case (read a Wa Ga b Wb Gb n)
  have l: "transmits a Wa" "receives (set (outp b)) (snd_iss b + 1) a Ga"
    using read.IH unfolding linked_def by blast+
  show ?case
    by (rule linked_step [OF read.IH _ _ _ receives.read [OF l(2)]])
      (use transmits_event [OF l(1), of "EvRecv n"] outp_step [OF l(1), of "EvRecv n"] in auto)
next
  case (event a Wa Ga b Wb Gb e)
  have l: "transmits a Wa" "receives (set (outp b)) (snd_iss b + 1) a Ga"
    using event.IH unfolding linked_def by blast+
  show ?case
    by (rule linked_step [OF event.IH transmits.step [OF l(1) event(3)] snd_iss_step outp_step [OF l(1)]
      receives.quiet [OF l(2) event(2)]])
qed

lemma session_streams:
  assumes "session a Wa Ga b Wb Gb"
  shows "prefix (Ga @ rcvBuf a) Wb \<and> prefix (Gb @ rcvBuf b) Wa \<and>
    (fst (Recv a n) = Inl EOF \<longrightarrow> Ga = Wb) \<and> (fst (Recv b n) = Inl EOF \<longrightarrow> Gb = Wa)"
  using session_linked [OF assms] transfer unfolding linked_def by blast

text \<open>A session of two fresh connections, in which one end has written a few bytes.\<close>

lemma demo_session:
  assumes "length xs < 1073741824"
  obtains a b where "handshake (ActiveOpen demoConn 4294967295) (openPassive demoConn 500) = Some (a, b)"
    "session (snd (Send a xs)) xs [] b [] []" "state (snd (Send a xs)) = Established"
    "\<not> peerFin b" "rcvBuf b = []" "0 < rcv_wnd b"
proof -
  have conf: "configured demoConn" unfolding demoConn_def by (rule configured.new)
  have ts: "tsForward demoConn"
    by (simp add: tsForward_def tsAt_def demoConn_def NewConn_def pawsStale_def SeqLT_def)
  have cap: "rcvBuffCap demoConn = 65535"
    by (simp add: demoConn_def NewConn_def rcvBuffCap_def defaultRcvWindow_def maxWindow_def)
  have w: "unat (rcvBuffCap demoConn) \<le> 1073741824" "0 < rcvBuffCap demoConn" by (simp_all add: cap)
  obtain a b where h: "handshake (ActiveOpen demoConn 4294967295) (openPassive demoConn 500) = Some (a, b)"
    and r: "ready (500 + 1) a" "ready (4294967295 + 1) b" "endAt Established (500 + 1) (500 + 1) (4294967295 + 1) b"
    using handshake_ready [OF conf conf w(1,1,2) ts] by blast
  have est: "state a = Established" using r by (simp add: ready_def)
  have "session a [] [] b [] []" by (rule session.opened [OF conf conf ts w(1,1,2) h])
  from session.event [OF this, of "EvSend xs"] est
  have "session (snd (Send a xs)) xs [] b [] []" using assms by (simp add: orderly_def accepted_Send)
  moreover have "\<not> peerFin b" "rcvBuf b = []" "0 < rcv_wnd b" using r(2,3) by (simp_all add: ready_def endAt_def)
  ultimately show thesis using that h est by (simp add: Send_def)
qed

section \<open>Properties\<close>



end
