(* ===== verification/Tcp_Reliable.thy ===== *)
theory Tcp_Reliable
  imports Tcp_Session
begin

unbundle bit_operations_syntax

section \<open>Nothing is lost\<close>

text \<open>
  The other half of reliable delivery. A sender drops bytes from its send buffer when they are
  acknowledged; that this loses nothing rests on the receiver: no acknowledgement number it
  ever writes is ahead of what it has taken in, and what it has taken in it keeps until its
  application reads it. Proved over sessions, for both directions at once: whatever a network
  drops, repeats or reorders, each byte an application has written is either with the peer or
  still in the send buffer, from where it is retransmitted.
\<close>

subsection \<open>The send buffer after \<open>Close\<close>\<close>

abbreviation closingStates :: "State set" where
  "closingStates \<equiv> {FinWait1, FinWait2, Closing, TimeWait, LastAck}"

text \<open>What is left in the buffer is the rest of the stream from SND.UNA on.\<close>

definition leftOver :: "Conn \<Rightarrow> byte list \<Rightarrow> bool" where
  "leftOver c W \<longleftrightarrow>
     (\<exists>k\<le>length W. sndBuf c = drop k W \<and> snd_una c = snd_iss c + 1 + of_nat k) \<or>
     sndBuf c = [] \<and>
       (snd_una c = snd_iss c + 1 + of_nat (length W + 1) \<or> W = [] \<and> snd_una c = snd_iss c)"

definition closingInv :: "Conn \<Rightarrow> byte list \<Rightarrow> bool" where
  "closingInv c W \<longleftrightarrow> (state c \<in> closingStates \<longrightarrow>
     snd_nxt c = snd_iss c + 1 + of_nat (length W + 1) \<and> leftOver c W)"

lemma leftOver_cong:
  "sndBuf d = sndBuf c \<Longrightarrow> snd_una d = snd_una c \<Longrightarrow> snd_iss d = snd_iss c \<Longrightarrow> leftOver d W = leftOver c W"
  by (simp add: leftOver_def)

lemma leftOver_suffix:
  assumes "suffix (sndBuf c) W" "snd_una c + of_nat (length (sndBuf c)) = snd_iss c + 1 + of_nat (length W)"
  shows "leftOver c W"
proof -
  obtain us where u: "W = us @ sndBuf c" using assms(1) by (auto simp: suffix_def)
  have "snd_una c = snd_iss c + 1 + of_nat (length us)" using assms(2) by (simp add: u add.commute)
  then show ?thesis unfolding leftOver_def by (intro disjI1 exI [of _ "length us"]) (simp add: u)
qed

lemma leftOver_cases:
  assumes "leftOver c W"
  obtains (rest) k where "k \<le> length W" "sndBuf c = drop k W" "snd_una c = snd_iss c + 1 + of_nat k"
  | (all) "sndBuf c = []" "snd_una c = snd_iss c + 1 + of_nat (length W + 1)"
  | (fresh) "W = []" "sndBuf c = []" "snd_una c = snd_iss c"
  using assms unfolding leftOver_def by blast

lemma two: "dist s (2 + s) = 2"
  using dist_pos [of 0 2 s] by (simp add: add.commute)

lemma leftOver_flight:
  assumes "leftOver c W" "length W < 1073741824" "snd_nxt c = snd_iss c + 1 + of_nat (length W + 1)"
  shows "length (sndBuf c) \<le> inflight c" "inflight c < 2147483648"
proof -
  have "length (sndBuf c) \<le> inflight c \<and> inflight c < 2147483648"
    using assms(1)
  proof (cases rule: leftOver_cases)
    case (rest k)
    have "dist (snd_una c) (snd_nxt c) = length W + 1 - k"
      unfolding rest(3) assms(3) using rest(1) assms(2) by (intro dist_pos) simp_all
    then show ?thesis using rest assms(2) by (auto simp: inflight_dist)
  next
    case all
    then show ?thesis using assms(3) by (simp add: inflight_dist)
  next
    case fresh
    then have "inflight c = dist (snd_iss c) (2 + snd_iss c)" using assms(3) by (simp add: inflight_dist)
    then show ?thesis using fresh two by simp
  qed
  then show "length (sndBuf c) \<le> inflight c" "inflight c < 2147483648" by simp_all
qed

lemma leftOver_acked:
  assumes l: "leftOver c W" and W: "length W < 1073741824"
    and n: "snd_nxt c = snd_iss c + 1 + of_nat (length W + 1)"
    and a: "ackedBy a c d" and iss: "snd_iss d = snd_iss c"
  shows "leftOver d W"
proof (cases "sndBuf d = sndBuf c \<and> snd_una d = snd_una c")
  case True
  then show ?thesis using l leftOver_cong [of d c W] iss by simp
next
  case False
  let ?d = "dist (snd_una c) a"
  have d: "AcceptableAck (snd_una c) a (snd_nxt c)" "snd_una d = a" "sndBuf d = drop ?d (sndBuf c)"
    using a False by (auto simp: ackedBy_def)
  have f: "inflight c < 2147483648" by (rule leftOver_flight [OF l W n])
  then have k: "0 < ?d" "?d \<le> inflight c"
    using d(1) AcceptableAck_inside [of "snd_una c" "snd_nxt c" a] by (simp_all add: inflight_dist)
  have u: "a = snd_una c + of_nat ?d" using add_dist [of "snd_una c" a] by simp
  show ?thesis
    using l
  proof (cases rule: leftOver_cases)
    case (rest j)
    have i: "inflight c = length W + 1 - j"
      unfolding inflight_dist rest(3) n using rest(1) W by (intro dist_pos) simp_all
    have b: "sndBuf d = drop (?d + j) W" "snd_una d = snd_iss d + 1 + of_nat (j + ?d)"
      using d rest u iss by (simp_all add: add.assoc)
    show ?thesis
    proof (cases "j + ?d \<le> length W")
      case True
      then show ?thesis using b unfolding leftOver_def by (metis add.commute)
    next
      case False
      then have "j + ?d = length W + 1" using k i rest(1) by linarith
      then show ?thesis using b False unfolding leftOver_def by simp
    qed
  next
    case all
    then show ?thesis using k n by (simp add: inflight_dist)
  next
    case fresh
    then have "inflight c = dist (snd_iss c) (2 + snd_iss c)" using n by (simp add: inflight_dist)
    then have "?d = 1 \<or> ?d = 2" using k two by auto
    then show ?thesis using d(2,3) u fresh iss unfolding leftOver_def by (auto simp: add.assoc)
  qed
qed

text \<open>With nothing unsent, SND.NXT stands still.\<close>

lemma full_flush:
  assumes "length (sndBuf c) \<le> inflight c"
  shows "snd_nxt (flushSend c) = snd_nxt c"
proof -
  have "length (sndBuf c) \<le> inflight c \<longrightarrow> snd_nxt (flushSend c) = snd_nxt c \<and>
      length (sndBuf (flushSend c)) \<le> inflight (flushSend c)"
    by (rule flushSend_rel [of "\<lambda>c d. length (sndBuf c) \<le> inflight c \<longrightarrow>
      snd_nxt d = snd_nxt c \<and> length (sndBuf d) \<le> inflight d"])
      (auto simp: inflight_def)
  then show ?thesis using assms by blast
qed

lemma full_flow:
  assumes "length (sndBuf c) \<le> inflight c"
  shows "snd_nxt (checkFlowTimers c) = snd_nxt c"
  using assms
  by (simp add: checkFlowTimers_def probePersist_def fireOverride_def Let_def inflight_def)

lemma closing_segment_nxt:
  assumes l: "leftOver c W" and W: "length W < 1073741824"
    and n: "snd_nxt c = snd_iss c + 1 + of_nat (length W + 1)" and st: "state c \<in> closingStates"
  shows "snd_nxt (onSegment c h p) = snd_nxt c"
proof -
  have ha: "snd_nxt (snd (handleAck d h p)) = snd_nxt d"
    if d: "leftOver d W" "snd_nxt d = snd_iss d + 1 + of_nat (length W + 1)" for d
  proof -
    let ?a = "advanceStateOnAck (ackCore d h p) h"
    have "ackedBy (AckNum h) d (ackCore d h p)"
      by (simp add: ackedBy_def ackCore_def newAck_queue)
    then have "ackedBy (AckNum h) d ?a" by (subst ackedBy_view(1) [of _ "ackCore d h p"]) simp_all
    then have "leftOver ?a W" by (rule leftOver_acked [OF d(1) W d(2)]) simp
    then have "length (sndBuf ?a) \<le> inflight ?a" by (rule leftOver_flight(1) [OF _ W]) (simp add: d(2))
    then show ?thesis using full_flush [of ?a] by (simp add: handleAck_snd)
  qed
  have tf: "snd_nxt (textAndFin d h p) = snd_nxt d" for d
    using sendView_textAndFin [of d h p] by (simp add: sendView_def)
  have atf: "snd_nxt (ackTextFin d h p) = snd_nxt d"
    if d: "leftOver d W" "snd_nxt d = snd_iss d + 1 + of_nat (length W + 1)" for d
  proof (cases rule: ackTextFin_split [of d h p])
    case (acked x e)
    have e: "sndBuf e = sndBuf d" "snd_una e = snd_una d" "snd_nxt e = snd_nxt d" "snd_iss e = snd_iss d"
      using acked(1) by auto
    have "leftOver e W" using d(1) leftOver_cong [OF e(1,2,4)] by simp
    then have "snd_nxt (snd (handleAck e h p)) = snd_nxt d" using ha [of e] d(2) e by simp
    then show ?thesis using acked(4) tf by simp
  qed simp
  define d where "d = tick (c\<lparr>lastRecvTime := now c, keepaliveProbes := 0\<rparr>)"
  have d: "sndBuf d = sndBuf c" "snd_una d = snd_una c" "snd_nxt d = snd_nxt c" "snd_iss d = snd_iss c"
    "state d = state c"
    by (simp_all add: d_def)
  have "onSegment c h p = onSegmentSynchronized d h p"
    using st unfolding onSegment_def Let_def d_def [symmetric] d(5) by auto
  moreover have "leftOver d W" using l leftOver_cong [OF d(1,2,4)] by simp
  then have "snd_nxt (ackTextFin d h p) = snd_nxt d" by (rule atf) (simp add: d n)
  then have "snd_nxt (onSegmentSynchronized d h p) = snd_nxt d"
    by (simp add: onSegmentSynchronized_def handleRst_def resetConnection_def Let_def)
  ultimately show ?thesis using d(3) by simp
qed

lemma segment_to_closing:
  assumes "state (onSegment c h p) \<in> closingStates"
  shows "state c \<in> closingStates"
proof -
  have "segMove c h p (state c) (state (onSegment c h p))" by (rule onSegment_move)
  then show ?thesis using assms
    by cases (auto simp: ackNext_def finNext_def split: State.splits if_splits)
qed

lemma other_to_closing:
  assumes "\<And>h p. e \<noteq> EvSegment h p" "e \<noteq> EvClose" "state (connStep c e) \<in> closingStates"
  shows "state (connStep c e) = state c"
proof -
  have "connMove c e (state c) (state (connStep c e))" by (rule connStep_move)
  then show ?thesis using assms by cases auto
qed

lemma closingInv_step:
  assumes i: "closingInv c W" and s: "streamInv c W" and o': "orderly c W e"
  shows "closingInv (connStep c e) (W @ accepted c e)"
proof -
  have W: "length W < 1073741824" using s by (simp add: streamInv_def)
  have pre: "leftOver c W \<and> snd_nxt c = snd_iss c + 1 + of_nat (length W + 1)" if "state c \<in> closingStates"
    using i that unfolding closingInv_def by blast
  show ?thesis
  proof (cases e)
    case (EvSegment h p)
    have "leftOver (onSegment c h p) W \<and> snd_nxt (onSegment c h p) = snd_iss c + 1 + of_nat (length W + 1)"
      if "state (onSegment c h p) \<in> closingStates"
    proof -
      note st = segment_to_closing [OF that]
      note l = pre [OF st]
      have "ackedBy (AckNum h) c (onSegment c h p)" using st by (intro onSegment_acked) auto
      with l have "leftOver (onSegment c h p) W"
        by (elim conjE) (rule leftOver_acked [OF _ W], simp_all)
      moreover have "snd_nxt (onSegment c h p) = snd_nxt c"
        using l by (elim conjE) (rule closing_segment_nxt [OF _ W _ st])
      ultimately show ?thesis using l by simp
    qed
    then show ?thesis by (simp add: EvSegment closingInv_def accepted_other)
  next
    case EvClose
    have "leftOver (Close c) W \<and> snd_nxt (Close c) = snd_iss c + 1 + of_nat (length W + 1)"
      if "state (Close c) \<in> closingStates"
    proof (cases "state c \<in> closingStates")
      case True
      then have "Close c = c" by (auto simp: Close_def)
      then show ?thesis using pre [OF True] by simp
    next
      case False
      then have st: "state c \<in> {Established, SynReceived, CloseWait}"
        using that by (cases "state c") (simp_all add: Close_state)
      have "snd_nxt (Close c) = snd_nxt c + 1" using st by (auto simp: Close_def Let_def)
      moreover have "snd_nxt c = snd_iss c + 1 + of_nat (length W)"
        using close_position [OF s _ st] o' by (simp add: EvClose)
      moreover have "leftOver c W"
      proof (cases "state c = SynReceived")
        case True
        then have "preInv c" using s by (simp add: streamInv_def sendInv_def)
        then show ?thesis using True streamInv_pre [OF s] by (simp add: preInv_def leftOver_def)
      next
        case False
        then show ?thesis using s st by (intro leftOver_suffix) (auto simp: streamInv_def)
      qed
      moreover have "leftOver (Close c) W = leftOver c W"
        using other_view [of EvClose c] snd_iss_step [of c EvClose] by (intro leftOver_cong) simp_all
      ultimately show ?thesis by (simp add: add.assoc)
    qed
    then show ?thesis
      using snd_iss_step [of c EvClose] by (simp add: EvClose closingInv_def accepted_other)
  next
    case (EvSend d)
    show ?thesis
    proof (cases "state c \<in> dataStates")
      case True
      then have "state (snd (Send c d)) \<in> dataStates" by (auto simp: Send_def)
      then show ?thesis by (auto simp: EvSend closingInv_def)
    next
      case False
      then have "snd (Send c d) = c" by (simp add: Send_def)
      then show ?thesis using i False by (simp add: EvSend accepted_Send)
    qed
  next
    case EvTick
    have "leftOver (Tick c) W \<and> snd_nxt (Tick c) = snd_iss c + 1 + of_nat (length W + 1)"
      if "state (Tick c) \<in> closingStates"
    proof -
      have st: "state c \<in> closingStates" using other_to_closing [of EvTick c] that by simp
      note l = pre [OF st]
      let ?r = "checkRetransmit (checkTimeWait c)"
      have r: "sndBuf ?r = sndBuf c" "snd_una ?r = snd_una c" "snd_nxt ?r = snd_nxt c" by simp_all
      have "length (sndBuf ?r) \<le> inflight ?r"
        using leftOver_flight(1) [OF _ W, of c] l r by (simp add: inflight_def)
      then have "snd_nxt (Tick c) = snd_nxt c" using full_flow [of ?r] r(3) by (simp add: Tick_def)
      moreover have "leftOver (Tick c) W = leftOver c W"
        using other_view [of EvTick c] snd_iss_step [of c EvTick] by (intro leftOver_cong) simp_all
      ultimately show ?thesis using l by simp
    qed
    then show ?thesis
      using snd_iss_step [of c EvTick] by (simp add: EvTick closingInv_def accepted_other)
  qed (use i in \<open>simp_all add: closingInv_def accepted_other leftOver_def SetNoDelay_def SetRcvBuffer_def
      SetKeepAlive_def SetMSL_def SetCwnd_def Let_def\<close>)
qed

lemma closingInv_open: "closingInv (ActiveOpen c iss) W" "closingInv (openPassive c iss) W"
  by (simp_all add: closingInv_def ActiveOpen_def openPassive_def PassiveOpen_def Let_def)

lemma transmits_closing: "transmits c W \<Longrightarrow> closingInv c W"
proof (induction rule: transmits.induct)
  case (step c W e)
  then show ?case using closingInv_step transmits_inv by blast
qed (simp_all add: closingInv_open)

lemma transmits_leftOver:
  assumes "transmits c W" "state c \<in> dataStates \<union> closingStates"
  shows "leftOver c W"
proof (cases "state c \<in> closingStates")
  case True
  then show ?thesis using transmits_closing [OF assms(1)] by (simp add: closingInv_def)
next
  case False
  then show ?thesis
    using transmits_inv [OF assms(1)] assms(2) by (intro leftOver_suffix) (auto simp: streamInv_def)
qed

subsection \<open>Acknowledgements on the wire\<close>

text \<open>
  \<open>okA\<close> says which acknowledgement numbers may be written; every packet but a RST obeys it, and
  RCV.NXT does. The interface \<open>wire_step\<close> carries it through all operations.
\<close>

definition ackPacket :: "(u32 \<Rightarrow> bool) \<Rightarrow> byte list \<Rightarrow> bool" where
  "ackPacket okA pkt =
     (case decodePacket pkt of
        Some (Some (ip, h, p)) \<Rightarrow> acks okA (HdrFlags h) (AckNum h)
      | _ \<Rightarrow> True)"

definition ackWire :: "(u32 \<Rightarrow> bool) \<Rightarrow> Conn \<Rightarrow> bool" where
  "ackWire okA c \<longleftrightarrow> (\<forall>pkt\<in>set (outp c). ackPacket okA pkt) \<and>
     (\<forall>r\<in>set (retxQueue c). length (rsPayload r) \<le> wireLimit)"

definition ackRun :: "(u32 \<Rightarrow> bool) \<Rightarrow> Conn \<Rightarrow> bool" where
  "ackRun okA c \<longleftrightarrow> ackWire okA c \<and> okA (rcv_nxt c)"

lemma ackPacket_packetOf:
  assumes "goodOpts o'" "length p \<le> wireLimit" "acks okA f a"
  shows "ackPacket okA (packetOf c f s a p o')"
  using assms decode_packetOf [of o' p c f s a]
  by (simp add: ackPacket_def goodOpts_def acks_def Has_wire)

lemma ackWire_write:
  assumes "ackWire okA c" "goodOpts o'" "length p \<le> wireLimit" "acks okA f a"
  shows "ackWire okA (writeSegOpts c f s a p o')"
proof -
  obtain o'' where "outp (writeSegOpts c f s a p o') = outp c @ [packetOf c f s a p o'']" "goodOpts o''"
    using writeSegOpts_outp [of c f s a p o'] assms(2) by blast
  then show ?thesis
    using assms ackPacket_packetOf [of o'' p okA f a c s] by (auto simp: ackWire_def)
qed

interpretation acked: wire_step "ackRun okA" "\<lambda>_ _ _. True" okA for okA
  by unfold_locales (auto simp: ackRun_def ackWire_write, auto simp: ackWire_def fits_def)

lemma ackPacket_mono: "ackPacket okA pkt \<Longrightarrow> (\<And>n. okA n \<Longrightarrow> okB n) \<Longrightarrow> ackPacket okB pkt"
  by (auto simp: ackPacket_def acks_def split: option.splits)

lemma ackRun_mono:
  assumes "ackRun okA c" "\<And>n. okA n \<Longrightarrow> okB n"
  shows "ackRun okB c"
proof -
  have "ackPacket okB pkt" if "ackPacket okA pkt" for pkt using that assms(2) by (rule ackPacket_mono)
  moreover have "ackWire okA c" and r: "okB (rcv_nxt c)"
    using assms(1) assms(2) [of "rcv_nxt c"] unfolding ackRun_def by blast+
  ultimately have "ackWire okB c" unfolding ackWire_def by blast
  then show ?thesis using r unfolding ackRun_def by blast
qed

lemma advances_empty:
  assumes "okA (rcv_nxt c)" "okA (rcv_nxt (onSegment c h []))" "state c \<in> {Listen, SynSent} \<longrightarrow> okA (SeqNum h + 1)"
  shows "advances okA c h []"
  unfolding advances_def
proof (intro conjI allI impI assms(3))
  fix e assume e: "recvView e = recvView c" "onSegment c h [] = textAndFin e h []"
  have "rcv_nxt (acceptText e h []) = rcv_nxt c"
    using e(1) by (simp add: acceptText_def recvView_def rcvSide_def)
  then show "okA (rcv_nxt (acceptText e h []))" by (simp only: assms(1))
  show "okA (rcv_nxt (textAndFin e h []))" using assms(2) by (simp only: e(2))
qed (use assms(3) in blast)

text \<open>Both opening states forget the old RCV.NXT.\<close>

lemma opening_rcv_nxt:
  assumes "Has (HdrFlags h) FlagSYN" "\<not> Has (HdrFlags h) FlagRST"
    and "state c = Listen \<and> \<not> Has (HdrFlags h) FlagACK \<or>
      state c = SynSent \<and> Has (HdrFlags h) FlagACK \<and>
      \<not> SeqLEQ (AckNum h) (snd_iss c) \<and> \<not> SeqGT (AckNum h) (snd_nxt c)"
  shows "onSegment (c\<lparr>rcv_nxt := n\<rparr>) h p = onSegment c h p"
  using assms by (auto simp: onSegment_def onSegmentListen_def onSegmentSynSent_def tick_def now_def Let_def)

lemma ackWire_syn:
  assumes "ackWire okA c"
  shows "ackWire okA (sendSyn c FlagSYN s a)"
proof -
  have t: "ackWire okA (tick d) = ackWire okA d" for d by (simp add: ackWire_def)
  have q: "ackWire okA (enqueueRetx d r)" if "ackWire okA d" "rsPayload r = []" for d r
    using that by (auto simp: ackWire_def enqueueRetx_def Let_def)
  show ?thesis
    using assms by (simp add: sendSyn_def Let_def case_prod_unfold q t ackWire_write goodOpts_synOptions)
qed

lemma ackRun_first:
  assumes "ackRun (\<lambda>n. n = r) (c\<lparr>rcv_nxt := r\<rparr>)" "onSegment (c\<lparr>rcv_nxt := r\<rparr>) h [] = onSegment c h []"
    and "SeqNum h + 1 = r" "rcv_nxt (onSegment c h []) = r"
  shows "ackRun (\<lambda>n. n = r) (onSegment c h [])"
  using acked.segment [OF assms(1), of h "[]"] assms(2-4) advances_empty [of "\<lambda>n. n = r" "c\<lparr>rcv_nxt := r\<rparr>" h]
  by simp

lemma handshake_acks:
  assumes "configured a" "configured b"
    and "unat (rcvBuffCap a) \<le> 1073741824" "unat (rcvBuffCap b) \<le> 1073741824" "0 < rcvBuffCap b"
    and "tsForward a" "handshake (ActiveOpen a i) (openPassive b j) = Some (c, d)"
  shows "ackRun (\<lambda>n. n = j + 1) c" "ackRun (\<lambda>n. n = i + 1) d"
proof -
  obtain h1 h2 h3 where h1: "SeqNum h1 = i" "Has (HdrFlags h1) FlagSYN" "\<not> Has (HdrFlags h1) FlagACK"
      "\<not> Has (HdrFlags h1) FlagRST"
    and h2: "SeqNum h2 = j" "AckNum h2 = i + 1" "Has (HdrFlags h2) FlagSYN" "Has (HdrFlags h2) FlagACK"
      "\<not> Has (HdrFlags h2) FlagRST"
    and c: "c = onSegment (ActiveOpen a i) h2 []" "rcv_nxt c = j + 1"
    and b1: "rcv_nxt (onSegment (openPassive b j) h1 []) = i + 1"
      "state (onSegment (openPassive b j) h1 []) = SynReceived"
    and d: "d = onSegment (onSegment (openPassive b j) h1 []) h3 []" "rcv_nxt d = i + 1"
    using handshake_steps [OF assms(1-6), of i j] assms(7) by (auto simp: ready_def)
  have blank: "outp a = []" "retxQueue a = []" "outp b = []" "retxQueue b = []"
    using configured_blank assms(1,2) by blast+
  have w: "ackWire (\<lambda>n. n = j + 1) (ActiveOpen a i)"
    unfolding ActiveOpen_def Let_def by (rule ackWire_syn) (simp add: ackWire_def blank)
  have s: "state (ActiveOpen a i) = SynSent" "snd_iss (ActiveOpen a i) = i" "snd_nxt (ActiveOpen a i) = i + 1"
    by (simp_all add: ActiveOpen_def Let_def)
  have "\<not> SeqLEQ (i + 1) i" "\<not> SeqGT (i + 1) (i + 1)"
    by (simp_all add: SeqLEQ_def SeqLT_def SeqGT_def halfSeqSpace_def)
  then have "onSegment ((ActiveOpen a i)\<lparr>rcv_nxt := j + 1\<rparr>) h2 [] = onSegment (ActiveOpen a i) h2 []"
    using h2 s by (intro opening_rcv_nxt) simp_all
  then show "ackRun (\<lambda>n. n = j + 1) c"
    using w h2(1) c(2) unfolding c(1) by (intro ackRun_first) (simp_all add: ackRun_def ackWire_def)
  have l: "state (openPassive b j) = Listen" "outp (openPassive b j) = []" "retxQueue (openPassive b j) = []"
    using blank by (simp_all add: openPassive_def PassiveOpen_def)
  have "onSegment ((openPassive b j)\<lparr>rcv_nxt := i + 1\<rparr>) h1 [] = onSegment (openPassive b j) h1 []"
    using h1 l by (intro opening_rcv_nxt) simp_all
  then have "ackRun (\<lambda>n. n = i + 1) (onSegment (openPassive b j) h1 [])"
    using l h1(1) b1(1) by (intro ackRun_first) (simp_all add: ackRun_def ackWire_def)
  from acked.segment [OF this, of h3 "[]"] show "ackRun (\<lambda>n. n = i + 1) d"
    using b1 d(2) advances_empty [of "\<lambda>n. n = i + 1" "onSegment (openPassive b j) h1 []" h3]
    unfolding d(1) by simp
qed

subsection \<open>How far the receiver is\<close>

text \<open>\<open>n\<close> is not ahead of \<open>r\<close> in the stream that begins behind the ISS \<open>i\<close>.\<close>

definition within :: "u32 \<Rightarrow> u32 \<Rightarrow> u32 \<Rightarrow> bool" where
  "within i r n \<longleftrightarrow> dist (i + 1) n \<le> dist (i + 1) r"

lemma within_refl [simp]: "within i r r"
  by (simp add: within_def)

lemma recv_position:
  assumes "recvInv b W c got" "length W < 1073741824"
  shows "dist b (rcv_nxt c) = length (got @ rcvBuf c) + (if peerFin c then 1 else 0)"
proof -
  have d: "dist b (b + of_nat q) = q" if "q \<le> length W + 1" for q
    using dist_pos [of 0 q b] that assms(2) by simp
  show ?thesis
  proof (cases "peerFin c")
    case True
    then show ?thesis using assms d [of "length W + 1"] by (simp add: recvInv_def add_ac)
  next
    case False
    then obtain p where p: "p \<le> length W" "\<forall>S. extends S W \<longrightarrow> rcvOK b S p c" "got @ rcvBuf c = take p W"
      using assms(1) by (auto simp: recvInv_def)
    have "rcv_nxt c = b + of_nat p" using p(2) extends_pad by (auto simp: rcvOK_def)
    then show ?thesis using d [of p] p(1,3) False by simp
  qed
qed

lemma drainLoop_grows: "length (rcvBuf c) \<le> length (rcvBuf (drainLoop c))"
proof (induction c rule: drainLoop.induct)
  case (1 c)
  show ?case
  proof (cases "coverOoo c")
    case None
    then show ?thesis by (subst drainLoop.simps) simp
  next
    case (Some s)
    have "length (rcvBuf c) \<le> length (rcvBuf (drainStep c s))"
      by (simp add: drainStep_def removeFullyConsumedOoo_def Let_def)
    with "1.IH" [OF Some] Some show ?thesis by (subst drainLoop.simps) simp
  qed
qed

lemma acceptText_grows: "length (rcvBuf c) \<le> length (rcvBuf (acceptText c h p))"
proof -
  have "length (rcvBuf c) \<le> length (rcvBuf (takeText c d))" for d
    using drainLoop_grows [of "c\<lparr>rcvBuf := rcvBuf c @ fragData d,
        rcv_nxt := rcv_nxt c + of_nat (length (fragData d))\<rparr>"]
    by (simp add: takeText_def drainOoo_def removeFullyConsumedOoo_def insertOoo_def consumeRcvWindow_def Let_def)
  then show ?thesis
    using arg_cong [OF rcvSide_acceptText [of c h p], of fst] by (simp add: rcvSide_def Let_def split: if_splits)
qed

text \<open>A genuine segment moves RCV.NXT forward only, through text and FIN.\<close>

lemma genuine_advances:
  assumes i: "recvInv (k + 1) W c got" and W: "length W < 1073741824"
    and t: "okText (k + 1) W fin (HdrFlags h) (SeqNum h) pl"
  shows "within k (rcv_nxt (onSegment c h pl)) (rcv_nxt c)"
    "advances (within k (rcv_nxt (onSegment c h pl))) c h pl"
proof -
  let ?d = "onSegment c h pl"
  have st: "state c \<notin> preData" using i by (simp add: recvInv_def)
  have id: "recvInv (k + 1) W ?d got" by (rule recvInv_segment [OF i W t])
  have tx: "pl = [] \<or> piece (k + 1) W (SeqNum h) pl" using t by (auto simp: okText_def split: if_splits)
  have pos: "within k (rcv_nxt ?d) (rcv_nxt e) \<and> within k (rcv_nxt ?d) (rcv_nxt (acceptText e h pl))"
    if e: "recvView e = recvView c" "state e \<notin> preData" "?d = textAndFin e h pl" for e
  proof -
    have ie: "recvInv (k + 1) W e got" by (rule recvInv_view [OF e(1,2) i])
    have ia: "recvInv (k + 1) W (acceptText e h pl) got"
      by (rule recvInv_text [OF ie W tx]) (use e(2) in simp_all)
    have d: "rcvBuf ?d = rcvBuf (acceptText e h pl)" "peerFin e \<longrightarrow> peerFin ?d"
      unfolding e(3) by (simp_all add: textAndFin_def acceptText_def Let_def)
    show ?thesis
      using acceptText_grows [of e h pl] d
      by (simp add: within_def recv_position [OF ie W] recv_position [OF ia W] recv_position [OF id W])
  qed
  have v: "rcv_nxt e = rcv_nxt c" if "recvView e = recvView c" for e
    using that by (simp add: recvView_def rcvSide_def)
  show "within k (rcv_nxt ?d) (rcv_nxt c)"
    using onSegment_view [OF st, of h pl] pos v by (metis within_refl)
  show "advances (within k (rcv_nxt ?d)) c h pl"
    using st pos by (auto simp: advances_def)
qed

subsection \<open>The invariant of a session\<close>

text \<open>
  \<open>confirmed a b\<close>: neither what \<open>b\<close> has written nor what \<open>a\<close> has taken from it as acknowledged is
  ahead of RCV.NXT of \<open>b\<close>.
\<close>

definition confirmed :: "Conn \<Rightarrow> Conn \<Rightarrow> bool" where
  "confirmed a b \<longleftrightarrow> ackRun (within (snd_iss a) (rcv_nxt b)) b \<and> within (snd_iss a) (rcv_nxt b) (snd_una a)"

lemma una_by_ack:
  assumes "state c \<notin> {Listen, SynSent}"
  shows "snd_una (onSegment c h p) = snd_una c \<or>
    snd_una (onSegment c h p) = AckNum h \<and> Has (HdrFlags h) FlagACK \<and> \<not> Has (HdrFlags h) FlagRST"
proof (cases "Has (HdrFlags h) FlagACK \<and> \<not> Has (HdrFlags h) FlagRST")
  case True
  then show ?thesis using onSegment_acked [OF assms, of h p] by (auto simp: ackedBy_def)
next
  case False
  have "snd_una (onSegmentSynchronized d h p) = snd_una d" for d
    using False by (auto simp: onSegmentSynchronized_def handleRst_def resetConnection_def ackTextFin_def Let_def)
  moreover have "snd_una (onSegmentClosed d h p) = snd_una d" for d
    by (simp add: onSegmentClosed_def Let_def)
  ultimately show ?thesis using assms by (cases "state c") (simp_all add: onSegment_def Let_def)
qed

lemma linked_recv:
  assumes "linked a Wa Ga b Wb Gb"
  shows "recvInv (snd_iss b + 1) Wb a Ga" "length Wb < 1073741824"
proof -
  have l: "transmits b Wb" "receives (set (outp b)) (snd_iss b + 1) a Ga" using assms by (simp_all add: linked_def)
  show len: "length Wb < 1073741824" using transmits_inv [OF l(1)] by (simp add: streamInv_def)
  show "recvInv (snd_iss b + 1) Wb a Ga"
    by (rule receives_inv [OF l(2) transmits_packets(1) [OF l(1)] len])
qed

text \<open>One end reads a packet of the other.\<close>

lemma confirmed_packet:
  assumes l: "linked a Wa Ga b Wb Gb" and c: "confirmed a b" "confirmed b a"
    and pkt: "pkt \<in> set (outp b)" "decodePacket pkt = Some (Some (ip, h, p))"
  shows "confirmed (onSegment a h p) b \<and> confirmed b (onSegment a h p)"
proof
  let ?a = "onSegment a h p"
  note i = linked_recv [OF l]
  have "acks (within (snd_iss a) (rcv_nxt b)) (HdrFlags h) (AckNum h)"
    using c(1) pkt by (auto simp: confirmed_def ackRun_def ackWire_def ackPacket_def)
  moreover have "state a \<notin> {Listen, SynSent}" using i(1) by (simp add: recvInv_def)
  ultimately have "within (snd_iss a) (rcv_nxt b) (snd_una ?a)"
    using una_by_ack [of a h p] c(1) by (auto simp: confirmed_def acks_def)
  then show "confirmed ?a b" using c(1) by (simp add: confirmed_def)
  have "transmits b Wb" using l by (simp add: linked_def)
  then have "okText (snd_iss b + 1) Wb True (HdrFlags h) (SeqNum h) p"
    using transmits_packets(1) pkt by (fastforce simp: okPacket_def)
  note g = genuine_advances [OF i this]
  have up: "within (snd_iss b) (rcv_nxt ?a) n" if "within (snd_iss b) (rcv_nxt a) n" for n
    using that g(1) by (simp add: within_def)
  have "ackRun (within (snd_iss b) (rcv_nxt ?a)) a"
    by (rule ackRun_mono [of "within (snd_iss b) (rcv_nxt a)"]) (use c(2) up in \<open>simp_all add: confirmed_def\<close>)
  then have "ackRun (within (snd_iss b) (rcv_nxt ?a)) ?a" by (rule acked.segment) (simp_all add: g(2))
  then show "confirmed b ?a" using c(2) up by (simp add: confirmed_def)
qed

lemma confirmed_dispatch:
  assumes "linked a Wa Ga b Wb Gb" "confirmed a b" "confirmed b a" "pkt \<in> set (outp b)" "dispatch a pkt = Some a'"
  shows "confirmed a' b \<and> confirmed b a'"
proof (cases "decodePacket pkt")
  case (Some r)
  show ?thesis
  proof (cases r)
    case None
    then show ?thesis using assms Some by (simp add: dispatch_def)
  next
    case (Some x)
    obtain ip h p where "x = (ip, h, p)" by (cases x)
    then show ?thesis
      using confirmed_packet [OF assms(1-4), of ip h p] assms(5) Some \<open>decodePacket pkt = Some r\<close>
      by (simp add: dispatch_def)
  qed
qed (use assms in \<open>simp add: dispatch_def\<close>)

text \<open>Any other event leaves RCV.NXT and SND.UNA alone.\<close>

lemma confirmed_other:
  assumes "confirmed a b" "confirmed b a" "\<And>h p. e \<noteq> EvSegment h p"
  shows "confirmed (connStep a e) b \<and> confirmed b (connStep a e)"
proof -
  have n: "rcv_nxt (connStep a e) = rcv_nxt a"
    using assms(3) by (cases e) (auto simp: Tick_def checkTimeWait_def Close_def Send_def Recv_def
      recomputeRcvWindow_def SetNoDelay_def SetRcvBuffer_def SetKeepAlive_def SetMSL_def SetCwnd_def Let_def
      split: State.splits)
  have u: "snd_una (connStep a e) = snd_una a"
    using other_view(2) [OF assms(3), of a] by (cases e) (auto simp: Send_view)
  have "ackRun (within (snd_iss b) (rcv_nxt a)) (connStep a e)"
    by (rule acked.step) (use assms in \<open>cases e; simp add: confirmed_def\<close>)+
  then show ?thesis using assms(1,2) by (simp add: confirmed_def n u)
qed

lemma opened_confirmed:
  assumes "configured x" "configured y" "tsForward x" "unat (rcvBuffCap x) \<le> 1073741824"
    and "unat (rcvBuffCap y) \<le> 1073741824" "0 < rcvBuffCap y"
    and h: "handshake (ActiveOpen x i) (openPassive y j) = Some (a, b)"
  shows "confirmed a b \<and> confirmed b a"
proof -
  have l: "linked a [] [] b [] []" by (rule session_linked [OF session.opened [OF assms]])
  have iss: "snd_iss a = i" "snd_iss b = j"
    using h iss_dispatch unfolding handshake_def
    by (auto simp: ActiveOpen_def openPassive_def PassiveOpen_def Let_def split: Option.bind_splits)
  have r: "ready (j + 1) a" "ready (i + 1) b"
    using handshake_ready [OF assms(1,2,4-6,3), of i j] h by auto
  have una: "snd_una c = snd_iss c + 1" if "transmits c []" "state c = Established" for c
    using transmits_inv [OF that(1)] that(2) by (auto simp: streamInv_def)
  have "snd_una a = i + 1" "snd_una b = j + 1"
    using una l r by (simp_all add: linked_def ready_def iss)
  moreover have "ackRun (within j (j + 1)) a"
    by (rule ackRun_mono [OF handshake_acks(1) [OF assms(1,2,4-6,3) h]]) simp
  moreover have "ackRun (within i (i + 1)) b"
    by (rule ackRun_mono [OF handshake_acks(2) [OF assms(1,2,4-6,3) h]]) simp
  ultimately show ?thesis using r iss by (simp add: confirmed_def ready_def)
qed

lemma session_confirmed: "session a Wa Ga b Wb Gb \<Longrightarrow> confirmed a b \<and> confirmed b a"
proof (induction rule: session.induct)
  case (opened x y i j a b)
  then show ?case by (rule opened_confirmed)
next
  case (packet a Wa Ga b Wb Gb pkt a')
  then show ?case using confirmed_dispatch [OF session_linked [OF packet(1)]] by blast
next
  case (read a Wa Ga b Wb Gb n)
  then show ?case using confirmed_other [of a b "EvRecv n"] by simp
next
  case (event a Wa Ga b Wb Gb e)
  then show ?case by (intro confirmed_other) auto
qed blast

text \<open>Every byte written is with the peer or still in the buffer.\<close>

lemma session_keeps:
  assumes s: "session a Wa Ga b Wb Gb" and live: "state a \<noteq> Closed"
  shows "\<exists>n. Gb @ rcvBuf b @ drop n (sndBuf a) = Wa"
proof -
  have l: "linked a Wa Ga b Wb Gb" by (rule session_linked [OF s])
  then have r: "linked b Wb Gb a Wa Ga" by (auto simp: linked_def)
  note i = linked_recv [OF r]
  have w: "dist (snd_iss a + 1) (snd_una a) \<le> length (Gb @ rcvBuf b) + (if peerFin b then 1 else 0)"
    using session_confirmed [OF s] recv_position [OF i] by (simp add: confirmed_def within_def)
  have st: "state a \<in> dataStates \<union> closingStates"
    using live linked_recv(1) [OF l] by (cases "state a") (simp_all add: recvInv_def)
  have "transmits a Wa" using l by (simp add: linked_def)
  note lo = transmits_leftOver [OF this st]
  have pf: "prefix (Gb @ rcvBuf b) Wa" "peerFin b \<Longrightarrow> Gb @ rcvBuf b = Wa"
    using session_streams [OF s] i(1) by (auto simp: recvInv_def)
  then obtain R where R: "Wa = Gb @ rcvBuf b @ R" by (auto simp: prefix_def)
  have d: "dist (snd_iss a + 1) (snd_iss a + 1 + of_nat q) = q" if "q \<le> length Wa + 1" for q
    using dist_pos [of 0 q "snd_iss a + 1"] that i(2) by simp
  show ?thesis
    using lo
  proof (cases rule: leftOver_cases)
    case (rest k)
    have "k \<le> length (Gb @ rcvBuf b)"
    proof (cases "peerFin b")
      case False
      then show ?thesis using w d [of k] rest(1,3) by simp
    qed (use pf(2) rest(1) in simp)
    then have "drop (length (Gb @ rcvBuf b) - k) (sndBuf a) = R" unfolding rest(2) R by simp
    then show ?thesis unfolding R by blast
  next
    case all
    then have "length Wa \<le> length (Gb @ rcvBuf b)" using w d [of "length Wa + 1"] by (simp split: if_splits)
    then have "Gb @ rcvBuf b @ drop 0 (sndBuf a) = Wa" using R all by simp
    then show ?thesis by blast
  next
    case fresh
    then have "Gb @ rcvBuf b @ drop 0 (sndBuf a) = Wa" using R by simp
    then show ?thesis by blast
  qed
qed

section \<open>Properties\<close>



end
