(* ===== verification/Tcp_Recovery.thy ===== *)
theory Tcp_Recovery
  imports Tcp_Reliable Tcp_Delivery
begin

unbundle bit_operations_syntax

section \<open>The retransmission queue is enough\<close>

text \<open>
  Safety said that a byte is with the peer or in the send buffer; here is what brings the latter
  across. Whatever the network has lost of what one end of a session has sent: the segments in
  its retransmission queue, in any order and with any repetition, give the peer all of it, when
  what is in flight fits into the peer's window. It joins the specification of the queue
  (\<open>Tcp_SendStream\<close>), the invariant of a session (\<open>Tcp_Reliable\<close>) and the completeness of the
  reassembly (\<open>Tcp_Delivery\<close>).
\<close>

text \<open>Arrivals that are segments of the queue, all of them at least once, and reads in between.\<close>

definition redelivered :: "retxSeg list \<Rightarrow> rcvEvent list \<Rightarrow> bool" where
  "redelivered q es \<longleftrightarrow>
     (\<forall>h p. Text h p \<in> set es \<longrightarrow> (\<exists>r\<in>set q. SeqNum h = rsSeq r \<and> p = rsPayload r)) \<and>
     (\<forall>r\<in>set q. \<exists>h. Text h (rsPayload r) \<in> set es \<and> SeqNum h = rsSeq r)"

lemma chain_member: "chain s q e \<Longrightarrow> r \<in> set q \<Longrightarrow> rsFlags r = FlagPSH OR FlagACK \<and> rsPayload r \<noteq> []"
  by (induction q arbitrary: s) auto

lemma chain_covers:
  "chain s q e \<Longrightarrow> i < length (bytesOf q) \<Longrightarrow>
     \<exists>r\<in>set q. \<exists>j<length (rsPayload r). rsSeq r + of_nat j = s + of_nat i"
proof (induction q arbitrary: s i)
  case (Cons r q)
  let ?n = "length (rsPayload r)"
  show ?case
  proof (cases "i < ?n")
    case True
    then show ?thesis using Cons.prems(1) by auto
  next
    case False
    then have "i - ?n < length (bytesOf q)" "s + of_nat ?n + of_nat (i - ?n) = s + of_nat i"
      using Cons.prems(2) by (simp_all add: add.assoc flip: of_nat_add)
    with Cons.IH [of "s + of_nat ?n" "i - ?n"] Cons.prems(1) show ?thesis by auto
  qed
qed simp

lemma recv_length:
  assumes "recvInv b W c got"
  shows "length (got @ rcvBuf c) \<le> length W"
proof -
  have "\<exists>p. got @ rcvBuf c = take p W"
    using assms by (cases "peerFin c") (auto simp: recvInv_def intro: exI [of _ "length W"])
  then show ?thesis by (metis length_take min.cobounded1)
qed

text \<open>A run of genuine pieces is a genuine run of the reassembly.\<close>

lemma pieces_genuine:
  assumes "recvInv b W c got" "\<not> peerFin c" "length W < 1073741824" "extends S W"
    and "\<forall>h p. Text h p \<in> set es \<longrightarrow> piece b W (SeqNum h) p"
  shows "genuineRun b S (c, length (got @ rcvBuf c), out) es"
  using assms(1,2,5)
proof (induction es arbitrary: c got out)
  case (Cons e es)
  have st: "state c \<notin> preData" using Cons.prems(1) by (simp add: recvInv_def)
  obtain p where p: "p \<le> length W" "got @ rcvBuf c = take p W"
    using Cons.prems(1,2) by (auto simp: recvInv_def)
  then have len: "length (got @ rcvBuf c) \<le> length W" by simp
  show ?case
  proof (cases e)
    case (Text h pl)
    let ?d = "acceptText c h pl"
    have pc: "piece b W (SeqNum h) pl" using Cons.prems(3) Text by simp
    have d: "recvInv b W ?d got" by (rule recvInv_text [OF Cons.prems(1) assms(3)]) (use pc st in simp_all)
    have "dist (rcv_nxt c) (rcv_nxt ?d) = length (rcvBuf ?d) - length (rcvBuf c)"
    proof -
      have n: "rcv_nxt x = b + of_nat (length (got @ rcvBuf x))" if "recvInv b W x got" "\<not> peerFin x" for x
        using add_dist [of b "rcv_nxt x"] recv_position [OF that(1) assms(3)] that(2) by (simp del: length_append)
      have "rcv_nxt c = b + of_nat (length (got @ rcvBuf c))" "rcv_nxt ?d = b + of_nat (length (got @ rcvBuf ?d))"
        using n [OF Cons.prems(1,2)] n [OF d] Cons.prems(2) by simp_all
      moreover have "length (got @ rcvBuf ?d) \<le> length W"
        by (rule recv_length [OF d])
      ultimately show ?thesis using acceptText_grows [of c h pl] assms(3)
        by (simp only:) (subst dist_pos, simp_all)
    qed
    then have q: "length (got @ rcvBuf c) + dist (rcv_nxt c) (rcv_nxt ?d) = length (got @ rcvBuf ?d)"
      using acceptText_grows [of c h pl] by simp
    have "genuineRun b S (?d, length (got @ rcvBuf ?d), out) es"
      by (rule Cons.IH [OF d]) (use Cons.prems(2,3) in simp_all)
    then show ?thesis
      using piece_genuine [OF pc assms(4) len assms(3)]
      unfolding Text genuineRun.simps rcvStep.simps Let_def fst_conv snd_conv q rcvEvent.case by blast
  next
    case (Read n)
    let ?d = "snd (Recv c n)" and ?g = "got @ received (fst (Recv c n))"
    have "genuineRun b S (?d, length (?g @ rcvBuf ?d), out @ received (fst (Recv c n))) es"
      by (rule Cons.IH [OF recvInv_recv [OF Cons.prems(1)]]) (use Cons.prems(2,3) in simp_all)
    moreover have "?g @ rcvBuf ?d = got @ rcvBuf c" using Recv_data [of c n] by simp
    ultimately have "genuineRun b S (?d, length (got @ rcvBuf c), out @ received (fst (Recv c n))) es"
      by (simp only:)
    then show ?thesis using Read by (simp add: case_prod_unfold Let_def)
  qed
qed simp

text \<open>The sender's side: its queue holds pieces of the stream that cover what is in flight.\<close>

lemma queue_pieces:
  assumes t: "transmits a W" "state a \<in> dataStates" and r: "r \<in> set (retxQueue a)"
  shows "piece (snd_iss a + 1) W (rsSeq r) (rsPayload r)"
proof -
  note i = transmits_inv [OF t(1)]
  have "dataInv a" using i t(2) by (auto simp: streamInv_def sendInv_def)
  then obtain s where "chain s (retxQueue a) (snd_nxt a)" by (auto simp: dataInv_def restOf_def)
  then have f: "rsFlags r = FlagPSH OR FlagACK" "rsPayload r \<noteq> []"
    using chain_member [OF _ r] by blast+
  obtain fin where "textOk (snd_iss a + 1) W fin a" using i by (auto simp: streamInv_def)
  then have "okText (snd_iss a + 1) W fin (rsFlags r) (rsSeq r) (rsPayload r)"
    using r by (simp add: textOk_def fits_def)
  then show ?thesis using f by (simp add: okText_def Has_or)
qed

lemma queue_offers:
  assumes t: "transmits a W" "state a \<in> dataStates" and es: "redelivered (retxQueue a) es"
    and x: "length W - length (sndBuf a) \<le> x" "x < length W - length (sndBuf a) + inflight a"
  shows "offered (snd_iss a + 1) es x"
proof -
  let ?u = "length W - length (sndBuf a)"
  note i = transmits_inv [OF t(1)]
  have d: "dataInv a" and s: "suffix (sndBuf a) W"
    "snd_una a + of_nat (length (sndBuf a)) = snd_iss a + 1 + of_nat (length W)"
    using i t(2) by (auto simp: streamInv_def sendInv_def)
  obtain us where W: "W = us @ sndBuf a" using s(1) by (auto simp: suffix_def)
  have una: "snd_una a = snd_iss a + 1 + of_nat ?u" using s(2) by (simp add: W add.commute)
  obtain k where k: "chain (snd_una a - of_nat k) (retxQueue a) (snd_nxt a)"
    "drop k (bytesOf (retxQueue a)) = take (inflight a) (sndBuf a)" "k \<le> length (bytesOf (retxQueue a))"
    "inflight a \<le> length (sndBuf a)"
    using d by (auto simp: dataInv_def restOf_def)
  have len: "length (bytesOf (retxQueue a)) = k + inflight a" using arg_cong [OF k(2), of length] k(3,4) by simp
  have "k + (x - ?u) < length (bytesOf (retxQueue a))" using len x by simp
  then obtain r j where r: "r \<in> set (retxQueue a)" "j < length (rsPayload r)"
    "rsSeq r + of_nat j = snd_una a - of_nat k + of_nat (k + (x - ?u))"
    using chain_covers [OF k(1)] by blast
  have "snd_una a - of_nat k + of_nat (k + (x - ?u)) = snd_iss a + 1 + of_nat (?u + (x - ?u))"
    by (simp add: una)
  then have "rsSeq r + of_nat j = snd_iss a + 1 + of_nat x" using r(3) x(1) by simp
  moreover obtain h where "Text h (rsPayload r) \<in> set es" "SeqNum h = rsSeq r"
    using es r(1) by (auto simp: redelivered_def)
  ultimately show ?thesis
    using r(2) unfolding offered_def carries_def
    by (intro bexI [of _ "Text h (rsPayload r)"]) auto
qed

lemma queue_brings:
  assumes s: "session a Wa Ga b Wb Gb" and st: "state a \<in> dataStates" and fin: "\<not> peerFin b"
    and w: "inflight a \<le> unat (rcv_wnd b)" and es: "redelivered (retxQueue a) es"
  shows "case foldl rcvStep (b, length (Gb @ rcvBuf b), []) es of (d, q, out) \<Rightarrow>
    prefix (take (length Wa - length (sndBuf a) + inflight a) Wa) (Gb @ out @ rcvBuf d)"
proof -
  let ?b = "snd_iss a + 1" and ?p = "length (Gb @ rcvBuf b)" and ?u = "length Wa - length (sndBuf a)"
  define S where "S i = (if i < length Wa then Wa ! i else 0)" for i
  have S: "extends S Wa" unfolding S_def by (rule extends_pad)
  have l: "linked a Wa Ga b Wb Gb" by (rule session_linked [OF s])
  then have t: "transmits a Wa" and "linked b Wb Gb a Wa Ga" by (auto simp: linked_def)
  note i = linked_recv [OF this(2)]
  obtain p where p: "p \<le> length Wa" "rcvOK ?b S p b" "Gb @ rcvBuf b = take p Wa"
    using i(1) fin S by (auto simp: recvInv_def)
  have pos: "?p = p" using p(1,3) by simp
  have run: "rcvRunOK ?b S (length Gb) (b, ?p, [])"
  proof -
    have "rcvBuf b = take (p - length Gb) (drop (length Gb) Wa)"
      using arg_cong [OF p(3), of "drop (length Gb)"] by (simp add: drop_take)
    also have "\<dots> = chunk S (length Gb) (p - length Gb)"
      using pos p(1) by (intro chunk_extends [OF S, symmetric]) simp
    finally show ?thesis using p(2) i(1) pos by (simp add: rcvRunOK_def recvInv_def)
  qed
  have g: "genuineRun ?b S (b, ?p, []) es"
    using es queue_pieces [OF t st] by (intro pieces_genuine [OF i(1) fin i(2) S]) (fastforce simp: redelivered_def)
  have u: "?u \<le> p"
  proof -
    obtain n where n: "Gb @ rcvBuf b @ drop n (sndBuf a) = Wa" using session_keeps [OF s] st by auto
    show ?thesis using arg_cong [OF n, of length] pos by simp
  qed
  have fl: "inflight a \<le> length (sndBuf a)" "length (sndBuf a) \<le> length Wa"
    using transmits_inv [OF t] st by (auto simp: streamInv_def sendInv_def dataInv_def dest: suffix_length_le)
  obtain d q out where r: "foldl rcvStep (b, ?p, []) es = (d, q, out)" by (metis surj_pair)
  have "?u + inflight a \<le> fst (snd (foldl rcvStep (b, ?p, []) es))"
  proof (rule run_complete [OF run g])
    show "?u + inflight a \<le> ?p + unat (rcv_wnd b)" using u w pos by linarith
    show "offered ?b es x" if "?p \<le> x" "x < ?u + inflight a" for x
      using queue_offers [OF t st es] that u pos by simp
  qed
  then have q: "?u + inflight a \<le> q" by (simp only: r fst_conv snd_conv)
  have out: "out @ rcvBuf d = chunk S (length Gb) (q - length Gb)" "length Gb \<le> q"
    using rcvRun_OK [OF run g] unfolding r by (simp_all add: rcvRunOK_def)
  have "Gb = chunk S 0 (length Gb)"
  proof -
    have "Gb = take (length Gb) Wa" using arg_cong [OF p(3), of "take (length Gb)"] pos by (simp add: min_def)
    also have "\<dots> = chunk S 0 (length Gb)" using chunk_extends [OF S, of 0 "length Gb"] pos p(1) by simp
    finally show ?thesis .
  qed
  then have all: "Gb @ out @ rcvBuf d = chunk S 0 q"
    using chunk_join [of 0 "length Gb" q S] out by simp
  have "take (?u + inflight a) Wa = chunk S 0 (?u + inflight a)"
    using chunk_extends [OF S, of 0 "?u + inflight a"] fl by simp
  then show ?thesis using chunk_prefix [OF q, of S 0] unfolding r by (simp add: all)
qed

section \<open>Properties\<close>



end
