(* ===== verification/Tcp_Serve.thy ===== *)
theory Tcp_Serve
  imports Tcp_Events Tcp_Stack
begin

section \<open>The goroutines around a connection and a stack (recvloop.go, listener.go)\<close>

text \<open>
  \<open>ServeConn\<close> runs two goroutines on a connection, one that reads packets and one that ticks, and
  returns a function that stops both; a \<open>Stack\<close> does the same for all its connections. Each
  step here is what one goroutine does between two points where another may run: a call that
  takes the lock of the connection, an exit, one stage of the shutdown. Every answer of
  \<^theory_text>\<open>link.ReadPacket\<close> is a parameter of the step that gets it.

  The locale \<open>driver\<close> is the contract of such goroutines: they change what they drive only by
  its own operations. Both are interpreted on it, so whatever holds in every run of a connection
  or of a stack holds under the goroutines.
\<close>

locale driver =
  fixes step :: "'s \<Rightarrow> 's \<Rightarrow> bool" and core :: "'s \<Rightarrow> 'c" and move :: "'c \<Rightarrow> 'c \<Rightarrow> bool"
  assumes drives: "step s s' \<Longrightarrow> core s' = core s \<or> move (core s) (core s')"
begin

lemma core_run: "step\<^sup>*\<^sup>* s s' \<Longrightarrow> move\<^sup>*\<^sup>* (core s) (core s')"
proof (induction rule: rtranclp_induct)
  case (step y z)
  then show ?case using drives [of y z] by (metis rtranclp.rtrancl_into_rtrancl)
qed simp

lemma core_always:
  assumes "step\<^sup>*\<^sup>* s s'" "P (core s)" "\<And>x y. P x \<Longrightarrow> move x y \<Longrightarrow> P y"
  shows "P (core s')"
  using core_run [OF assms(1)] assms(2) by (induction rule: rtranclp_induct) (auto intro: assms(3))

end

subsection \<open>The receiver\<close>

text \<open>
  \<open>reading\<close> says that the goroutine of \<open>Start\<close> runs, \<open>linkCloses\<close> counts the calls of
  \<^theory_text>\<open>link.Close\<close>, \<open>rstopped\<close> is the \<^theory_text>\<open>sync.Once\<close> of \<open>Stop\<close>, \<open>rerr\<close> the field
  \<^theory_text>\<open>err\<close>.
\<close>

datatype readError = ReadError string

record receiver =
  rconn :: Conn
  reading :: bool
  linkCloses :: nat
  rstopped :: bool
  rerr :: "readError option"

definition newReceiver :: "Conn \<Rightarrow> receiver" where
  "newReceiver c = \<lparr>rconn = c, reading = False, linkCloses = 0, rstopped = False, rerr = None\<rparr>"

definition startReceiver :: "receiver \<Rightarrow> receiver" where
  "startReceiver r = r\<lparr>reading := True\<rparr>"

text \<open>One turn of the loop: the answer of \<^theory_text>\<open>ReadPacket\<close>, and what is done with it.\<close>

definition loopTurn :: "receiver \<Rightarrow> readError + byte list \<Rightarrow> receiver option" where
  "loopTurn r ans =
     (case ans of
        Inl e \<Rightarrow> Some (r\<lparr>reading := False\<rparr>)
      | Inr pkt \<Rightarrow> do { c \<leftarrow> dispatch (rconn r) pkt; Some (r\<lparr>rconn := c\<rparr>) })"

fun receiverLoop :: "receiver \<Rightarrow> (readError + byte list) list \<Rightarrow> receiver option" where
  "receiverLoop r [] = Some r"
| "receiverLoop r (ans # rest) =
     do { r \<leftarrow> loopTurn r ans; if reading r then receiverLoop r rest else Some r }"

text \<open>\<open>Stop\<close> up to its \<^theory_text>\<open>wg.Wait\<close>, which returns when \<open>reading\<close> is over.\<close>

definition stopReceiver :: "receiver \<Rightarrow> receiver" where
  "stopReceiver r = (if rstopped r then r else r\<lparr>rstopped := True, linkCloses := Suc (linkCloses r)\<rparr>)"

definition Err :: "receiver \<Rightarrow> readError option" where
  "Err r = rerr r"

lemma loopTurn_fields:
  assumes "loopTurn r ans = Some r'"
  shows "rerr r' = rerr r" "linkCloses r' = linkCloses r" "rstopped r' = rstopped r"
  using assms by (auto simp: loopTurn_def split: sum.splits bind_splits)

lemma loopTurn_total: "loopTurn r ans \<noteq> None"
  using dispatch_no_panic [of "rconn r"] by (cases ans) (simp_all add: loopTurn_def split: bind_splits)

text \<open>A packet is a segment for the connection, or nothing.\<close>

lemma dispatch_step: "dispatch c pkt = Some d \<Longrightarrow> d = c \<or> (\<exists>e. d = connStep c e)"
  by (auto simp: dispatch_def split: bind_splits option.splits)
    (metis connStep.simps(1))

lemma loopTurn_drives:
  "loopTurn r ans = Some r' \<Longrightarrow> rconn r' = rconn r \<or> (\<exists>e. rconn r' = connStep (rconn r) e)"
  using dispatch_step [of "rconn r"] by (fastforce simp: loopTurn_def split: sum.splits bind_splits)

text \<open>
  The loop handles the packets before the first error, in order, and nothing behind it.
\<close>

lemma loop_packets: "reading r \<Longrightarrow> receiverLoop r (map Inr pkts @ rest) =
    do { r \<leftarrow> receiverLoop r (map Inr pkts); receiverLoop r rest }"
proof (induction pkts arbitrary: r)
  case (Cons p ps)
  obtain c where c: "dispatch (rconn r) p = Some c" using dispatch_no_panic by blast
  then show ?case using Cons by (simp add: loopTurn_def)
qed simp

subsection \<open>\<open>ServeConn\<close> and its stop function\<close>

text \<open>
  The two goroutines and the stages of \<open>stop\<close>: after \<open>TickerOff\<close> the ticker is stopped and
  \<^theory_text>\<open>done\<close> closed, after \<open>LinkOff\<close> the tick goroutine has been waited for and the
  receiver's \<open>Stop\<close> has closed the link, after \<open>AllOff\<close> the reader has been waited for.
  \<open>pendingTick\<close> is the one tick that the channel of the ticker can hold; when both a tick and
  \<^theory_text>\<open>done\<close> are ready, \<^theory_text>\<open>select\<close> takes either. A second call of \<open>stop\<close> does nothing
  (\<^theory_text>\<open>sync.Once\<close>).
\<close>

datatype stopStage = Running | TickerOff | LinkOff | AllOff

text \<open>The stages are ordered, the last one being the return of \<open>stop\<close>.\<close>

definition stageLeft :: "stopStage \<Rightarrow> nat" where
  "stageLeft g = (case g of Running \<Rightarrow> 3 | TickerOff \<Rightarrow> 2 | LinkOff \<Rightarrow> 1 | AllOff \<Rightarrow> 0)"

lemma stageLeft_eq [simp]: "stageLeft g = stageLeft h \<longleftrightarrow> g = h"
  by (simp add: stageLeft_def split: stopStage.splits)

instantiation stopStage :: linorder
begin

definition less_eq_stopStage :: "stopStage \<Rightarrow> stopStage \<Rightarrow> bool" where
  "less_eq_stopStage g h \<longleftrightarrow> stageLeft h \<le> stageLeft g"

definition less_stopStage :: "stopStage \<Rightarrow> stopStage \<Rightarrow> bool" where
  "less_stopStage g h \<longleftrightarrow> stageLeft h < stageLeft g"

instance
  by intro_classes (auto simp: less_eq_stopStage_def less_stopStage_def intro: antisym)

end

record served = receiver +
  stage :: stopStage
  ticking :: bool
  pendingTick :: bool

definition ServeConn :: "Conn \<Rightarrow> served" where
  "ServeConn c = receiver.extend (startReceiver (newReceiver c))
     \<lparr>stage = Running, ticking = True, pendingTick = False\<rparr>"

definition serveRead :: "served \<Rightarrow> readError + byte list \<Rightarrow> served option" where
  "serveRead s ans =
     do { r \<leftarrow> loopTurn (receiver.truncate s) ans;
          Some (s\<lparr>rconn := rconn r, reading := reading r\<rparr>) }"

definition serveTick :: "served \<Rightarrow> served" where
  "serveTick s = s\<lparr>pendingTick := False, rconn := Tick (rconn s)\<rparr>"

text \<open>The stages of \<open>stop\<close>, each guarded by the wait that precedes it.\<close>

definition serveStop :: "served \<Rightarrow> served" where
  "serveStop s =
     (case stage s of
        Running \<Rightarrow> s\<lparr>stage := TickerOff\<rparr>
      | TickerOff \<Rightarrow>
          (if ticking s then s
           else let r = stopReceiver (receiver.truncate s)
                in s\<lparr>stage := LinkOff, rstopped := rstopped r, linkCloses := linkCloses r\<rparr>)
      | LinkOff \<Rightarrow> (if reading s then s else s\<lparr>stage := AllOff\<rparr>)
      | AllOff \<Rightarrow> s)"

inductive serveStep :: "served \<Rightarrow> served \<Rightarrow> bool" where
  fires: "stage s = Running \<Longrightarrow> serveStep s (s\<lparr>pendingTick := True\<rparr>)"
| ticks: "ticking s \<Longrightarrow> pendingTick s \<Longrightarrow> serveStep s (serveTick s)"
| tickExit: "ticking s \<Longrightarrow> stage s \<noteq> Running \<Longrightarrow> serveStep s (s\<lparr>ticking := False\<rparr>)"
| reads: "reading s \<Longrightarrow> serveRead s ans = Some s' \<Longrightarrow> serveStep s s'"
| stops: "serveStep s (serveStop s)"
| calls: "serveStep s (s\<lparr>rconn := connStep (rconn s) e\<rparr>)"

inductive connMoves :: "Conn \<Rightarrow> Conn \<Rightarrow> bool" where
  event: "connMoves c (connStep c e)"

lemma serveRead_fields:
  assumes "serveRead s ans = Some s'"
  shows "stage s' = stage s" "ticking s' = ticking s" "linkCloses s' = linkCloses s"
    "rstopped s' = rstopped s" "rerr s' = rerr s" "reading s' \<Longrightarrow> reading s"
    "rconn s' = rconn s \<or> connMoves (rconn s) (rconn s')"
  using assms loopTurn_drives [of "receiver.truncate s" ans]
  by (auto simp: serveRead_def receiver.truncate_def loopTurn_def intro: connMoves.intros
      split: bind_splits sum.splits)

lemma serveStop_conn [simp]: "rconn (serveStop s) = rconn s"
  by (simp add: serveStop_def Let_def split: stopStage.splits)

interpretation serve: driver serveStep rconn connMoves
proof
  fix s s' :: served
  assume "serveStep s s'"
  then show "rconn s' = rconn s \<or> connMoves (rconn s) (rconn s')"
  proof cases
    case ticks
    then show ?thesis using connMoves.event [of "rconn s" EvTick] by (simp add: serveTick_def)
  qed (auto simp: serveRead_fields(7) intro: connMoves.intros)
qed

text \<open>The shutdown: what each stage guarantees.\<close>

definition stageOK :: "served \<Rightarrow> bool" where
  "stageOK s \<longleftrightarrow> rerr s = None \<and>
     (rstopped s \<longleftrightarrow> stage s = LinkOff \<or> stage s = AllOff) \<and>
     linkCloses s = (if stage s = LinkOff \<or> stage s = AllOff then 1 else 0) \<and>
     (stage s = LinkOff \<or> stage s = AllOff \<longrightarrow> \<not> ticking s) \<and> (stage s = AllOff \<longrightarrow> \<not> reading s)"

lemma stageOK_step:
  assumes "serveStep s s'" "stageOK s"
  shows "stageOK s'"
  using assms(1)
proof cases
  case (reads ans)
  then show ?thesis
    using assms(2) serveRead_fields [OF reads(2)] by (auto simp: stageOK_def)
next
  case stops
  then show ?thesis
    using assms(2)
    by (cases "stage s") (auto simp: stageOK_def serveStop_def stopReceiver_def receiver.truncate_def)
qed (use assms(2) in \<open>auto simp: stageOK_def serveTick_def\<close>)

lemma stageOK_run: "serveStep\<^sup>*\<^sup>* (ServeConn c) s \<Longrightarrow> stageOK s"
proof (induction rule: rtranclp_induct)
  case base
  then show ?case
    by (simp add: stageOK_def ServeConn_def newReceiver_def startReceiver_def receiver.defs)
qed (rule stageOK_step)

text \<open>
  The work that is left until \<open>stop\<close> returns. No step adds to it, and until it is done one of
  the goroutines or \<open>stop\<close> itself can take a step that reduces it, once the link answers the
  pending \<^theory_text>\<open>ReadPacket\<close> with an error.
\<close>

definition stopWork :: "served \<Rightarrow> nat" where
  "stopWork s = stageLeft (stage s) + of_bool (ticking s) + of_bool (reading s)"

lemma stopWork_mono:
  assumes "serveStep s s'"
  shows "stopWork s' \<le> stopWork s"
  using assms
proof cases
  case (reads ans)
  then show ?thesis
    using serveRead_fields(1,2,6) [OF reads(2)] by (auto simp: stopWork_def)
next
  case stops
  then show ?thesis
    by (auto simp: stopWork_def serveStop_def stageLeft_def Let_def split: stopStage.splits)
qed (auto simp: stopWork_def serveTick_def)

text \<open>The stages only go forward.\<close>

lemma stage_forward:
  assumes "serveStep s s'"
  shows "stage s \<le> stage s'"
  using assms
proof cases
  case (reads ans)
  then show ?thesis using serveRead_fields(1) by simp
next
  case stops
  then show ?thesis
    by (simp add: serveStop_def less_eq_stopStage_def stageLeft_def Let_def split: stopStage.splits)
qed (simp_all add: serveTick_def)

lemma serveRead_error: "serveRead s (Inl e) = Some (s\<lparr>reading := False\<rparr>)"
  by (simp add: serveRead_def loopTurn_def receiver.truncate_def)

lemma stop_progress:
  assumes "stage s \<noteq> AllOff"
  shows "\<exists>s'. serveStep s s' \<and> stopWork s' < stopWork s"
proof -
  consider "stage s = TickerOff" "ticking s" | "stage s = LinkOff" "reading s"
    | "stage s = Running" | "stage s = TickerOff" "\<not> ticking s" | "stage s = LinkOff" "\<not> reading s"
    using assms by (cases "stage s") blast+
  then show ?thesis
  proof cases
    case 1
    then have "serveStep s (s\<lparr>ticking := False\<rparr>)" by (intro serveStep.tickExit) simp_all
    moreover have "stopWork (s\<lparr>ticking := False\<rparr>) < stopWork s" using 1 by (simp add: stopWork_def)
    ultimately show ?thesis by blast
  next
    case 2
    have "serveStep s (s\<lparr>reading := False\<rparr>)"
      by (rule serveStep.reads [OF 2(2) serveRead_error]) 
    moreover have "stopWork (s\<lparr>reading := False\<rparr>) < stopWork s" using 2 by (simp add: stopWork_def)
    ultimately show ?thesis by blast
  qed (rule exI [of _ "serveStop s"], rule conjI [OF serveStep.stops],
      simp add: stopWork_def serveStop_def stageLeft_def Let_def)+
qed

lemma stopped_is_quiet:
  assumes "stageOK s" "stage s = AllOff" "serveStep s s'"
  shows "s' = s \<or> (\<exists>e. s' = s\<lparr>rconn := connStep (rconn s) e\<rparr>)"
  using assms(3)
proof cases
  case stops
  then show ?thesis using assms(2) by (simp add: serveStop_def)
next
  case (calls e)
  then show ?thesis by blast
qed (use assms(1,2) in \<open>simp_all add: stageOK_def\<close>)

subsection \<open>The loops of a stack\<close>

text \<open>
  The tick goroutine of a stack takes a snapshot of the tracked connections, ticks them one by
  one, takes another snapshot and reaps the closed ones, all while packets arrive and the
  application calls. \<open>Close\<close> closes \<^theory_text>\<open>done\<close> (\<open>TickerOff\<close>), then the link (\<open>LinkOff\<close>), then
  waits for both goroutines (\<open>AllOff\<close>).
\<close>

datatype tickPhase = Waiting | TickingAll "connId list" | ReapingAll "connId list"

record stackDriver =
  stk :: Stack
  sstage :: stopStage
  srecv :: bool
  stickLoop :: bool
  spending :: bool
  sphase :: tickPhase
  slinkCloses :: nat

definition newDriver :: "(nat \<Rightarrow> time) \<Rightarrow> stackDriver" where
  "newDriver clock = \<lparr>stk = NewStack clock, sstage = Running, srecv = True, stickLoop = True,
     spending = False, sphase = Waiting, slinkCloses = 0\<rparr>"

definition recvTurn :: "stackDriver \<Rightarrow> readError + byte list \<Rightarrow> stackDriver option" where
  "recvTurn s ans =
     (case ans of
        Inl e \<Rightarrow> Some (s\<lparr>srecv := False\<rparr>)
      | Inr pkt \<Rightarrow> do { k \<leftarrow> demux (stk s) pkt; Some (s\<lparr>stk := k\<rparr>) })"

text \<open>What the tick goroutine does next; a snapshot lists the tracked connections in some order.\<close>

definition tickTurn :: "stackDriver \<Rightarrow> connId list \<Rightarrow> stackDriver" where
  "tickTurn s order =
     (case sphase s of
        Waiting \<Rightarrow>
          (if spending s then s\<lparr>spending := False, sphase := TickingAll order\<rparr> else s)
      | TickingAll (i # is) \<Rightarrow> s\<lparr>stk := onConn (stk s) i Tick, sphase := TickingAll is\<rparr>
      | TickingAll [] \<Rightarrow> s\<lparr>sphase := ReapingAll order\<rparr>
      | ReapingAll (i # is) \<Rightarrow> s\<lparr>stk := reapOne (stk s) i, sphase := ReapingAll is\<rparr>
      | ReapingAll [] \<Rightarrow> s\<lparr>sphase := Waiting\<rparr>)"

definition CloseStack :: "stackDriver \<Rightarrow> stackDriver" where
  "CloseStack s =
     (case sstage s of
        Running \<Rightarrow> s\<lparr>sstage := TickerOff\<rparr>
      | TickerOff \<Rightarrow> s\<lparr>sstage := LinkOff, slinkCloses := Suc (slinkCloses s)\<rparr>
      | LinkOff \<Rightarrow> (if srecv s \<or> stickLoop s then s else s\<lparr>sstage := AllOff\<rparr>)
      | AllOff \<Rightarrow> s)"

text \<open>What the application may do at any time.\<close>

inductive appStep :: "Stack \<Rightarrow> Stack \<Rightarrow> bool" where
  dial: "appStep s (fst (Dial s local remote iss))"
| listen: "appStep s (fst (ListenOn s local))"
| user: "appStep s (onConn s i (\<lambda>c. connStep c e))"
| accepting: "Accept s ch r s' \<Longrightarrow> appStep s s'"
| closing: "appStep s (CloseListener s local ch)"

inductive driverStep :: "stackDriver \<Rightarrow> stackDriver \<Rightarrow> bool" where
  fires: "stickLoop s \<Longrightarrow> driverStep s (s\<lparr>spending := True\<rparr>)"
| ticks: "stickLoop s \<Longrightarrow> distinct order \<Longrightarrow> set order = tracked (stk s) \<Longrightarrow>
    driverStep s (tickTurn s order)"
| tickExit: "stickLoop s \<Longrightarrow> sphase s = Waiting \<Longrightarrow> sstage s \<noteq> Running \<Longrightarrow>
    driverStep s (s\<lparr>stickLoop := False\<rparr>)"
| reads: "srecv s \<Longrightarrow> recvTurn s ans = Some s' \<Longrightarrow> driverStep s s'"
| stops: "driverStep s (CloseStack s)"
| calls: "appStep (stk s) k \<Longrightarrow> driverStep s (s\<lparr>stk := k\<rparr>)"

lemma appStep_stack: "appStep s s' \<Longrightarrow> stackStep s s'"
  by (induction rule: appStep.induct) (auto intro: stackStep.intros)

lemma reapOne_step: "stackStep s (reapOne s i)"
  using stackStep.ticking [of s "[]" "[i]"] by (simp add: tickRound_def reapClosed_def)

lemma tickOne_step: "stackStep s (onConn s i Tick)"
  using stackStep.user [of s i EvTick] by simp

lemma tickTurn_drives: "stk (tickTurn s order) = stk s \<or> stackStep (stk s) (stk (tickTurn s order))"
  by (auto simp: tickTurn_def intro: reapOne_step tickOne_step split: tickPhase.splits list.splits)

lemma recvTurn_fields:
  assumes "recvTurn s ans = Some s'"
  shows "stk s' = stk s \<or> stackStep (stk s) (stk s')" "sstage s' = sstage s" "stickLoop s' = stickLoop s"
    "slinkCloses s' = slinkCloses s" "sphase s' = sphase s" "srecv s' \<Longrightarrow> srecv s"
  using assms by (auto simp: recvTurn_def intro: stackStep.packet split: sum.splits bind_splits)

lemma tickTurn_fields [simp]:
  "sstage (tickTurn s order) = sstage s" "srecv (tickTurn s order) = srecv s"
  "slinkCloses (tickTurn s order) = slinkCloses s" "stickLoop (tickTurn s order) = stickLoop s"
  by (simp_all add: tickTurn_def split: tickPhase.splits list.splits)

lemma CloseStack_stk [simp]: "stk (CloseStack s) = stk s"
  by (simp add: CloseStack_def split: stopStage.splits)

interpretation stack: driver driverStep stk stackStep
proof
  fix s s' :: stackDriver
  assume "driverStep s s'"
  then show "stk s' = stk s \<or> stackStep (stk s) (stk s')"
  proof cases
    case (ticks order)
    then show ?thesis using tickTurn_drives by simp
  qed (auto simp: recvTurn_fields(1) dest: appStep_stack)
qed

lemma stackRun_star: "stackStep\<^sup>*\<^sup>* s s' \<Longrightarrow> stackRun s s'"
  by (induction rule: rtranclp_induct) (auto intro: stackRun.intros)

text \<open>So a stack under its goroutines is in a state of \<open>stackRun\<close>, and the invariants hold.\<close>

lemma driven_stack_runs:
  assumes "driverStep\<^sup>*\<^sup>* (newDriver clock) s"
  shows "stackRun (NewStack clock) (stk s)"
  using stackRun_star [OF stack.core_run [OF assms]] by (simp add: newDriver_def)

text \<open>Undisturbed, the turns of the tick goroutine add up to one \<open>tickRound\<close>.\<close>

fun tickTurns :: "nat \<Rightarrow> connId list \<Rightarrow> connId list \<Rightarrow> stackDriver \<Rightarrow> stackDriver" where
  "tickTurns 0 order order' s = s"
| "tickTurns (Suc n) order order' s =
     tickTurns n order order' (tickTurn s (if sphase s = Waiting then order else order'))"

lemma tickTurns_ticking:
  "sphase s = TickingAll is \<Longrightarrow> tickTurns (length is) order order' s =
     s\<lparr>stk := foldl (\<lambda>k i. onConn k i Tick) (stk s) is, sphase := TickingAll []\<rparr>"
  by (induction "is" arbitrary: s) (simp_all add: tickTurn_def)

lemma tickTurns_reaping:
  "sphase s = ReapingAll is \<Longrightarrow> tickTurns (length is) order order' s =
     s\<lparr>stk := reapClosed (stk s) is, sphase := ReapingAll []\<rparr>"
  by (induction "is" arbitrary: s) (simp_all add: tickTurn_def reapClosed_def)

lemma tickTurns_add: "tickTurns (m + n) x y s = tickTurns n x y (tickTurns m x y s)"
  by (induction m arbitrary: s) simp_all

lemma tickTurns_round:
  assumes "sphase s = Waiting" "spending s"
  shows "stk (tickTurns (length order + length order' + 3) order order' s) = tickRound (stk s) order order'"
proof -
  let ?a = "s\<lparr>spending := False, sphase := TickingAll order\<rparr>"
  let ?b = "?a\<lparr>stk := foldl (\<lambda>k i. onConn k i Tick) (stk s) order, sphase := TickingAll []\<rparr>"
  let ?c = "?b\<lparr>sphase := ReapingAll order'\<rparr>"
  have n: "length order + length order' + 3 = 1 + (length order + (1 + (length order' + 1)))" by simp
  have a: "tickTurns 1 order order' s = ?a" using assms by (simp add: tickTurn_def)
  have b: "tickTurns (length order) order order' ?a = ?b"
    by (subst tickTurns_ticking [of ?a order]) simp_all
  have c: "tickTurns 1 order order' ?b = ?c" by (simp add: tickTurn_def)
  have d: "tickTurns (length order') order order' ?c = ?c\<lparr>stk := tickRound (stk s) order order', sphase := ReapingAll []\<rparr>"
    by (subst tickTurns_reaping [of ?c order']) (simp_all add: tickRound_def)
  have "tickTurns (length order + length order' + 3) order order' s =
      tickTurns 1 order order' (tickTurns (length order') order order' ?c)"
    unfolding n tickTurns_add a b c ..
  then show ?thesis unfolding d by (simp add: tickTurn_def)
qed

subsection \<open>Closing a stack\<close>

definition closeOK :: "stackDriver \<Rightarrow> bool" where
  "closeOK s \<longleftrightarrow> slinkCloses s = (if sstage s = LinkOff \<or> sstage s = AllOff then 1 else 0) \<and>
     (sstage s = AllOff \<longrightarrow> \<not> srecv s \<and> \<not> stickLoop s)"

lemma closeOK_step:
  assumes "driverStep s s'" "closeOK s"
  shows "closeOK s'"
  using assms(1)
proof cases
  case (reads ans)
  then show ?thesis using assms(2) recvTurn_fields [OF reads(2)] by (auto simp: closeOK_def)
next
  case stops
  then show ?thesis
    using assms(2) by (cases "sstage s") (auto simp: closeOK_def CloseStack_def)
qed (use assms(2) in \<open>auto simp: closeOK_def\<close>)

lemma closeOK_run: "driverStep\<^sup>*\<^sup>* (newDriver clock) s \<Longrightarrow> closeOK s"
proof (induction rule: rtranclp_induct)
  case base
  then show ?case by (simp add: closeOK_def newDriver_def)
qed (rule closeOK_step)

lemma closed_stack_is_quiet:
  assumes "closeOK s" "sstage s = AllOff" "driverStep s s'"
  shows "s' = s \<or> (\<exists>k. appStep (stk s) k \<and> s' = s\<lparr>stk := k\<rparr>)"
  using assms(3)
proof cases
  case stops
  then show ?thesis using assms(2) by (simp add: CloseStack_def)
next
  case (calls k)
  then show ?thesis by blast
qed (use assms(1,2) in \<open>simp_all add: closeOK_def\<close>)

section \<open>Properties\<close>





end
