(* ===== verification/Cmd_Demo.thy ===== *)
theory Cmd_Demo
  imports Tcp_Serve Tcp_Transfer
begin

section \<open>The demo program (cmd/tcpdemo/main.go)\<close>

text \<open>
  The two flows of the demo, from the connection \<open>main\<close> has opened to the exit of the process.
  The goroutines of \<open>Serve\<close> run beside them: before every call the program makes on the
  connection, \<open>engineTurn\<close> lets them do the next list of operations (\<open>engine\<close>: segments that
  arrive, ticks). \<open>wall\<close> gives the readings of \<^theory_text>\<open>time.Now\<close> in their order. The log is the
  list of the messages; \<^theory_text>\<open>log.Fatalf\<close> is an outcome.
\<close>

subsection \<open>The state\<close>

datatype demoLog = LogWaiting State | LogEstablished | LogSent "byte list" nat | LogSendFailed sendError
  | LogReceived "byte list" | LogClosing | LogTimeWait | LogStillTimeWait bool | LogClosedAfter bool
  | LogClosed | LogMSL duration | LogOpened string

datatype demoFatal = NoHandshake State | NoTimeWait State bool | NoData State | NoPeerClose State
  | NotClosed State | BadMode string

datatype outcome = Exit | Fatal demoFatal

record demo =
  dconn :: Conn
  engine :: "nat \<Rightarrow> ConnEvent list"
  turns :: nat
  wall :: "nat \<Rightarrow> time"
  wallReads :: nat
  dlog :: "demoLog list"

definition engineTurn :: "demo \<Rightarrow> demo" where
  "engineTurn d = d\<lparr>dconn := foldl connStep (dconn d) (engine d (turns d)), turns := Suc (turns d)\<rparr>"

definition wallNow :: "demo \<Rightarrow> time" where
  "wallNow d = wall d (wallReads d)"

definition readWall :: "demo \<Rightarrow> demo" where
  "readWall d = d\<lparr>wallReads := Suc (wallReads d)\<rparr>"

definition logf :: "demo \<Rightarrow> demoLog \<Rightarrow> demo" where
  "logf d m = d\<lparr>dlog := dlog d @ [m]\<rparr>"

text \<open>A call on the connection: the goroutines first, then the call.\<close>

definition callConn :: "demo \<Rightarrow> (Conn \<Rightarrow> Conn) \<Rightarrow> demo" where
  "callConn d f = (let d = engineTurn d in d\<lparr>dconn := f (dconn d)\<rparr>)"

subsection \<open>Waiting\<close>

text \<open>
  The loop that \<open>waitEstablished\<close> and \<open>waitState\<close> share: \<open>p\<close> is what they look at. Every second
  they report the state. The sleep of 10 ms lets time pass, which the next reading of the clock
  shows.
\<close>

definition reportWait :: "time \<Rightarrow> demo \<Rightarrow> time \<times> demo" where
  "reportWait nextReport d =
     (if wallNow d > nextReport
      then let d = engineTurn (readWall d)
           in (nextReport + second, logf d (LogWaiting (state (dconn d))))
      else (nextReport, readWall d))"

partial_function (option) waitLoop :: "(Conn \<Rightarrow> bool) \<Rightarrow> time \<Rightarrow> time \<Rightarrow> demo \<Rightarrow> (bool \<times> demo) option" where
  "waitLoop p deadline nextReport d =
     (if wallNow d < deadline
      then if p (dconn (engineTurn (readWall d))) then Some (True, engineTurn (readWall d))
           else waitLoop p deadline (fst (reportWait nextReport (engineTurn (readWall d))))
             (snd (reportWait nextReport (engineTurn (readWall d))))
      else Some (p (dconn (engineTurn (readWall d))), engineTurn (readWall d)))"

definition waitFor :: "(Conn \<Rightarrow> bool) \<Rightarrow> demo \<Rightarrow> duration \<Rightarrow> (bool \<times> demo) option" where
  "waitFor p d timeout =
     (let deadline = wallNow d + timeout; d = readWall d;
          nextReport = wallNow d + 1 * second; d = readWall d
      in waitLoop p deadline nextReport d)"

definition waitEstablished :: "demo \<Rightarrow> duration \<Rightarrow> (bool \<times> demo) option" where
  "waitEstablished d timeout = waitFor reachedEstablished d timeout"

definition waitState :: "demo \<Rightarrow> State \<Rightarrow> duration \<Rightarrow> (bool \<times> demo) option" where
  "waitState d want timeout = waitFor (\<lambda>c. state c = want) d timeout"

subsection \<open>The client\<close>

definition helloFromClient :: "byte list" where
  "helloFromClient = [104, 101, 108, 108, 111, 32, 102, 114, 111, 109, 32, 99, 108, 105, 101, 110, 116, 10]"

definition waitClientClosed :: "demo \<Rightarrow> (outcome \<times> demo) option" where
  "waitClientClosed d = do {
     (ok, d) \<leftarrow> waitState d TimeWait (30 * second);
     if \<not> ok then
       (let d = engineTurn d; s = state (dconn d); d = engineTurn d
        in Some (Fatal (NoTimeWait s (reachedEstablished (dconn d))), d))
     else
       (let d = logf d LogTimeWait in do {
          (ok, d) \<leftarrow> waitState d Closed (300 * second);
          if \<not> ok then (let d = engineTurn d in Some (Exit, logf d (LogStillTimeWait (reachedEstablished (dconn d)))))
          else (let d = engineTurn d in Some (Exit, logf d (LogClosedAfter (reachedEstablished (dconn d))))) }) }"

definition runClient :: "demo \<Rightarrow> (outcome \<times> demo) option" where
  "runClient d = do {
     (ok, d) \<leftarrow> waitEstablished d (30 * second);
     if \<not> ok then (let d = engineTurn d in Some (Fatal (NoHandshake (state (dconn d))), d))
     else
       (let d = logf d LogEstablished;
            d = engineTurn d;
            (r, c) = Send (dconn d) helloFromClient;
            d = d\<lparr>dconn := c\<rparr>;
            d = (case r of Inl e \<Rightarrow> logf d (LogSendFailed e) | Inr n \<Rightarrow> logf d (LogSent helloFromClient n));
            d = logf d LogClosing
        in waitClientClosed (callConn d Close)) }"

subsection \<open>The server\<close>

text \<open>
  The polling loop: it stops at the deadline, in CLOSE-WAIT, or at the end of the stream. The
  second component collects \<^theory_text>\<open>received\<close>.
\<close>

definition pollRecv :: "demo \<Rightarrow> (recvError + byte list) \<times> demo" where
  "pollRecv d = (let d = engineTurn d; (r, c) = Recv (dconn d) 4096 in (r, d\<lparr>dconn := c\<rparr>))"

partial_function (option) recvLoop :: "time \<Rightarrow> demo \<Rightarrow> byte list \<Rightarrow> (byte list \<times> demo) option" where
  "recvLoop deadline d got =
     (if \<not> wallNow d < deadline then Some (got, readWall d)
      else if state (dconn (engineTurn (readWall d))) = CloseWait then Some (got, engineTurn (readWall d))
      else case fst (pollRecv (engineTurn (readWall d))) of
             Inl EOF \<Rightarrow> Some (got, snd (pollRecv (engineTurn (readWall d))))
           | Inr bs \<Rightarrow> recvLoop deadline (snd (pollRecv (engineTurn (readWall d)))) (got @ bs))"

definition waitClosed :: "demo \<Rightarrow> (outcome \<times> demo) option" where
  "waitClosed d = do {
     (ok, d) \<leftarrow> waitState d Closed (30 * second);
     if \<not> ok then (let d = engineTurn d in Some (Fatal (NotClosed (state (dconn d))), d))
     else Some (Exit, logf d LogClosed) }"

definition runServer :: "demo \<Rightarrow> (outcome \<times> demo) option" where
  "runServer d = do {
     (ok, d) \<leftarrow> waitEstablished d (30 * second);
     if \<not> ok then (let d = engineTurn d in Some (Fatal (NoHandshake (state (dconn d))), d))
     else
       (let d = logf d LogEstablished; deadline = wallNow d + 30 * second; d = readWall d in do {
          (received, d) \<leftarrow> recvLoop deadline d [];
          if \<not> length received > 0 then (let d = engineTurn d in Some (Fatal (NoData (state (dconn d))), d))
          else
            (let d = logf d (LogReceived received); d = engineTurn d in
             if state (dconn d) \<noteq> CloseWait
             then (let d = engineTurn d in Some (Fatal (NoPeerClose (state (dconn d))), d))
             else waitClosed (callConn (logf d LogClosing) Close)) }) }"

subsection \<open>The start\<close>

text \<open>
  \<open>main\<close> once it has a link: the connection, with the MSL of the flag, the goroutines of \<open>Serve\<close>
  (\<open>engine\<close>), and the flow of the mode. The ISS is the \<^theory_text>\<open>rand.Uint32\<close> of the client.
\<close>

definition startDemo :: "(nat \<Rightarrow> time) \<Rightarrow> Endpoint \<Rightarrow> Endpoint \<Rightarrow> duration \<Rightarrow> (nat \<Rightarrow> ConnEvent list) \<Rightarrow>
    (nat \<Rightarrow> time) \<Rightarrow> demo" where
  "startDemo clock local remote mslFlag g w =
     (let d = \<lparr>dconn = NewConn clock local remote, engine = g, turns = 0, wall = w, wallReads = 0, dlog = []\<rparr>
      in if mslFlag > 0 then logf (d\<lparr>dconn := SetMSL (dconn d) mslFlag\<rparr>) (LogMSL mslFlag) else d)"

definition runMode :: "string \<Rightarrow> u32 \<Rightarrow> demo \<Rightarrow> (outcome \<times> demo) option" where
  "runMode mode iss d =
     (if mode = ''server'' then runServer (logf (callConn d PassiveOpen) (LogOpened mode))
      else if mode = ''client'' then runClient (logf (callConn d (\<lambda>c. ActiveOpen c iss)) (LogOpened mode))
      else Some (Fatal (BadMode mode), d))"

subsection \<open>The clock and the engine\<close>

lemma demo_fields [simp]:
  "dconn (readWall d) = dconn d" "dconn (logf d m) = dconn d" "wall (readWall d) = wall d"
  "wall (logf d m) = wall d" "wall (engineTurn d) = wall d" "wallReads (engineTurn d) = wallReads d"
  "wallReads (readWall d) = Suc (wallReads d)" "wallReads (logf d m) = wallReads d"
  "engine (readWall d) = engine d" "engine (logf d m) = engine d" "engine (engineTurn d) = engine d"
  "dlog (readWall d) = dlog d" "dlog (engineTurn d) = dlog d" "dlog (logf d m) = dlog d @ [m]"
  by (simp_all add: readWall_def logf_def engineTurn_def)

text \<open>The texts that the server has reported.\<close>

fun receivedOf :: "demoLog \<Rightarrow> byte list list" where
  "receivedOf (LogReceived bs) = [bs]"
| "receivedOf m = []"

definition receivedLog :: "demo \<Rightarrow> byte list list" where
  "receivedLog d = concat (map receivedOf (dlog d))"

lemma receivedLog_simps [simp]:
  "receivedLog (readWall d) = receivedLog d" "receivedLog (engineTurn d) = receivedLog d"
  "receivedLog (logf d m) = receivedLog d @ receivedOf m"
  by (simp_all add: receivedLog_def)

lemma callConn_fields [simp]:
  "dconn (callConn d f) = f (dconn (engineTurn d))" "wall (callConn d f) = wall d"
  "engine (callConn d f) = engine d" "dlog (callConn d f) = dlog d"
  by (simp_all add: callConn_def Let_def)

lemma pollRecv_fields [simp]:
  "wall (snd (pollRecv d)) = wall d" "engine (snd (pollRecv d)) = engine d"
  "dlog (snd (pollRecv d)) = dlog d" "wallReads (snd (pollRecv d)) = wallReads d"
  "fst (pollRecv d) = fst (Recv (dconn (engineTurn d)) 4096)"
  "dconn (snd (pollRecv d)) = snd (Recv (dconn (engineTurn d)) 4096)"
  by (simp_all add: pollRecv_def Let_def case_prod_unfold)

lemma reportWait_fields [simp]:
  "wall (snd (reportWait t d)) = wall d" "wallReads (snd (reportWait t d)) = Suc (wallReads d)"
  "engine (snd (reportWait t d)) = engine d" "receivedLog (snd (reportWait t d)) = receivedLog d"
  by (simp_all add: reportWait_def Let_def)

text \<open>The clock passes every instant.\<close>

definition timePasses :: "(nat \<Rightarrow> time) \<Rightarrow> bool" where
  "timePasses w \<longleftrightarrow> (\<forall>t. \<exists>n. \<forall>m\<ge>n. t \<le> w m)"

text \<open>
  The contract with the goroutines: a property of the connection that each of their turns keeps.
  Waiting then keeps it too.
\<close>

locale engine_invariant =
  fixes Q :: "Conn \<Rightarrow> bool" and g :: "nat \<Rightarrow> ConnEvent list"
  assumes keeps: "Q c \<Longrightarrow> Q (foldl connStep c (g k))"
begin

definition holds :: "demo \<Rightarrow> bool" where
  "holds d \<longleftrightarrow> engine d = g \<and> Q (dconn d)"

lemma holds_simps [simp]:
  "holds (readWall d) = holds d" "holds (logf d m) = holds d"
  by (simp_all add: holds_def)

lemma holds_turn: "holds d \<Longrightarrow> holds (engineTurn d)"
  using keeps [of "dconn d" "turns d"] by (auto simp: holds_def engineTurn_def)

lemma holds_report: "holds d \<Longrightarrow> holds (snd (reportWait t d))"
  using holds_turn [of "readWall d"] by (simp add: reportWait_def Let_def)

lemma holds_waitLoop: "waitLoop p deadline t d = Some r \<Longrightarrow> holds d \<longrightarrow> holds (snd r)"
proof (rule waitLoop.raw_induct [of "\<lambda>p deadline t d r. holds d \<longrightarrow> holds (snd r)"], goal_cases)
  case (1 loop p deadline t d r)
  let ?e = "engineTurn (readWall d)"
  show ?case
  proof (cases "wallNow d < deadline \<and> \<not> p (dconn ?e)")
    case True
    then have "holds (snd (reportWait t ?e)) \<longrightarrow> holds (snd r)" using 1 by auto
    then show ?thesis by (simp add: holds_turn holds_report)
  next
    case False
    then show ?thesis using 1(3) holds_turn [of "readWall d"] by (auto split: if_splits)
  qed
qed

lemma holds_waitFor: "waitFor p d timeout = Some (b, e) \<Longrightarrow> holds d \<Longrightarrow> holds e"
  using holds_waitLoop [of p "wallNow d + timeout" "wallNow (readWall d) + 1 * second" "readWall (readWall d)" "(b, e)"]
  by (simp add: waitFor_def Let_def)

end

text \<open>What a wait tells: the state it saw last.\<close>

definition waited :: "(Conn \<Rightarrow> bool) \<Rightarrow> demo \<Rightarrow> bool \<times> demo \<Rightarrow> bool" where
  "waited p d r \<longleftrightarrow> fst r = p (dconn (snd r)) \<and> wall (snd r) = wall d \<and> engine (snd r) = engine d \<and>
     receivedLog (snd r) = receivedLog d"

lemma waitLoop_result: "waitLoop p deadline t d = Some r \<Longrightarrow> waited p d r"
proof (rule waitLoop.raw_induct [of "\<lambda>p deadline t d r. waited p d r"], goal_cases)
  case (1 loop p deadline t d r)
  let ?e = "engineTurn (readWall d)"
  show ?case
  proof (cases "wallNow d < deadline \<and> \<not> p (dconn ?e)")
    case True
    then have "waited p (snd (reportWait t ?e)) r" using 1 by auto
    then show ?thesis by (simp add: waited_def)
  next
    case False
    then show ?thesis using 1(3) by (auto simp: waited_def split: if_splits)
  qed
qed

lemma waitLoop_returns:
  assumes "\<And>m. n \<le> m \<Longrightarrow> deadline \<le> wall d m"
  shows "\<exists>r. waitLoop p deadline t d = Some r"
  using assms
proof (induction "n - wallReads d" arbitrary: t d rule: less_induct)
  case less
  show ?case
  proof (cases "wallReads d < n")
    case True
    let ?f = "reportWait t (engineTurn (readWall d))"
    have "\<exists>r. waitLoop p deadline (fst ?f) (snd ?f) = Some r"
      by (rule less.hyps) (use True less.prems in simp_all)
    then show ?thesis by (subst waitLoop.simps) auto
  next
    case False
    then have "\<not> wallNow d < deadline" using less.prems [of "wallReads d"] by (simp add: wallNow_def)
    then show ?thesis by (subst waitLoop.simps) simp
  qed
qed

lemma waitFor_total:
  assumes "timePasses (wall d)"
  shows "\<exists>e. waitFor p d timeout = Some (p (dconn e), e) \<and> wall e = wall d \<and> engine e = engine d \<and>
    receivedLog e = receivedLog d"
proof -
  let ?dl = "wallNow d + timeout"
  let ?d = "readWall (readWall d)"
  obtain n where "\<forall>m\<ge>n. ?dl \<le> wall d m" using assms by (auto simp: timePasses_def)
  then obtain r where r: "waitLoop p ?dl (wallNow (readWall d) + 1 * second) ?d = Some r"
    using waitLoop_returns [of n ?dl ?d] by (metis demo_fields(3))
  then have "waited p ?d r" by (rule waitLoop_result)
  then show ?thesis using r by (cases r) (simp add: waitFor_def Let_def waited_def)
qed

subsection \<open>Runs of the connection\<close>

lemma fold_moves: "connMoves\<^sup>*\<^sup>* c (foldl connStep c es)"
  by (induction es arbitrary: c) (auto intro: converse_rtranclp_into_rtranclp connMoves.event)

interpretation moves: engine_invariant "connMoves\<^sup>*\<^sup>* c0" g for c0 g
  by unfold_locales (metis fold_moves rtranclp_trans)

lemma waitFor_moves:
  assumes "waitFor p d timeout = Some (b, e)"
  shows "connMoves\<^sup>*\<^sup>* (dconn d) (dconn e)"
  using moves.holds_waitFor [OF assms, of "dconn d" "engine d"] by (simp add: moves.holds_def)

lemma engineTurn_moves: "connMoves\<^sup>*\<^sup>* (dconn d) (dconn (engineTurn d))"
  by (simp add: engineTurn_def fold_moves)

lemma call_moves:
  "connMoves\<^sup>*\<^sup>* (dconn d) (snd (Send (dconn (engineTurn d)) bs))"
  "connMoves\<^sup>*\<^sup>* (dconn d) (Close (dconn (engineTurn d)))"
  "connMoves\<^sup>*\<^sup>* (dconn d) (snd (Recv (dconn (engineTurn d)) n))"
proof -
  have "connMoves\<^sup>*\<^sup>* (dconn d) (connStep (dconn (engineTurn d)) e)" for e
    using engineTurn_moves [of d] connMoves.event by (rule rtranclp.rtrancl_into_rtrancl)
  from this [of "EvSend bs"] this [of EvClose] this [of "EvRecv n"]
  show "connMoves\<^sup>*\<^sup>* (dconn d) (snd (Send (dconn (engineTurn d)) bs))"
    "connMoves\<^sup>*\<^sup>* (dconn d) (Close (dconn (engineTurn d)))"
    "connMoves\<^sup>*\<^sup>* (dconn d) (snd (Recv (dconn (engineTurn d)) n))" by simp_all
qed

subsection \<open>The client\<close>

text \<open>
  The client exits normally only after a look at the connection that found it in TIME-WAIT.
\<close>

lemma waitClientClosed_outcome:
  assumes "timePasses (wall d)"
  shows "\<exists>r e. waitClientClosed d = Some (r, e) \<and>
    (r = Exit \<longrightarrow> (\<exists>c. connMoves\<^sup>*\<^sup>* (dconn d) c \<and> state c = TimeWait \<and> connMoves\<^sup>*\<^sup>* c (dconn e)))"
proof -
  obtain e where e: "waitState d TimeWait (30 * second) = Some (state (dconn e) = TimeWait, e)" "wall e = wall d"
    using waitFor_total [OF assms] unfolding waitState_def by blast
  obtain f where f: "waitState (logf e LogTimeWait) Closed (300 * second) = Some (state (dconn f) = Closed, f)"
    using waitFor_total [of "logf e LogTimeWait"] assms e(2) unfolding waitState_def demo_fields by metis
  have m: "connMoves\<^sup>*\<^sup>* (dconn d) (dconn e)" "connMoves\<^sup>*\<^sup>* (dconn e) (dconn f)"
    using waitFor_moves e(1) f unfolding waitState_def by force+
  have "connMoves\<^sup>*\<^sup>* (dconn e) (dconn (engineTurn f))"
    using m(2) engineTurn_moves [of f] by (rule rtranclp_trans)
  then show ?thesis using e(1) f m(1) by (simp add: waitClientClosed_def Let_def) blast
qed

lemma runClient_outcome:
  assumes "timePasses (wall d)"
  shows "\<exists>r e. runClient d = Some (r, e) \<and>
    (r = Exit \<longrightarrow> (\<exists>b c. connMoves\<^sup>*\<^sup>* (dconn d) b \<and> reachedEstablished b \<and> connMoves\<^sup>*\<^sup>* b c \<and>
       state c = TimeWait \<and> connMoves\<^sup>*\<^sup>* c (dconn e)))"
proof -
  obtain e where e: "waitEstablished d (30 * second) = Some (reachedEstablished (dconn e), e)" "wall e = wall d"
    using waitFor_total [OF assms] unfolding waitEstablished_def by blast
  have m: "connMoves\<^sup>*\<^sup>* (dconn d) (dconn e)"
    using waitFor_moves e(1) unfolding waitEstablished_def by blast
  show ?thesis
  proof (cases "reachedEstablished (dconn e)")
    case False
    then show ?thesis using e(1) by (simp add: runClient_def Let_def)
  next
    case True
    let ?t = "engineTurn (logf e LogEstablished)"
    let ?s = "?t\<lparr>dconn := snd (Send (dconn ?t) helloFromClient)\<rparr>"
    define g where "g = callConn (logf (case fst (Send (dconn ?t) helloFromClient) of
        Inl x \<Rightarrow> logf ?s (LogSendFailed x) | Inr n \<Rightarrow> logf ?s (LogSent helloFromClient n)) LogClosing) Close"
    have r: "runClient d = waitClientClosed g"
      using e(1) True by (simp add: runClient_def Let_def case_prod_unfold g_def)
    have g: "wall g = wall d" "connMoves\<^sup>*\<^sup>* (dconn e) (dconn g)"
    proof -
      show "wall g = wall d" by (simp add: g_def e(2) split: sum.splits)
      let ?l = "logf (case fst (Send (dconn ?t) helloFromClient) of
        Inl x \<Rightarrow> logf ?s (LogSendFailed x) | Inr n \<Rightarrow> logf ?s (LogSent helloFromClient n)) LogClosing"
      have "dconn ?l = snd (Send (dconn ?t) helloFromClient)" by (simp split: sum.splits)
      then have "connMoves\<^sup>*\<^sup>* (dconn e) (dconn ?l)"
        using call_moves(1) [of "logf e LogEstablished"] by simp
      then show "connMoves\<^sup>*\<^sup>* (dconn e) (dconn g)"
        using call_moves(2) [of ?l] unfolding g_def callConn_fields by (rule rtranclp_trans)
    qed
    obtain x y where "waitClientClosed g = Some (x, y)"
      "x = Exit \<longrightarrow> (\<exists>c. connMoves\<^sup>*\<^sup>* (dconn g) c \<and> state c = TimeWait \<and> connMoves\<^sup>*\<^sup>* c (dconn y))"
      using waitClientClosed_outcome [of g] assms g(1) by auto
    then show ?thesis using r m True g(2) by (metis rtranclp_trans)
  qed
qed

subsection \<open>The server\<close>

lemma recvLoop_returns:
  assumes "\<And>m. n \<le> m \<Longrightarrow> deadline \<le> wall d m"
  shows "\<exists>r. recvLoop deadline d got = Some r"
  using assms
proof (induction "n - wallReads d" arbitrary: d got rule: less_induct)
  case less
  show ?case
  proof (cases "wallReads d < n")
    case True
    let ?f = "snd (pollRecv (engineTurn (readWall d)))"
    have "\<exists>r. recvLoop deadline ?f (got @ bs) = Some r" for bs
      by (rule less.hyps) (use True less.prems in simp_all)
    then show ?thesis
      by (subst recvLoop.simps) (auto split: sum.splits recvError.splits)
  next
    case False
    then have "\<not> wallNow d < deadline" using less.prems [of "wallReads d"] by (simp add: wallNow_def)
    then show ?thesis by (subst recvLoop.simps) simp
  qed
qed

text \<open>What the goroutines do when all packets come from \<open>net\<close>.\<close>

fun fromNet :: "byte list set \<Rightarrow> ConnEvent \<Rightarrow> bool" where
  "fromNet net (EvSegment h p) = (\<exists>pkt\<in>net. \<exists>ip. decodePacket pkt = Some (Some (ip, h, p)))"
| "fromNet net e = quietEvent e"

definition engineFrom :: "byte list set \<Rightarrow> (nat \<Rightarrow> ConnEvent list) \<Rightarrow> bool" where
  "engineFrom net g \<longleftrightarrow> (\<forall>k. \<forall>e\<in>set (g k). fromNet net e)"

lemma receives_event: "receives net b c got \<Longrightarrow> fromNet net e \<Longrightarrow> receives net b (connStep c e) got"
proof (cases e)
  case (EvSegment h p)
  assume "receives net b c got" "fromNet net e"
  then obtain pkt ip where "pkt \<in> net" "decodePacket pkt = Some (Some (ip, h, p))" using EvSegment by auto
  then have "pkt \<in> net" "dispatch c pkt = Some (onSegment c h p)" by (simp_all add: dispatch_def)
  then show ?thesis using \<open>receives net b c got\<close> EvSegment by (auto intro: receives.packet)
qed (use receives.quiet [of net b c got e] in \<open>auto simp del: connStep.simps\<close>)

lemma receives_fold:
  "receives net b c got \<Longrightarrow> \<forall>e\<in>set es. fromNet net e \<Longrightarrow> receives net b (foldl connStep c es) got"
  by (induction es arbitrary: c) (simp_all add: receives_event)

interpretation received: engine_invariant "\<lambda>c. engineFrom net g \<longrightarrow> receives net b c got" g for net g b got
  by unfold_locales (auto simp: engineFrom_def intro: receives_fold)

lemma turn_receives:
  "engineFrom net (engine d) \<Longrightarrow> receives net b (dconn d) got \<Longrightarrow> receives net b (dconn (engineTurn d)) got"
  using received.holds_turn [of net "engine d" b got d] unfolding received.holds_def by simp

lemma waitFor_receives:
  assumes "waitFor p d timeout = Some (x, e)" "engineFrom net (engine d)" "receives net b (dconn d) got"
  shows "receives net b (dconn e) got" "engine e = engine d"
  using received.holds_waitFor [OF assms(1), of net "engine d" b got] assms(2,3)
  unfolding received.holds_def by simp_all

lemma recvLoop_receives:
  "recvLoop deadline d got = Some r \<Longrightarrow> engineFrom net (engine d) \<longrightarrow> receives net b (dconn d) got \<longrightarrow>
     receives net b (dconn (snd r)) (fst r) \<and> engine (snd r) = engine d \<and> dlog (snd r) = dlog d \<and> wall (snd r) = wall d"
proof (rule recvLoop.raw_induct [of "\<lambda>deadline d got r. engineFrom net (engine d) \<longrightarrow>
    receives net b (dconn d) got \<longrightarrow> receives net b (dconn (snd r)) (fst r) \<and> engine (snd r) = engine d \<and>
    dlog (snd r) = dlog d \<and> wall (snd r) = wall d"], goal_cases)
  case (1 loop deadline d got r)
  let ?d = "engineTurn (readWall d)"
  let ?f = "snd (pollRecv ?d)"
  show ?case
  proof (intro impI)
    assume e: "engineFrom net (engine d)" and r: "receives net b (dconn d) got"
    have d: "receives net b (dconn ?d) got" using turn_receives [of net "readWall d"] e r by simp
    have "receives net b (dconn (engineTurn ?d)) got" using turn_receives [of net ?d] e d by simp
    from receives.read [OF this, of 4096]
    have f: "receives net b (dconn ?f) (got @ received (fst (pollRecv ?d)))" by simp
    consider "\<not> wallNow d < deadline" "r = (got, readWall d)"
      | "state (dconn ?d) = CloseWait" "r = (got, ?d)"
      | "fst (pollRecv ?d) = Inl EOF" "r = (got, ?f)"
      | bs where "fst (pollRecv ?d) = Inr bs" "loop deadline ?f (got @ bs) = Some r"
      using 1(3) by (auto split: if_splits sum.splits recvError.splits)
    then show "receives net b (dconn (snd r)) (fst r) \<and> engine (snd r) = engine d \<and> dlog (snd r) = dlog d \<and> wall (snd r) = wall d"
    proof cases
      case 4
      then show ?thesis using 1(2) [OF 4(2)] f e by (simp add: received_def)
    qed (use r d f in \<open>simp_all add: received_def\<close>)
  qed
qed

lemma runServer_outcome:
  assumes "timePasses (wall d)" "engineFrom net (engine d)" "receives net b (dconn d) []"
  shows "\<exists>r e. runServer d = Some (r, e) \<and> (r = Exit \<longrightarrow> state (dconn e) = Closed) \<and>
    (receivedLog e = receivedLog d \<and> r \<noteq> Exit \<or>
     (\<exists>got c. receivedLog e = receivedLog d @ [got] \<and> got \<noteq> [] \<and> receives net b c got))"
proof -
  obtain e where e: "waitEstablished d (30 * second) = Some (reachedEstablished (dconn e), e)" "wall e = wall d"
    "engine e = engine d" "receivedLog e = receivedLog d"
    using waitFor_total [OF assms(1)] unfolding waitEstablished_def by blast
  have re: "receives net b (dconn e) []"
    using waitFor_receives(1) [OF _ assms(2,3)] e(1) unfolding waitEstablished_def by blast
  show ?thesis
  proof (cases "reachedEstablished (dconn e)")
    case False
    then show ?thesis using e(1,4) by (simp add: runServer_def Let_def)
  next
    case True
    let ?l = "readWall (logf e LogEstablished)"
    let ?dl = "wallNow (logf e LogEstablished) + 30 * second"
    obtain n where "\<forall>m\<ge>n. ?dl \<le> wall d m" using assms(1) unfolding timePasses_def by blast
    then obtain got f where f: "recvLoop ?dl ?l [] = Some (got, f)"
      using recvLoop_returns [of n ?dl ?l "[]"] e(2) by fastforce
    have rf: "receives net b (dconn f) got" "engine f = engine d" "dlog f = dlog ?l" "wall f = wall d"
      using recvLoop_receives [OF f, of net b] assms(2) re e(2,3) by simp_all
    have lf: "receivedLog f = receivedLog d"
      using rf(3) e(4) by (simp add: receivedLog_def)
    let ?k = "engineTurn (logf f (LogReceived got))"
    let ?g = "callConn (logf ?k LogClosing) Close"
    have u: "runServer d = (if got = [] then Some (Fatal (NoData (state (dconn (engineTurn f)))), engineTurn f)
        else if state (dconn ?k) \<noteq> CloseWait
        then Some (Fatal (NoPeerClose (state (dconn (engineTurn ?k)))), engineTurn ?k) else waitClosed ?g)"
      using e(1) True f by (simp add: runServer_def Let_def)
    have lg: "receivedLog ?g = receivedLog d @ [got]" "wall ?g = wall d"
      using lf rf(4) by (simp_all add: receivedLog_def)
    obtain h where h: "waitState ?g Closed (30 * second) = Some (state (dconn h) = Closed, h)"
      "receivedLog h = receivedLog d @ [got]"
      using waitFor_total [of ?g] assms(1) lg unfolding waitState_def by metis
    have w: "waitClosed ?g = (if state (dconn h) = Closed then Some (Exit, logf h LogClosed)
        else Some (Fatal (NotClosed (state (dconn (engineTurn h)))), engineTurn h))"
      using h(1) by (simp add: waitClosed_def Let_def)
    show ?thesis
      unfolding u w using lf h(2) rf(1) by auto
  qed
qed

text \<open>
  When the text and the FIN both arrive between two looks, the polling loop sees CLOSE-WAIT and
  leaves without reading.
\<close>

lemma recvLoop_closeWait:
  "wallNow d < deadline \<Longrightarrow> state (dconn (engineTurn (readWall d))) = CloseWait \<Longrightarrow>
     recvLoop deadline d got = Some (got, engineTurn (readWall d))"
  by (subst recvLoop.simps) simp

lemma waitFor_now:
  "wallNow (readWall (readWall d)) < wallNow d + timeout \<Longrightarrow> p (dconn (engineTurn (readWall (readWall (readWall d))))) \<Longrightarrow>
     waitFor p d timeout = Some (True, engineTurn (readWall (readWall (readWall d))))"
  unfolding waitFor_def Let_def by (subst waitLoop.simps) simp

lemma idle_turn: "engine d = (\<lambda>_. []) \<Longrightarrow> dconn (engineTurn d) = dconn d"
  by (simp add: engineTurn_def)

lemma runServer_misses:
  assumes "state (dconn d) = CloseWait" "reachedEstablished (dconn d)" "engine d = (\<lambda>_. [])"
    and w: "\<And>n. wall d (Suc n) < wall d n + 10 * second"
  shows "\<exists>e. runServer d = Some (Fatal (NoData CloseWait), e) \<and> dconn e = dconn d"
proof -
  let ?a = "engineTurn (readWall (readWall (readWall d)))"
  let ?b = "logf ?a LogEstablished"
  let ?c = "engineTurn (readWall (readWall ?b))"
  have "wallNow (readWall (readWall d)) < wallNow d + 30 * second"
    using w [of "wallReads d"] w [of "Suc (wallReads d)"] by (simp add: wallNow_def second_def)
  then have a: "waitEstablished d (30 * second) = Some (True, ?a)"
    unfolding waitEstablished_def using assms(2,3) by (intro waitFor_now) (simp_all add: idle_turn)
  have "wallNow (readWall ?b) < wallNow ?b + 30 * second"
    using w [of "wallReads ?b"] by (simp add: wallNow_def second_def)
  then have c: "recvLoop (wallNow ?b + 30 * second) (readWall ?b) [] = Some ([], ?c)"
    by (rule recvLoop_closeWait) (simp add: idle_turn assms(1,3))
  show ?thesis
    using a c assms(1,3) by (simp add: runServer_def Let_def idle_turn)
qed

section \<open>Properties\<close>



text \<open>
  C9: a race in the demo server. If the connection is already in CLOSE-WAIT when the polling
  loop looks for the first time, the loop ends before any \<open>Recv\<close>:
  \<open>runServer\<close> ends with the fatal message that not a single byte was received,
  and the text is still in the receive buffer.
\<close>

theorem demo_server_leaves_text_unread:
  assumes "state (dconn d) = CloseWait" "reachedEstablished (dconn d)" "engine d = (\<lambda>_. [])"
    and "\<And>n. wall d (Suc n) < wall d n + 10 * second"
  shows "case runServer d of
     None \<Rightarrow> False
   | Some (r, e) \<Rightarrow> r = Fatal (NoData CloseWait) \<and> rcvBuf (dconn e) = rcvBuf (dconn d)"
  using runServer_misses [OF assms] by auto

theorem demo_server_leaves_text_unread_witness:
  "case runServer \<lparr>dconn = demoConn\<lparr>state := CloseWait, reachedEstablished := True, rcvBuf := [104, 105]\<rparr>,
     engine = (\<lambda>_. []), turns = 0, wall = (\<lambda>n. int n), wallReads = 0, dlog = []\<rparr> of
     None \<Rightarrow> False
   | Some (r, e) \<Rightarrow> r = Fatal (NoData CloseWait) \<and> rcvBuf (dconn e) = [104, 105]"
  using demo_server_leaves_text_unread [of "\<lparr>dconn = demoConn\<lparr>state := CloseWait, reachedEstablished := True,
      rcvBuf := [104, 105]\<rparr>, engine = (\<lambda>_. []), turns = 0, wall = (\<lambda>n. int n), wallReads = 0, dlog = []\<rparr>"]
  by (auto simp: second_def split: option.splits)

end
