(* ===== verification/Cmd_Main.thy ===== *)
theory Cmd_Main
  imports Cmd_Demo Link_Tun Link_Datagram
begin

section \<open>The two programs (cmd/tcpdemo/main.go, cmd/rendezvous/main.go)\<close>

text \<open>
  From the parsed flags to the flows of \<open>Cmd_Demo\<close>: the addresses and ports, the choice of the
  link, the messages of the failures. The values of the flags are a record (what
  \<^theory_text>\<open>flag.Parse\<close> leaves in its variables); the answers of the kernel are a
  record as well. The first part is what the programs use of Go's \<^theory_text>\<open>net\<close>:
  \<open>ParseIP\<close> with \<open>To4\<close>, and \<open>SplitHostPort\<close>.
\<close>

subsection \<open>net.ParseIP\<close>

definition v4Octet :: "byte list \<Rightarrow> byte option" where
  "v4Octet s =
     (if s = [] \<or> \<not> list_all isDigit s \<or> (hd s = 48 \<and> length s \<noteq> 1) \<or> digitsVal 0 s > 255 then None
      else Some (of_nat (digitsVal 0 s)))"

definition parseV4 :: "byte list \<Rightarrow> ip4 option" where
  "parseV4 s = (case map v4Octet (SplitByte 46 s) of
     [Some p, Some q, Some r, Some t] \<Rightarrow> Some (p, q, r, t) | _ \<Rightarrow> None)"

definition hexDigit :: "byte \<Rightarrow> nat option" where
  "hexDigit c =
     (if isDigit c then Some (unat c - 48)
      else if 97 \<le> unat c \<and> unat c \<le> 102 then Some (unat c - 87)
      else if 65 \<le> unat c \<and> unat c \<le> 70 then Some (unat c - 55)
      else None)"

definition hexVal :: "byte list \<Rightarrow> nat" where
  "hexVal s = foldl (\<lambda>v c. 16 * v + (case hexDigit c of Some d \<Rightarrow> d | None \<Rightarrow> 0)) 0 s"

lemma dropWhile_shorter: "dropWhile p s = c # r \<Longrightarrow> length r < length s"
  using length_dropWhile_le [of p s] by simp

text \<open>
  The groups of an IPv6 address: \<open>ip\<close> holds the bytes read so far, \<open>ell\<close> the place of the
  \<^theory_text>\<open>::\<close>. The last four bytes can be a dotted IPv4 address.
\<close>

function v6Groups :: "byte list \<Rightarrow> nat option \<Rightarrow> byte list \<Rightarrow> (byte list \<times> nat option) option" where
  "v6Groups ip ell s =
     (if length ip \<ge> 16 then (if s = [] then Some (ip, ell) else None)
      else
        (let g = takeWhile (\<lambda>c. hexDigit c \<noteq> None) s; r = dropWhile (\<lambda>c. hexDigit c \<noteq> None) s in
         if g = [] \<or> length g > 4 then None
         else if r \<noteq> [] \<and> hd r = 46
         then (if (ell = None \<and> length ip \<noteq> 12) \<or> length ip + 4 > 16 then None
               else (case parseV4 s of None \<Rightarrow> None | Some a \<Rightarrow> Some (ip @ ip4_list a, ell)))
         else
           (let ip = ip @ [of_nat (hexVal g div 256), of_nat (hexVal g mod 256)] in
            case r of
              [] \<Rightarrow> Some (ip, ell)
            | c # r \<Rightarrow>
                if c \<noteq> 58 \<or> r = [] then None
                else if hd r \<noteq> 58 then v6Groups ip ell r
                else if ell \<noteq> None then None
                else if tl r = [] then Some (ip, Some (length ip))
                else v6Groups ip (Some (length ip)) (tl r))))"
  by pat_completeness auto

termination
  by (relation "measure (\<lambda>(ip, ell, s). length s)")
    (auto dest!: dropWhile_shorter [OF HOL.sym] intro: le_less_trans)

declare v6Groups.simps [simp del]

definition parseV6 :: "byte list \<Rightarrow> byte list option" where
  "parseV6 s =
     (let lead = prefix [58, 58] s; t = (if lead then drop 2 s else s) in
      if 37 \<in> set s then None
      else if lead \<and> t = [] then Some (replicate 16 0)
      else case v6Groups [] (if lead then Some 0 else None) t of
          None \<Rightarrow> None
        | Some (ip, ell) \<Rightarrow>
            (if length ip < 16
             then (case ell of
                     None \<Rightarrow> None
                   | Some e \<Rightarrow> Some (take e ip @ replicate (16 - length ip) 0 @ drop e ip))
             else if ell \<noteq> None then None else Some ip))"

text \<open>The 16-byte form, in which an IPv4 address is mapped, and \<^theory_text>\<open>To4\<close>.\<close>

definition mappedPrefix :: "byte list" where
  "mappedPrefix = replicate 10 0 @ [255, 255]"

definition ParseIP :: "byte list \<Rightarrow> byte list option" where
  "ParseIP s = (case List.find (\<lambda>c. c = 46 \<or> c = 58 \<or> c = 37) s of
     None \<Rightarrow> None
   | Some c \<Rightarrow>
       if c = 46 then map_option (\<lambda>a. mappedPrefix @ ip4_list a) (parseV4 s)
       else if c = 58 then parseV6 s
       else None)"

definition To4 :: "byte list \<Rightarrow> ip4 option" where
  "To4 ip = (if prefix mappedPrefix ip then ip4_at ip 12 else None)"

subsection \<open>net.SplitHostPort\<close>

definition indexOf :: "byte \<Rightarrow> byte list \<Rightarrow> nat option" where
  "indexOf c s = (if c \<in> set s then Some (length (takeWhile (\<lambda>x. x \<noteq> c) s)) else None)"

definition lastIndexOf :: "byte \<Rightarrow> byte list \<Rightarrow> nat option" where
  "lastIndexOf c s = map_option (\<lambda>i. length s - 1 - i) (indexOf c (rev s))"

definition SplitHostPort :: "byte list \<Rightarrow> (byte list \<times> byte list) option" where
  "SplitHostPort s =
     (case lastIndexOf 58 s of
        None \<Rightarrow> None
      | Some i \<Rightarrow>
          (if hd s = 91
           then (case indexOf 93 s of
                   None \<Rightarrow> None
                 | Some e \<Rightarrow>
                     if e + 1 \<noteq> i \<or> 91 \<in> set (drop 1 s) \<or> 93 \<in> set (drop (e + 1) s) then None
                     else Some (drop 1 (take e s), drop (i + 1) s))
           else if 58 \<in> set (take i s) \<or> 91 \<in> set s \<or> 93 \<in> set s then None
           else Some (take i s, drop (i + 1) s)))"

subsection \<open>Addresses and ports of the flags\<close>

datatype startFatal = BadAddress "byte list" | BadHostPort "byte list" | BadPort "byte list"
  | NoTUN tunError | NoUDP sockError | NoUnix sockError | NoPunch punchError | BadLink string

definition parseIP :: "byte list \<Rightarrow> startFatal + ip4" where
  "parseIP s = (case ParseIP s of
     None \<Rightarrow> Inl (BadAddress s)
   | Some ip \<Rightarrow> (case To4 ip of None \<Rightarrow> Inl (BadAddress s) | Some v4 \<Rightarrow> Inr v4))"

definition parseHostPort :: "byte list \<Rightarrow> startFatal + ip4 \<times> u16" where
  "parseHostPort s =
     (case SplitHostPort s of
        None \<Rightarrow> Inl (BadHostPort s)
      | Some (host, portStr) \<Rightarrow>
          (case ParseUint 65535 portStr of
             None \<Rightarrow> Inl (BadPort portStr)
           | Some p \<Rightarrow>
               (case parseIP host of Inl e \<Rightarrow> Inl e | Inr ip \<Rightarrow> Inr (ip, of_nat p))))"

subsection \<open>The flags of the demo\<close>

text \<open>
  A \<^theory_text>\<open>uint\<close> flag has 64 bits. The strings that are only compared are HOL
  strings, the ones that are parsed or go to the kernel are bytes.
\<close>

type_synonym uint = "64 word"

record flags =
  fMode :: string
  fLink :: string
  fTun :: "byte list"
  fUdpLocalPort :: uint
  fUdpRemotePort :: uint
  fUdpRemoteHost :: "byte list"
  fUnixLocal :: "byte list"
  fUnixRemote :: "byte list"
  fLocalIP :: "byte list"
  fLocalPort :: uint
  fRemoteIP :: "byte list"
  fRemotePort :: uint
  fRendezvous :: "byte list"
  fSession :: "byte list"
  fPunchTimeout :: duration
  fPunchLocalPort :: uint
  fDebug :: bool
  fMSL :: duration

definition defaultFlags :: flags where
  "defaultFlags = \<lparr>
     fMode = ''client'', fLink = ''tun'', fTun = ascii ''tun0'',
     fUdpLocalPort = 40000, fUdpRemotePort = 40001, fUdpRemoteHost = ascii ''127.0.0.1'',
     fUnixLocal = ascii ''/tmp/tcpvibe-local.sock'', fUnixRemote = ascii ''/tmp/tcpvibe-remote.sock'',
     fLocalIP = ascii ''10.0.0.1'', fLocalPort = 9000, fRemoteIP = ascii ''10.0.0.2'', fRemotePort = 9001,
     fRendezvous = ascii ''127.0.0.1:7000'', fSession = ascii ''demo'', fPunchTimeout = 10 * second,
     fPunchLocalPort = 0, fDebug = False, fMSL = 0\<rparr>"

text \<open>
  The hook for diagnostics: nil, or the function that prints with a tag. What is printed is
  appended to a list.
\<close>

type_synonym debugHook = "(string \<Rightarrow> string list \<Rightarrow> string list) option"

definition Debugf :: "debugHook \<Rightarrow> string \<Rightarrow> string list \<Rightarrow> string list" where
  "Debugf hook m printed = (case hook of None \<Rightarrow> printed | Some h \<Rightarrow> h m printed)"

definition debugTo :: "bool \<Rightarrow> string \<Rightarrow> debugHook" where
  "debugTo on tag = (if on then Some (\<lambda>m printed. printed @ [tag @ m]) else None)"

subsection \<open>The choice of the link\<close>

text \<open>What the kernel answers while the link is opened; the ports and paths are arguments.\<close>

record osAnswers =
  tunOpen :: "byte list \<Rightarrow> sockError option"
  tunIoctl :: "byte list \<Rightarrow> sockError option"
  udpSocket :: "sockError option"
  udpBind :: "u16 \<Rightarrow> sockError option"
  unixSocket :: "sockError option"
  unixBind :: "byte list \<Rightarrow> sockError option"
  punchStart :: time
  punchReg :: "punchObs list"
  punchSecond :: time
  punchObs :: "punchObs list"

datatype startedLink = LinkTUN tunLink | LinkUDP udpLink | LinkUnix unixLink

datatype startLog = LogUDP | LogUnix | LogPunchDial "byte list" | LogPunchOpen

text \<open>\<open>None\<close>: the hole punching still waits.\<close>

definition openLink :: "osAnswers \<Rightarrow> flags \<Rightarrow> (startFatal + startedLink) option \<times> startLog list" where
  "openLink os f =
     (if fLink f = ''tun'' then
        (case fst (NewTUNLink (tunOpen os (fTun f)) (tunIoctl os) (fTun f) 0) of
           Inl e \<Rightarrow> (Some (Inl (NoTUN e)), [])
         | Inr l \<Rightarrow> (Some (Inr (LinkTUN l)), []))
      else if fLink f = ''udp'' then
        (case parseIP (fUdpRemoteHost f) of
           Inl e \<Rightarrow> (Some (Inl e), [])
         | Inr ip \<Rightarrow>
             (case fst (NewUDPLink (udpSocket os) (udpBind os (ucast (fUdpLocalPort f)))
                 (ip, unat (ucast (fUdpRemotePort f) :: u16)) 0) of
                Inl e \<Rightarrow> (Some (Inl (NoUDP e)), [])
              | Inr l \<Rightarrow> (Some (Inr (LinkUDP l)), [LogUDP])))
      else if fLink f = ''unix'' then
        (case fst (NewUnixLink (unixSocket os) (unixBind os (fUnixLocal f)) 0) of
           Inl e \<Rightarrow> (Some (Inl (NoUnix e)), [])
         | Inr l \<Rightarrow> (Some (Inr (LinkUnix l)), [LogUnix]))
      else if fLink f = ''holepunch'' then
        (case parseHostPort (fRendezvous f) of
           Inl e \<Rightarrow> (Some (Inl e), [])
         | Inr (ip, port) \<Rightarrow>
             (case fst (DialHolePunch (udpSocket os) (udpBind os (ucast (fPunchLocalPort f)))
                 (ip, unat port) (fSession f) (fPunchTimeout f) (punchStart os) (punchReg os)
                 (punchSecond os) (punchObs os) 0) of
                None \<Rightarrow> (None, [LogPunchDial (fSession f)])
              | Some (Inl e) \<Rightarrow> (Some (Inl (NoPunch e)), [LogPunchDial (fSession f)])
              | Some (Inr l) \<Rightarrow> (Some (Inr (LinkUDP l)), [LogPunchDial (fSession f), LogPunchOpen])))
      else (Some (Inl (BadLink (fLink f))), []))"

subsection \<open>main\<close>

text \<open>
  The two addresses, the link, the connection and the flow. \<open>eng\<close> gives what the goroutines of
  \<open>Serve\<close> do on the link that was opened; \<open>clock\<close> is the clock of the connection and \<open>w\<close> the
  readings of the program itself; \<open>iss\<close> is the random number of the client. A result \<open>Inl\<close> is
  a \<^theory_text>\<open>log.Fatalf\<close> before the flow starts.
\<close>

definition demoMain :: "osAnswers \<Rightarrow> flags \<Rightarrow> (nat \<Rightarrow> time) \<Rightarrow> (startedLink \<Rightarrow> nat \<Rightarrow> ConnEvent list) \<Rightarrow>
    (nat \<Rightarrow> time) \<Rightarrow> u32 \<Rightarrow> (startFatal + outcome \<times> demo) option \<times> startLog list" where
  "demoMain os f clock eng w iss =
     (case parseIP (fLocalIP f) of
        Inl e \<Rightarrow> (Some (Inl e), [])
      | Inr lip \<Rightarrow>
          (case parseIP (fRemoteIP f) of
             Inl e \<Rightarrow> (Some (Inl e), [])
           | Inr rip \<Rightarrow>
               (let loc = \<lparr>epIP = lip, epPort = ucast (fLocalPort f)\<rparr>;
                    rem = \<lparr>epIP = rip, epPort = ucast (fRemotePort f)\<rparr> in
                case openLink os f of
                  (None, out) \<Rightarrow> (None, out)
                | (Some (Inl e), out) \<Rightarrow> (Some (Inl e), out)
                | (Some (Inr l), out) \<Rightarrow>
                    (map_option Inr (runMode (fMode f) iss (startDemo clock loc rem (fMSL f) (eng l) w)), out))))"

subsection \<open>The rendezvous program\<close>

record rdvFlags =
  rPort :: uint
  rDebug :: bool

definition defaultRdvFlags :: rdvFlags where
  "defaultRdvFlags = \<lparr>rPort = 7000, rDebug = False\<rparr>"

datatype rdvExit = RdvExit | RdvNotOpened sockError | RdvServe sockError

definition rendezvousMain :: "sockError option \<Rightarrow> (u16 \<Rightarrow> sockError option) \<Rightarrow> rdvFlags \<Rightarrow>
    (bool \<times> recvResult) list \<Rightarrow> rdvExit option \<times> (addr \<times> byte list) list" where
  "rendezvousMain sockErr bindErr f obs =
     (case fst (NewRendezvous sockErr (bindErr (ucast (rPort f))) 0) of
        Inl e \<Rightarrow> (Some (RdvNotOpened e), [])
      | Inr r \<Rightarrow>
          (case Serve r obs of
             (None, _, out) \<Rightarrow> (None, out)
           | (Some None, _, out) \<Rightarrow> (Some RdvExit, out)
           | (Some (Some e), _, out) \<Rightarrow> (Some (RdvServe e), out)))"

subsection \<open>A printed address is read back\<close>

lemma decimal_hd_nonzero: "0 < n \<Longrightarrow> hd (decimal n) \<noteq> 48"
proof (induction n rule: decimal.induct)
  case (1 n)
  show ?case
  proof (cases "n < 10")
    case True
    have "of_nat (48 + n) \<noteq> (48 :: byte)"
    proof
      assume "of_nat (48 + n) = (48 :: byte)"
      then have "unat (of_nat (48 + n) :: byte) = 48" by simp
      then show False using digit_byte [OF True] 1(2) by simp
    qed
    then show ?thesis using True by (simp add: decimal.simps [of n])
  next
    case False
    then have "hd (decimal (n div 10)) \<noteq> 48" by (intro 1(1)) simp_all
    then show ?thesis using False decimal_digits [of "n div 10"] by (simp add: decimal.simps [of n])
  qed
qed

lemma v4Octet_decimal: "v4Octet (decimal (unat p)) = Some p"
proof -
  have d: "decimal (unat p) \<noteq> []" "list_all isDigit (decimal (unat p))" using decimal_digits [of "unat p"] by blast+
  have "hd (decimal (unat p)) = 48 \<longrightarrow> length (decimal (unat p)) = 1"
    using decimal_hd_nonzero [of "unat p"] by (cases "unat p = 0") (simp_all add: decimal.simps [of 0])
  then show ?thesis using d unat_u8_less [of p] by (simp add: v4Octet_def digitsVal_decimal)
qed

lemma parseV4_IPStr: "parseV4 (IPStr a) = Some a"
proof -
  obtain p q r t where a: "a = (p, q, r, t)" by (metis prod_cases4)
  have "SplitByte 46 (IPStr a) = [decimal (unat p), decimal (unat q), decimal (unat r), decimal (unat t)]"
    by (simp add: IPStr_def a SplitByte_append SplitByte_none no_sep)
  then show ?thesis by (simp add: parseV4_def a v4Octet_decimal)
qed

lemma To4_mapped: "To4 (mappedPrefix @ ip4_list a) = Some a"
  by (cases a) (simp add: To4_def mappedPrefix_def ip4_at_def ip4_list_def nth_append)

lemma find_dot:
  assumes "46 \<notin> set s" "58 \<notin> set s" "37 \<notin> set s"
  shows "List.find (\<lambda>c. c = 46 \<or> c = 58 \<or> c = 37) (s @ 46 # t) = Some 46"
  using assms by (induction s) auto

lemma parseIP_IPStr: "parseIP (IPStr a) = Inr a"
proof -
  obtain p q r t where a: "a = (p, q, r, t)" by (metis prod_cases4)
  have "37 \<notin> set (decimal (unat p))" using decimal_set [of 37 "unat p"] by (auto simp: isDigit_def)
  then have "List.find (\<lambda>c. c = 46 \<or> c = 58 \<or> c = 37) (IPStr a) = Some 46"
    unfolding IPStr_def a prod.case by (simp add: find_dot no_sep)
  then show ?thesis by (simp add: parseIP_def ParseIP_def parseV4_IPStr To4_mapped)
qed

lemma IPStr_chars: "x \<in> set (IPStr a) \<Longrightarrow> isDigit x \<or> x = 46"
  using decimal_set by (auto simp: IPStr_def split: prod.splits)

lemma lastIndexOf_append:
  assumes "c \<notin> set ys"
  shows "lastIndexOf c (xs @ c # ys) = Some (length xs)"
proof -
  have "takeWhile (\<lambda>x. x \<noteq> c) (rev ys @ c # rev xs) = rev ys" using assms by (intro takeWhile_tail [THEN trans]) auto
  then show ?thesis by (simp add: lastIndexOf_def indexOf_def)
qed

lemma SplitHostPort_IPStr: "SplitHostPort (IPStr a @ 58 # decimal p) = Some (IPStr a, decimal p)"
proof -
  have h: "hd (IPStr a @ 58 # decimal p) \<noteq> 91"
  proof -
    obtain q r s t where a: "a = (q, r, s, t)" by (metis prod_cases4)
    have "isDigit (hd (IPStr a @ 58 # decimal p))"
      using decimal_hd [of "unat q"] by (simp add: IPStr_def a)
    then show ?thesis by (auto simp: isDigit_def)
  qed
  have n: "x \<notin> set (IPStr a)" "x \<notin> set (decimal p)" if "x = 58 \<or> x = 91 \<or> x = 93" for x
    using that IPStr_chars [of x a] decimal_set [of x p] by (auto simp: isDigit_def)
  have l: "lastIndexOf 58 (IPStr a @ 58 # decimal p) = Some (length (IPStr a))"
    by (rule lastIndexOf_append) (use n in blast)
  show ?thesis using h n by (simp add: SplitHostPort_def l)
qed

lemma parseHostPort_IPStr: "parseHostPort (IPStr a @ 58 # decimal (unat p)) = Inr (a, p)"
  using unat_u16_less [of p]
  by (simp add: parseHostPort_def SplitHostPort_IPStr ParseUint_decimal parseIP_IPStr)

subsection \<open>Ports\<close>

lemma ucast_port: "(ucast (p + 65536 * i) :: u16) = ucast p" for p i :: uint
proof -
  have u: "unat (ucast x :: u16) = unat x mod 65536" for x :: uint
    by (simp add: unsigned_ucast_eq unsigned_take_bit_eq take_bit_eq_mod)
  have "unat (p + 65536 * i) mod 65536 = (unat p + 65536 * unat i) mod 65536"
    by (simp add: unat_word_ariths mod_mod_cancel mod_simps)
  then show ?thesis unfolding word_unat_eq_iff u by simp
qed

section \<open>Properties\<close>

text \<open>
  What the port flags mean. \<open>main\<close> converts every port flag by
  \<^theory_text>\<open>uint16\<close> and never checks its size, so a flag value above
  65535 silently stands for another port: the program runs in the same way whatever
  multiples of 65536 are added to its five port flags.
\<close>

theorem port_flags_wrap:
  "demoMain os (f\<lparr>fLocalPort := fLocalPort f + 65536 * i, fRemotePort := fRemotePort f + 65536 * j,
      fUdpLocalPort := fUdpLocalPort f + 65536 * k, fUdpRemotePort := fUdpRemotePort f + 65536 * l,
      fPunchLocalPort := fPunchLocalPort f + 65536 * m\<rparr>) clock eng w iss =
   demoMain os f clock eng w iss"
proof (cases f)
  case fields: (fields mode lnk tun ulp urp urh ul ur lip lp rip rp rdv sess pt plp dbg ms)
  show ?thesis
    unfolding fields demoMain_def openLink_def flags.select_convs flags.update_convs ucast_port
    by (rule HOL.refl)
qed

text \<open>
  An address printed by \<open>IPStr\<close>, followed by a colon and the port in decimal,
  is read back by the parser of the rendezvous flag.
\<close>

theorem flag_address_roundtrip:
  "parseIP (IPStr a) = Inr a \<and> parseHostPort (IPStr a @ 58 # decimal (unat p)) = Inr (a, p)"
  by (simp add: parseIP_IPStr parseHostPort_IPStr)

end
