(* ===== verification/Spec2Isabelle.thy ===== *)
theory Spec2Isabelle
  imports Link_Pipe Link_Arp Link_Tun Link_Datagram Tcp_Framing Tcp_Delivery Tcp_Crossing
    Tcp_Teardown Tcp_TimeWait Tcp_Recovery Cmd_Main
begin

text \<open>
  \<^bold>\<open>tcp\_vibe in Isabelle/HOL.\<close>
  The repository is a TCP implementation in Go that runs in user space: network formats
  (src/tcp/network), the transport itself (src/tcp/transport), links that carry its IP packets
  (src/tcp/link), and two programs (src/cmd). This development is a shallow embedding of these
  packages. Every definition is named after what it models, and follows the code branch by branch;
  the theorems say what the parts promise and end in a statement about two ends and a network.

  \<^bold>\<open>How the program hangs together.\<close>
  A link delivers one IP packet per read. A reading goroutine parses it (IPv4 header, TCP
  checksum, TCP header) and hands the segment to a connection, either the only one
  (\<^theory_text>\<open>receiver\<close>, recvloop.go) or the one that the table finds by its 4-tuple
  (\<^theory_text>\<open>Stack\<close>, listener.go and conntable.go). A connection (\<^theory_text>\<open>Conn\<close> and
  \<^theory_text>\<open>TCB\<close>, statemachine.go, data.go and others) is changed by segments, by a tick
  every 100 ms and by the calls of the application, one at a time under its lock, and
  writes packets to the link.

  \<^bold>\<open>The data.\<close>
  Bytes and the unsigned integers of the code keep their width as words, so sequence numbers,
  windows and timestamps wrap around as they do in Go; an \<^theory_text>\<open>int\<close> that only counts is
  a \<open>nat\<close>. A slice is a list; reading out of range is the value \<open>None\<close>, which is a panic
  in Go, and the parsers are proved free of it. An error result is the left side of a sum. A
  connection is the record \<open>TCB\<close> with the fields of the Go struct; \<open>outp\<close> collects the
  packets it has written, and the clock is a function \<open>clk\<close> from the number of readings
  (\<open>ticks\<close>) to the time, so that two readings in one call may differ.

  \<^bold>\<open>The theories.\<close>
  \<^item> \<open>Vibe_Prelude\<close>: types, partial list access, lemmas on lists and words, the collection of frame rules.
  \<^item> \<open>Net_Bytes\<close>, \<open>Net_Checksum\<close>, \<open>Net_Ipv4\<close>: bytes.go, checksum.go, ipv4.go. The checksum agrees with the
    residue of the sum of the words modulo 65535, a filled checksum verifies, a changed word is
    detected, and the header round trip holds.
  \<^item> \<open>Tcp_Seq\<close>, \<open>Tcp_Rto\<close>, \<open>Tcp_Congestion\<close>, \<open>Tcp_Flow\<close>: seq.go and paws.go, rto.go, congestion.go,
    flowcontrol.go. Circular comparison is the order of stream positions; the estimator
    computes the formulas of RFC 6298 exactly for samples below 2^29; bounds of the congestion window over all runs.
  \<^item> \<open>Tcp_Options\<close>, \<open>Tcp_Header\<close>, \<open>Tcp_Framing\<close>: options.go, header.go, framing.go, with round trips and, for the
    framer, independence from how the stream is cut into reads.
  \<^item> \<open>Tcp_Tcb\<close>, \<open>Tcp_Frames\<close>: tcb.go and the predicates of a segment; what an operation may write.
  \<^item> \<open>Tcp_Output\<close>, \<open>Tcp_Wire\<close>: the packets that are written (statemachine.go, sack.go), challenge ACKs, and the
    receive path that undoes them (\<open>decodePacket\<close>, recvloop.go and listener.go).
  \<^item> \<open>Tcp_Recv\<close>, \<open>Tcp_Reassembly\<close>, \<open>Tcp_Delivery\<close>: the receiving half of data.go, and its specification as a stream
    of bytes at positions, in two halves: nothing is delivered that is not the stream, and nothing that arrived is lost.
  \<^item> \<open>Tcp_Send\<close>, \<open>Tcp_Timers\<close>, \<open>Tcp_SendStream\<close>: the sending half of data.go with the persist and override timers, the
    retransmission queue, keep-alive and \<^theory_text>\<open>Tick\<close>; the specification that the queue is the unacknowledged
    front of the send buffer.
  \<^item> \<open>Tcp_Machine\<close>, \<open>Tcp_Events\<close>, \<open>Tcp_Invariants\<close>, \<open>Tcp_Typing\<close>: opening, closing and \<^theory_text>\<open>onSegment\<close>; the
    events of a connection, its transitions and the states it can reach; what is on the wire in all of them, and
    what the fields of the record range over.
  \<^item> \<open>Tcp_Conntable\<close>, \<open>Tcp_Stack\<close>, \<open>Tcp_Serve\<close>: conntable.go, listener.go, recvloop.go: the table, the operations of the
    stack, and the goroutines that run them in any interleaving.
  \<^item> \<open>Tcp_Transfer\<close>: both ends together, with a network that loses, repeats and reorders.
  \<^item> \<open>Tcp_Endpoint\<close>, \<open>Tcp_Handshake\<close>, \<open>Tcp_Crossing\<close>, \<open>Tcp_Teardown\<close>: the exchanges of two ends packet by packet over the
    receive path: the three-way handshake, the simultaneous open, the four-way close.
  \<^item> \<open>Tcp_TimeWait\<close>: readings of the clock go forward through every operation, and what that means for TIME-WAIT in a run.
  \<^item> \<open>Tcp_Session\<close>, \<open>Tcp_Reliable\<close>, \<open>Tcp_Recovery\<close>: two ends from the handshake on, both sending and
    receiving; the streams in both directions, that a byte stays in the send buffer until the peer holds it, and that
    the retransmission queue is enough to bring the peer all that was sent.
  \<^item> \<open>Link_Pipe\<close>, \<open>Link_Arp\<close>, \<open>Link_Tun\<close>, \<open>Link_Datagram\<close>, \<open>Link_Rendezvous\<close>, with \<open>Link_Socket\<close> and \<open>Link_Text\<close> for what
    they use of the kernel and of Go's text functions: link.go, arp.go and afpacket\_linux.go, tun\_linux.go, udplink.go,
    unixlink.go and holepunch.go, rendezvous.go.
  \<^item> \<open>Cmd_Demo\<close>, \<open>Cmd_Main\<close>: the flows of cmd/tcpdemo/main.go over the transport; its flags and the choice of the
    link, with what Go's net package does with an address, and cmd/rendezvous/main.go.

  \<^bold>\<open>The interfaces.\<close>
  Each locale is a contract between a part that changes state and an invariant or a caller, and
  is interpreted on the definitions of the model. \<open>wire_step\<close> and \<open>wire_invariant\<close> (what every writer of
  segments keeps) carry the well-formedness of packets, the text of the stream and the range of the
  acknowledgement numbers; \<open>stack_invariant\<close> carries
  the invariants of the table and the channels through every step of a stack; \<open>driver\<close> says
  that goroutines change what they drive only by its operations; \<open>engine_invariant\<close> does the same
  for the demo program and the goroutines beside it. \<open>test_and_set\<close> is the contract of the connection table,
  \<open>bounded_retry\<close> the one that retransmission and keep-alive share, \<open>packet_link\<close> and
  \<open>datagram_link\<close> those of the links.

  \<^bold>\<open>The main results.\<close>
  Whatever the network and the applications do, the receiver's reads are a prefix of the sender's
  writes, below and in both directions of a session (\<open>Tcp_Session\<close>), and the rest of what was written is still in the
  send buffer (\<open>Tcp_Reliable\<close>), from where the retransmission queue can bring it (\<open>Tcp_Recovery\<close>); what has arrived inside the window is delivered (\<open>Tcp_Delivery\<close>); the handshake
  establishes both ends for any two initial sequence numbers and the exchange of FINs closes them again,
  whichever end begins (\<open>Tcp_Handshake\<close>, \<open>Tcp_Teardown\<close>); a segment that closes a synchronized
  connection is a RST with the exact sequence
  number or the ACK of its FIN in LAST-ACK (\<open>Tcp_Events\<close>); nothing is sent beyond the two windows and nothing waits
  without a timer (\<open>Tcp_Send\<close>); a table entry, a live connection and a 4-tuple belong together (\<open>Tcp_Stack\<close>);
  stopping never blocks (\<open>Tcp_Serve\<close>). Some theorems state what the code does where it
  hardly means to: \<open>Close\<close> puts its FIN on a queued byte (\<open>Tcp_SendStream\<close>), a simultaneous open can leave
  the send window at zero (\<open>Tcp_Crossing\<close>), options outlive the peer that offered them when a RST leads back to LISTEN
  (\<open>Tcp_Typing\<close>), the demo server can leave text unread (\<open>Cmd_Demo\<close>), and the port flags wrap around (\<open>Cmd_Main\<close>).

  \<^bold>\<open>Bounds.\<close>
  The stream theorems ask for less than 2^30 bytes in one run and receive windows of at most 2^30, half of what
  circular comparison can tell apart. Loops of the code are recursive functions with a proof of
  termination (\<open>flushLoop\<close>: what is in flight grows; \<open>foldCarry\<close>, \<open>pushLoop\<close>, \<open>parseOpts\<close>: the argument shrinks); the
  waits of the demo, which end only because time passes, are partial functions, and \<open>Cmd_Demo\<close> proves that they return on a clock
  that passes every instant. No fuel is used.

  \<^bold>\<open>Concurrency.\<close>
  A method that holds the lock of a connection, of the table or of a link is one step. The
  goroutines interleave at those steps: a blocked read or a full channel is a step that is not enabled.
  A Go map is iterated in an arbitrary order, which is an argument of the step.

  \<^bold>\<open>Not modelled.\<close>
  The calls of \<open>Debugf\<close> inside the library, which only print; the text of log messages; the parsing of
  the command line by the flag package (the values of the flags are an argument); the file name of a
  Unix socket; memory, scheduling fairness, and the Go
  memory model (data races). What a kernel answers to a system call is an argument.
\<close>

section \<open>Properties\<close>



end
